(* ===== verification/C_Prelude.thy ===== *)
theory C_Prelude
  imports Main "HOL-Library.Word" "HOL-Library.Monad_Syntax"
begin

text \<open>
  Shared ground of the development: the machine types of the C sources (x86-64, LP64),
  the integer conversions they rely on, the encoding of undefined behaviour, and the
  generic facts on options, lists and words that the component theories use.

  Undefined behaviour (a read or write outside an object, a NULL dereference) is the value
  \<^term>\<open>None\<close> of an option; a computation that is defined returns \<^term>\<open>Some\<close> of its
  result. A C pointer that may be NULL is an option too, with \<^term>\<open>None\<close> for NULL.
  The theorem collections are \<open>c_int\<close> (integer conversions), \<open>c_mem\<close> (buffers and C
  strings) and \<open>kv_simps\<close> (key-value tables).
\<close>

unbundle bit_operations_syntax

named_theorems c_int and c_mem and kv_simps

type_synonym byte = "8 word"
type_synonym u8 = "8 word"
type_synonym u16 = "16 word"
type_synonym u32 = "32 word"
type_synonym u64 = "64 word"

text \<open>A C object made of \<open>char\<close>s, and the terminating byte of a C string.\<close>

type_synonym cbuf = "char list"

abbreviation NUL :: char where "NUL \<equiv> CHR 0x00"
abbreviation CR :: char where "CR \<equiv> CHR 0x0D"
abbreviation LF :: char where "LF \<equiv> CHR 0x0A"
abbreviation SP :: char where "SP \<equiv> CHR 0x20"

section \<open>Integer conversions\<close>

text \<open>Conversion of a pointer difference or a signed value to \<open>size_t\<close>.\<close>

definition to_size_t :: "int \<Rightarrow> u64" where
  "to_size_t i = word_of_int i"

text \<open>
  Conversion to \<open>int\<close>: the value modulo \<open>2 ^ 32\<close>, read as two's complement (gcc's
  documented choice, and what the generated code does on overflow).
\<close>

definition to_int :: "int \<Rightarrow> int" where
  "to_int i = signed_take_bit 31 i"

text \<open>
  The expression \<open>1 << n\<close> at type \<open>int\<close>. The compiled \<open>sal\<close> instruction takes its count
  modulo 32; the C standard defines the result only for \<open>n < 31\<close>.
\<close>

definition shl_int :: "nat \<Rightarrow> u32" where
  "shl_int n = push_bit (n mod 32) 1"

text \<open>Assignment of an \<open>int\<close> to a \<open>size_t\<close>: sign extension.\<close>

definition int_to_size_t :: "u32 \<Rightarrow> u64" where
  "int_to_size_t w = scast w"

text \<open>
  \<open>__builtin_clzl\<close>: the number of leading zero bits of a nonzero 64-bit value; undefined
  for 0.
\<close>

fun clz_bits :: "nat \<Rightarrow> u64 \<Rightarrow> nat" where
  "clz_bits 0 w = 0"
| "clz_bits (Suc n) w = (if bit w n then 0 else Suc (clz_bits n w))"

definition clzl :: "u64 \<Rightarrow> nat option" where
  "clzl w = (if w = 0 then None else Some (clz_bits 64 w))"

section \<open>Facts on integer conversions\<close>

lemma to_size_t_nonneg [c_int]:
  assumes "0 \<le> i" and "i < 2 ^ 64"
  shows "unat (to_size_t i) = nat i"
  using assms by (simp add: to_size_t_def unat_eq_nat_uint uint_word_of_int)

lemma to_size_t_less_iff [c_int]:
  assumes "0 \<le> i" and "i < 2 ^ 64"
  shows "to_size_t i < numeral n \<longleftrightarrow> i < uint (numeral n :: u64)"
  using assms by (simp add: to_size_t_def word_less_def uint_word_of_int)

lemma to_int_id [c_int]:
  assumes "- (2 ^ 31) \<le> i" and "i < 2 ^ 31"
  shows "to_int i = i"
  using assms by (simp add: to_int_def signed_take_bit_int_eq_self)

lemma clz_bits_eq:
  assumes "bit w k" and "\<And>i. k < i \<Longrightarrow> i < n \<Longrightarrow> \<not> bit w i" and "k < n"
  shows "clz_bits n w = n - Suc k"
  using assms
proof (induction n)
  case 0
  then show ?case by simp
next
  case (Suc n)
  show ?case
  proof (cases "k = n")
    case True
    with Suc.prems show ?thesis by simp
  next
    case False
    with Suc.prems have "k < n" and "\<not> bit w n" by auto
    with Suc show ?thesis by simp
  qed
qed

lemma unat_less_size_t: "unat (w :: u64) < 2 ^ 64"
  using unsigned_less [of w, where 'a = nat] by simp

lemma bit_unat [c_int]: "bit (unat (w :: 'a::len word)) k = bit w k"
  by (simp add: bit_unsigned_iff)

lemma bit_word_range:
  fixes w :: "'a::len word"
  assumes "2 ^ k \<le> unat w" and "unat w < 2 ^ Suc k"
  shows "bit w k" and "\<And>i. k < i \<Longrightarrow> \<not> bit w i"
proof -
  have "unat w div 2 ^ k = 1"
    using assms by (intro div_nat_eqI) auto
  then show "bit w k"
    by (simp add: bit_unat [symmetric] bit_iff_odd)
next
  fix i
  assume "k < i"
  then have "(2::nat) ^ Suc k \<le> 2 ^ i" by (intro power_increasing) auto
  with assms(2) have "unat w div 2 ^ i = 0" by simp
  then show "\<not> bit w i"
    by (simp add: bit_unat [symmetric] bit_iff_odd)
qed

lemma clzl_eq [c_int]:
  assumes "2 ^ k \<le> unat w" and "unat w < 2 ^ Suc k" and "k < 64"
  shows "clzl w = Some (63 - k)"
proof -
  have "w \<noteq> 0" using assms(1) by (auto dest: order_antisym)
  moreover have "clz_bits 64 w = 64 - Suc k"
    using bit_word_range [OF assms(1,2)] assms(3) by (intro clz_bits_eq) auto
  ultimately show ?thesis by (simp add: clzl_def)
qed

lemma shl_int_small [c_int]:
  assumes "n < 31"
  shows "int_to_size_t (shl_int n) = 2 ^ n"
proof (rule bit_word_eqI)
  fix i
  assume "i < LENGTH(64)"
  with assms show "bit (int_to_size_t (shl_int n)) i = bit (2 ^ n :: u64) i"
    by (auto simp: int_to_size_t_def shl_int_def bit_simps)
qed

section \<open>Facts on options\<close>

lemma bind_Some_iff: "(x \<bind> f) = Some y \<longleftrightarrow> (\<exists>a. x = Some a \<and> f a = Some y)"
  by (cases x) auto

lemma bind_not_None:
  "(x \<bind> f) \<noteq> None \<longleftrightarrow> (\<exists>a. x = Some a \<and> f a \<noteq> None)"
  by (cases x) auto

end
