(* ===== verification/C_Strings.thy ===== *)
theory C_Strings
  imports C_Prelude
begin

text \<open>
  C strings in buffers. A buffer is the whole object a pointer points into, as a list of
  characters; a pointer is an offset. \<open>peek\<close> and \<open>poke\<close> are the accesses \<open>p[i]\<close> and
  \<open>p[i] = c\<close>; \<open>strlen\<close>, \<open>strchr\<close>, \<open>strcmp\<close> and \<open>strncat\<close> are the library functions the
  sources call, with a read or write past the end of the object as \<^term>\<open>None\<close>.
\<close>

section \<open>Buffer accesses\<close>

definition peek :: "cbuf \<Rightarrow> nat \<Rightarrow> char option" where
  "peek mem i = (if i < length mem then Some (mem ! i) else None)"

definition poke :: "cbuf \<Rightarrow> nat \<Rightarrow> char \<Rightarrow> cbuf option" where
  "poke mem i c = (if i < length mem then Some (mem[i := c]) else None)"

section \<open>Library functions\<close>

text \<open>
  \<open>strchr(mem + i, c)\<close>: the offset of the first \<open>c\<close>, or NULL (the inner \<^term>\<open>None\<close>)
  when the terminator comes first.
\<close>

function strchr :: "cbuf \<Rightarrow> nat \<Rightarrow> char \<Rightarrow> nat option option" where
  "strchr mem i c =
     (if length mem \<le> i then None
      else if mem ! i = c then Some (Some i)
      else if mem ! i = NUL then Some None
      else strchr mem (Suc i) c)"
  by pat_completeness auto
termination
  by (relation "measure (\<lambda>(mem, i, c). length mem - i)") auto

declare strchr.simps [simp del]

text \<open>The characters of a list before its first NUL.\<close>

definition upto_nul :: "cbuf \<Rightarrow> string" where
  "upto_nul xs = takeWhile (\<lambda>c. c \<noteq> NUL) xs"

text \<open>The C string at offset \<open>i\<close>; undefined when no terminator follows in the object.\<close>

definition cstr :: "cbuf \<Rightarrow> nat \<Rightarrow> string option" where
  "cstr mem i = (if NUL \<in> set (drop i mem) then Some (upto_nul (drop i mem)) else None)"

definition strlen :: "cbuf \<Rightarrow> nat \<Rightarrow> nat option" where
  "strlen mem i = map_option length (cstr mem i)"

text \<open>
  \<open>strncat(dst, src, n)\<close>: append at most \<open>n\<close> characters of \<open>src\<close>, stopping at a NUL, and
  then a NUL. It reads \<open>src\<close> up to its terminator or \<open>n\<close> characters, whichever comes first.
\<close>

definition strncat :: "cbuf \<Rightarrow> cbuf \<Rightarrow> nat \<Rightarrow> cbuf option" where
  "strncat dst src n =
     do {
       p \<leftarrow> strlen dst 0;
       s \<leftarrow> (if n \<le> length src \<or> NUL \<in> set src then Some (upto_nul (take n src)) else None);
       if p + length s < length dst
       then Some (take p dst @ s @ [NUL] @ drop (Suc (p + length s)) dst)
       else None
     }"

text \<open>
  A pointer to a C string: into the request buffer of the connection at hand, or to an
  object outside it (a literal, a string of libmagic), given by its characters.
\<close>

datatype cptr = Buf nat | Lit string

fun deref :: "cbuf \<Rightarrow> cptr \<Rightarrow> string option" where
  "deref mem (Buf i) = cstr mem i"
| "deref mem (Lit s) = Some (upto_nul s)"

section \<open>Facts on buffers\<close>

lemma peek_eq_Some: "peek mem i = Some c \<longleftrightarrow> i < length mem \<and> c = mem ! i"
  by (auto simp: peek_def)

lemma poke_eq_Some: "poke mem i c = Some m \<longleftrightarrow> i < length mem \<and> m = mem[i := c]"
  by (auto simp: poke_def)

lemma peek_in [c_mem]: "i < length mem \<Longrightarrow> peek mem i = Some (mem ! i)"
  by (simp add: peek_def)

lemma poke_in [c_mem]: "i < length mem \<Longrightarrow> poke mem i c = Some (mem[i := c])"
  by (simp add: poke_def)

lemma upto_nul_no_nul [simp]: "NUL \<notin> set (upto_nul xs)"
  by (auto simp: upto_nul_def dest: set_takeWhileD)

lemma upto_nul_id [simp, c_mem]: "NUL \<notin> set xs \<Longrightarrow> upto_nul xs = xs"
  by (auto simp: upto_nul_def takeWhile_eq_all_conv)

lemma upto_nul_append [simp]:
  "NUL \<notin> set xs \<Longrightarrow> upto_nul (xs @ ys) = xs @ upto_nul ys"
  by (induction xs) (auto simp: upto_nul_def)

lemma upto_nul_Cons [simp]: "upto_nul (c # cs) = (if c = NUL then [] else c # upto_nul cs)"
  by (simp add: upto_nul_def)

lemma upto_nul_Nil [simp]: "upto_nul [] = []"
  by (simp add: upto_nul_def)

lemma upto_nul_length_le: "length (upto_nul xs) \<le> length xs"
  by (simp add: upto_nul_def length_takeWhile_le)

lemma upto_nul_length_less: "NUL \<in> set xs \<Longrightarrow> length (upto_nul xs) < length xs"
  by (induction xs) auto

lemma upto_nul_decomp:
  assumes "NUL \<in> set xs"
  shows "\<exists>ys. xs = upto_nul xs @ NUL # ys"
  using assms by (induction xs) auto

lemma upto_nul_take_eq: "take (length (upto_nul xs)) xs = upto_nul xs"
  by (induction xs) auto

lemma upto_nul_take: "NUL \<in> set (take n xs) \<Longrightarrow> upto_nul (take n xs) = upto_nul xs"
  by (induction xs arbitrary: n) (auto simp: take_Cons split: nat.splits if_splits)

section \<open>Facts on strchr\<close>

lemma strchr_step:
  "i < length mem \<Longrightarrow> strchr mem i c =
     (if mem ! i = c then Some (Some i)
      else if mem ! i = NUL then Some None else strchr mem (Suc i) c)"
  by (subst strchr.simps) simp

lemma strchr_found:
  assumes "strchr mem i c = Some (Some j)"
  shows "i \<le> j" and "j < length mem" and "mem ! j = c"
    and "\<And>k. i \<le> k \<Longrightarrow> k < j \<Longrightarrow> mem ! k \<noteq> c \<and> mem ! k \<noteq> NUL"
proof -
  have "i \<le> j \<and> j < length mem \<and> mem ! j = c \<and>
      (\<forall>k. i \<le> k \<longrightarrow> k < j \<longrightarrow> mem ! k \<noteq> c \<and> mem ! k \<noteq> NUL)"
    using assms
  proof (induction mem i c rule: strchr.induct)
    case (1 mem i c)
    then have i: "i < length mem" by (subst (asm) strchr.simps) (simp split: if_splits)
    show ?case
    proof (cases "mem ! i = c")
      case True
      with "1.prems" i show ?thesis by (simp add: strchr_step)
    next
      case False
      with "1.prems" i have n: "mem ! i \<noteq> NUL" and rec: "strchr mem (Suc i) c = Some (Some j)"
        by (simp_all add: strchr_step split: if_splits)
      from "1.IH" [OF _ False n rec] i have IH: "Suc i \<le> j" "j < length mem" "mem ! j = c"
        "\<And>k. Suc i \<le> k \<Longrightarrow> k < j \<Longrightarrow> mem ! k \<noteq> c \<and> mem ! k \<noteq> NUL"
        by auto
      have "mem ! k \<noteq> c \<and> mem ! k \<noteq> NUL" if "i \<le> k" and "k < j" for k
        using that False n IH(4) by (cases "k = i") auto
      with IH show ?thesis by auto
    qed
  qed
  then show "i \<le> j" and "j < length mem" and "mem ! j = c"
    and "\<And>k. i \<le> k \<Longrightarrow> k < j \<Longrightarrow> mem ! k \<noteq> c \<and> mem ! k \<noteq> NUL"
    by auto
qed

lemma strchr_NULL:
  assumes "strchr mem i c = Some None" and "i \<le> k" and "\<forall>l. i \<le> l \<longrightarrow> l < k \<longrightarrow> mem ! l \<noteq> NUL"
  shows "k < length mem \<and> mem ! k \<noteq> c"
  using assms
proof (induction mem i c rule: strchr.induct)
  case (1 mem i c)
  from "1.prems"(1) have i: "i < length mem" and c: "mem ! i \<noteq> c"
    by (subst (asm) strchr.simps, simp split: if_splits)+
  show ?case
  proof (cases "k = i")
    case True
    with i c show ?thesis by simp
  next
    case False
    with "1.prems" have n: "mem ! i \<noteq> NUL" by auto
    with "1.prems"(1) i c have "strchr mem (Suc i) c = Some None" by (simp add: strchr_step)
    with "1.IH" [OF _ c n] i "1.prems" False show ?thesis by auto
  qed
qed

lemma strchr_defined:
  assumes "i \<le> z" and "z < length mem" and "mem ! z = NUL"
  shows "strchr mem i c \<noteq> None"
  using assms
proof (induction mem i c rule: strchr.induct)
  case (1 mem i c)
  then have i: "i < length mem" by simp
  show ?case
  proof (cases "mem ! i = c \<or> mem ! i = NUL")
    case True
    with i show ?thesis by (auto simp: strchr_step)
  next
    case False
    with "1.prems" have "Suc i \<le> z" by (cases "i = z") auto
    with False i "1.IH" "1.prems" show ?thesis by (simp add: strchr_step)
  qed
qed

text \<open>Evaluation on a buffer that is split at the place the scan stops.\<close>

lemma strchr_hit [c_mem]:
  assumes "c \<notin> set xs" and "NUL \<notin> set xs" and "i = length pre"
  shows "strchr (pre @ xs @ c # post) i c = Some (Some (i + length xs))"
  using assms
proof (induction xs arbitrary: pre i)
  case Nil
  then show ?case by (simp add: strchr_step)
next
  case (Cons x xs)
  have "strchr ((pre @ [x]) @ xs @ c # post) (Suc i) c = Some (Some (Suc i + length xs))"
    using Cons.prems by (intro Cons.IH) auto
  moreover have "strchr (pre @ (x # xs) @ c # post) i c =
      strchr ((pre @ [x]) @ xs @ c # post) (Suc i) c"
    using Cons.prems by (subst strchr_step) auto
  ultimately show ?case by simp
qed

lemma strchr_miss [c_mem]:
  assumes "c \<notin> set xs" and "NUL \<notin> set xs" and "c \<noteq> NUL" and "i = length pre"
  shows "strchr (pre @ xs @ NUL # post) i c = Some None"
  using assms
proof (induction xs arbitrary: pre i)
  case Nil
  then show ?case by (simp add: strchr_step)
next
  case (Cons x xs)
  have "strchr ((pre @ [x]) @ xs @ NUL # post) (Suc i) c = Some None"
    using Cons.prems by (intro Cons.IH) auto
  moreover have "strchr (pre @ (x # xs) @ NUL # post) i c =
      strchr ((pre @ [x]) @ xs @ NUL # post) (Suc i) c"
    using Cons.prems by (subst strchr_step) auto
  ultimately show ?case by simp
qed

section \<open>Facts on C strings\<close>

lemma cstr_at [c_mem]:
  assumes "NUL \<notin> set xs" and "i = length pre"
  shows "cstr (pre @ xs @ NUL # post) i = Some xs"
  using assms by (simp add: cstr_def)

lemma cstr_defined_iff: "cstr mem i \<noteq> None \<longleftrightarrow> (\<exists>z. i \<le> z \<and> z < length mem \<and> mem ! z = NUL)"
proof
  assume "cstr mem i \<noteq> None"
  then have "NUL \<in> set (drop i mem)" by (simp add: cstr_def split: if_splits)
  then obtain k where "k < length (drop i mem)" "drop i mem ! k = NUL"
    by (auto simp: in_set_conv_nth)
  then have "i \<le> i + k \<and> i + k < length mem \<and> mem ! (i + k) = NUL" by auto
  then show "\<exists>z. i \<le> z \<and> z < length mem \<and> mem ! z = NUL" ..
next
  assume "\<exists>z. i \<le> z \<and> z < length mem \<and> mem ! z = NUL"
  then obtain z where z: "i \<le> z" "z < length mem" "mem ! z = NUL" by auto
  then have "z - i < length (drop i mem)" "drop i mem ! (z - i) = NUL" by auto
  then have "NUL \<in> set (drop i mem)" by (metis nth_mem)
  then show "cstr mem i \<noteq> None" by (simp add: cstr_def)
qed

lemma cstr_no_nul: "cstr mem i = Some s \<Longrightarrow> NUL \<notin> set s"
  by (auto simp: cstr_def split: if_splits)

lemma strlen_zero [simp]: "strlen (s @ NUL # zs) 0 = Some (length s)" if "NUL \<notin> set s"
  using that by (simp add: strlen_def cstr_def)

lemma strncat_exact [c_mem]:
  assumes "NUL \<notin> set s" and "NUL \<notin> set t" and "length t \<le> length zs"
    and "n = length t" and "take n src = t" and "n \<le> length src"
  shows "strncat (s @ NUL # zs) src n = Some (s @ t @ NUL # drop n zs)"
  using assms by (simp add: strncat_def)

end
