(* ===== verification/Strbuf.thy ===== *)
theory Strbuf
  imports C_Strings
begin

text \<open>
  The growable string of \<open>lib/strbuf.c\<close>. The block behind \<open>buf\<close> is the list
  \<open>str_buf\<close>; \<open>alloc\<close> says which sizes the allocator grants in the call, and \<open>fill\<close> the
  indeterminate bytes of a block that \<open>realloc\<close> has grown. The invariant \<open>string_wf\<close> ties
  \<open>capacity\<close> to the block and bounds \<open>len\<close>; \<open>string_exact\<close> adds that \<open>len\<close> counts the
  characters of the C string in the block. The lemmas show on which sizes appending is
  exact and on which it writes outside the block.
\<close>

section \<open>Model\<close>

record string_t =
  str_capacity :: u64
  str_len :: u64
  str_buf :: cbuf

definition sizeof_string_t :: u64 where
  "sizeof_string_t = 24"

text \<open>The size computed from a request: \<open>(1 << __builtin_clzl(n))\<close> as a \<open>size_t\<close>.\<close>

definition clz_capacity :: "u64 \<Rightarrow> u64 option" where
  "clz_capacity n = map_option (\<lambda>z. int_to_size_t (shl_int z)) (clzl n)"

definition string_init :: "(u64 \<Rightarrow> bool) \<Rightarrow> u64 \<Rightarrow> string_t option option" where
  "string_init alloc capacity =
     (if \<not> alloc sizeof_string_t then Some None
      else do {
        c \<leftarrow> clz_capacity capacity;
        let real_capacity = max c 64;
        if \<not> alloc real_capacity then Some None
        else Some (Some \<lparr>str_capacity = real_capacity, str_len = 0,
                         str_buf = replicate (unat real_capacity) NUL\<rparr>)
      })"

text \<open>\<open>realloc\<close>: the common prefix is kept, new bytes are indeterminate.\<close>

definition realloc_buf :: "(nat \<Rightarrow> char) \<Rightarrow> cbuf \<Rightarrow> nat \<Rightarrow> cbuf" where
  "realloc_buf fill b n = take n b @ map fill [length b..<n]"

definition string_append ::
  "(u64 \<Rightarrow> bool) \<Rightarrow> (nat \<Rightarrow> char) \<Rightarrow> string_t option \<Rightarrow> cbuf \<Rightarrow> u64 \<Rightarrow> (bool \<times> string_t option) option"
where
  "string_append alloc fill str b buflen =
     (case str of
        None \<Rightarrow> Some (False, None)
      | Some s \<Rightarrow>
          do {
            r \<leftarrow> (if str_capacity s \<le> str_len s + buflen
                  then do {
                    real_capacity \<leftarrow> clz_capacity (str_len s + buflen);
                    if \<not> alloc real_capacity then Some None
                    else Some (Some (s\<lparr>str_buf := realloc_buf fill (str_buf s) (unat real_capacity),
                                       str_capacity := real_capacity\<rparr>))
                  }
                  else Some (Some s));
            case r of
              None \<Rightarrow> Some (False, Some s)
            | Some s' \<Rightarrow>
                do {
                  nb \<leftarrow> strncat (str_buf s') b (unat buflen);
                  Some (True, Some (s'\<lparr>str_buf := nb, str_len := str_len s' + buflen\<rparr>))
                }
          })"

definition string_reset :: "string_t option \<Rightarrow> string_t option option" where
  "string_reset str =
     (case str of
        None \<Rightarrow> Some None
      | Some s \<Rightarrow>
          if unat (str_capacity s) \<le> length (str_buf s)
          then Some (Some (s\<lparr>str_buf := replicate (unat (str_capacity s)) NUL
                                        @ drop (unat (str_capacity s)) (str_buf s),
                             str_len := 0\<rparr>))
          else None)"

text \<open>The heap objects of a string, and those that \<open>string_free\<close> gives back.\<close>

datatype str_object = Str_struct | Str_buffer

definition string_objects :: "string_t option \<Rightarrow> str_object list" where
  "string_objects str = (if str = None then [] else [Str_struct, Str_buffer])"

definition string_free :: "string_t option \<Rightarrow> str_object list" where
  "string_free str = (if str \<noteq> None then [Str_struct] else [])"

section \<open>Invariant and abstraction\<close>

definition contents :: "string_t \<Rightarrow> string" where
  "contents s = upto_nul (str_buf s)"

definition string_wf :: "string_t \<Rightarrow> bool" where
  "string_wf s \<longleftrightarrow> unat (str_capacity s) = length (str_buf s)
     \<and> 64 \<le> str_capacity s
     \<and> length (contents s) \<le> unat (str_len s) \<and> str_len s < str_capacity s"

definition string_exact :: "string_t \<Rightarrow> bool" where
  "string_exact s \<longleftrightarrow> string_wf s \<and> length (contents s) = unat (str_len s)"

text \<open>An empty string over a zeroed block.\<close>

definition empty_string :: "u64 \<Rightarrow> string_t" where
  "empty_string c = \<lparr>str_capacity = c, str_len = 0, str_buf = replicate (unat c) NUL\<rparr>"

text \<open>
  The sizes for which appending \<open>n\<close> characters is sound: they fit the block, or the block
  grows from a total below \<open>2 ^ 16\<close>.
\<close>

definition append_fits :: "string_t \<Rightarrow> nat \<Rightarrow> bool" where
  "append_fits s n \<longleftrightarrow> unat (str_len s) + n < max (unat (str_capacity s)) (2 ^ 16)"

section \<open>The computed capacity\<close>

lemma clz_capacity_eq:
  assumes "2 ^ k \<le> unat n" and "unat n < 2 ^ Suc k" and "0 < k" and "k < 32"
  shows "clz_capacity n = Some (2 ^ (31 - k))"
proof -
  have "63 - k = 32 + (31 - k)" using assms(4) by simp
  then have "shl_int (63 - k) = shl_int (31 - k)"
    by (simp only: shl_int_def mod_add_self1)
  moreover have "int_to_size_t (shl_int (31 - k)) = 2 ^ (31 - k)"
    using assms(3) by (intro shl_int_small) auto
  ultimately show ?thesis
    using clzl_eq [OF assms(1,2)] assms(4) by (simp add: clz_capacity_def)
qed

lemma pow2_lessD:
  assumes "(2::nat) ^ m \<le> x" and "x < 2 ^ n"
  shows "m < n"
proof -
  have "(2::nat) ^ m < 2 ^ n" using assms by (rule order.strict_trans1)
  then show ?thesis by simp
qed

lemma clz_capacity_ex:
  assumes "1 < unat n" and "unat n < 2 ^ 32"
  obtains k where "clz_capacity n = Some (2 ^ (31 - k))" and "0 < k" and "k < 32"
    and "2 ^ k \<le> unat n" and "unat n < 2 ^ Suc k"
proof -
  obtain k where k: "2 ^ k \<le> unat n" "unat n < 2 ^ Suc k"
    using ex_power_ivl1 [of 2 "unat n"] assms(1) by auto
  have "0 < k" using k(2) assms(1) by (cases k) auto
  moreover have "k < 32"
    by (rule pow2_lessD [OF k(1) assms(2)])
  ultimately show thesis using that k clz_capacity_eq by blast
qed

lemma unat_two_power: "k < 64 \<Longrightarrow> unat (2 ^ k :: u64) = 2 ^ k"
  by (simp add: unat_eq_nat_uint uint_2p word_gt_0 nat_power_eq)

lemma clz_capacity_small:
  assumes "1 < unat n" and "unat n < 2 ^ 16"
  shows "\<exists>c. clz_capacity n = Some c \<and> 2 ^ 16 \<le> unat c"
proof -
  have "unat n < 2 ^ 32" using assms(2) by simp
  with assms(1) obtain k where k: "clz_capacity n = Some (2 ^ (31 - k))" "0 < k" "2 ^ k \<le> unat n"
    by (rule clz_capacity_ex)
  have "k < 16"
    by (rule pow2_lessD [OF k(3) assms(2)])
  then have "(2::nat) ^ 16 \<le> 2 ^ (31 - k)" by (intro power_increasing) auto
  moreover have "unat (2 ^ (31 - k) :: u64) = 2 ^ (31 - k)" by (simp add: unat_two_power)
  ultimately show ?thesis using k(1) by auto
qed

lemma clz_capacity_large:
  assumes "2 ^ 16 \<le> unat n" and "unat n < 2 ^ 32"
  shows "\<exists>c. clz_capacity n = Some c \<and> unat c \<le> 2 ^ 15"
proof -
  have "1 < unat n" using assms(1) by simp
  then obtain k where k: "clz_capacity n = Some (2 ^ (31 - k))" "unat n < 2 ^ Suc k" "k < 32"
    using assms(2) by (rule clz_capacity_ex)
  have "16 < Suc k"
    by (rule pow2_lessD [OF assms(1) k(2)])
  then have "(2::nat) ^ (31 - k) \<le> 2 ^ 15" by (intro power_increasing) auto
  moreover have "unat (2 ^ (31 - k) :: u64) = 2 ^ (31 - k)" by (simp add: unat_two_power)
  ultimately show ?thesis using k(1) by auto
qed

section \<open>Appending\<close>

lemma strncat_contents:
  assumes "NUL \<in> set dst" and "n \<le> length src \<or> NUL \<in> set src"
    and "length (upto_nul dst) + length (upto_nul (take n src)) < length dst"
  shows "\<exists>r. strncat dst src n = Some r \<and> length r = length dst
     \<and> upto_nul r = upto_nul dst @ upto_nul (take n src)"
proof -
  let ?p = "length (upto_nul dst)" and ?s = "upto_nul (take n src)"
  have "strncat dst src n =
      Some (take ?p dst @ ?s @ [NUL] @ drop (Suc (?p + length ?s)) dst)"
    using assms by (simp add: strncat_def strlen_def cstr_def)
  then show ?thesis using assms(3) by (simp add: upto_nul_take_eq)
qed

lemma strncat_out_of_bounds:
  assumes "NUL \<notin> set (take n src)" and "n \<le> length src" and "length dst \<le> length (upto_nul dst) + n"
  shows "strncat dst src n = None"
  using assms by (auto simp: strncat_def strlen_def cstr_def)

lemma upto_nul_length_take: "length (upto_nul (take n xs)) \<le> n"
  using upto_nul_length_le [of "take n xs"] by simp

lemma string_wf_nul: "string_wf s \<Longrightarrow> NUL \<in> set (str_buf s)"
proof (rule ccontr)
  assume wf: "string_wf s" and "NUL \<notin> set (str_buf s)"
  then have "contents s = str_buf s" by (simp add: contents_def)
  with wf show False by (auto simp: string_wf_def word_less_nat_alt)
qed

lemma string_wf_len: "string_wf s \<Longrightarrow> unat (str_len s) < unat (str_capacity s)"
  by (simp add: string_wf_def word_less_nat_alt)

lemma realloc_buf_length [simp]: "length (realloc_buf fill b n) = n"
  by (simp add: realloc_buf_def)

lemma realloc_buf_grow:
  "length b \<le> n \<Longrightarrow> NUL \<in> set b \<Longrightarrow>
     NUL \<in> set (realloc_buf fill b n) \<and> upto_nul (realloc_buf fill b n) = upto_nul b"
proof -
  assume "length b \<le> n" and "NUL \<in> set b"
  then have "realloc_buf fill b n = b @ map fill [length b..<n]"
    by (simp add: realloc_buf_def)
  moreover obtain ys where "b = upto_nul b @ NUL # ys"
    using upto_nul_decomp \<open>NUL \<in> set b\<close> by blast
  moreover have "upto_nul (upto_nul b @ NUL # ys @ zs) = upto_nul b" for zs
    by simp
  ultimately show ?thesis
    using \<open>NUL \<in> set b\<close> by (metis append.assoc append_Cons UnCI set_append)
qed

text \<open>
  What the size test and the reallocation leave behind: a block with the same C string and
  room for the total and its terminator.
\<close>

lemma append_total:
  assumes "string_wf s" and "append_fits s (unat n)"
  shows "unat (str_len s + n) = unat (str_len s) + unat n"
proof -
  have "unat (str_len s) + unat n < 2 ^ 64"
    using assms(2) unat_less_size_t [of "str_capacity s"]
    by (simp add: append_fits_def max_def split: if_splits)
  then show ?thesis using unat_add_lem [of "str_len s" n] by simp
qed

lemma append_grow:
  assumes "string_wf s" and "append_fits s (unat n)" and "str_capacity s \<le> str_len s + n"
  shows "\<exists>c. clz_capacity (str_len s + n) = Some c \<and> 2 ^ 16 \<le> unat c
     \<and> unat (str_len s) + unat n < 2 ^ 16 \<and> length (str_buf s) < 2 ^ 16"
proof -
  have tot: "unat (str_capacity s) \<le> unat (str_len s) + unat n"
    using assms by (simp add: word_le_nat_alt append_total)
  with assms(2) have lim: "unat (str_len s) + unat n < 2 ^ 16"
    by (simp add: append_fits_def)
  have "64 \<le> unat (str_capacity s)"
    using assms(1) by (simp add: string_wf_def word_le_nat_alt)
  with tot lim have "1 < unat (str_len s + n)" "unat (str_len s + n) < 2 ^ 16"
    using append_total [OF assms(1,2)] by simp_all
  from clz_capacity_small [OF this] show ?thesis
    using lim tot assms(1) by (auto simp: string_wf_def)
qed

text \<open>The state after a successful call, for any source whose reads are in bounds.\<close>

definition appended :: "string_t \<Rightarrow> cbuf \<Rightarrow> u64 \<Rightarrow> string_t \<Rightarrow> bool" where
  "appended s b n s' \<longleftrightarrow> string_wf s' \<and> contents s' = contents s @ upto_nul (take (unat n) b)
     \<and> unat (str_len s') = unat (str_len s) + unat n
     \<and> unat (str_capacity s) \<le> unat (str_capacity s')"

lemma append_write:
  assumes wf: "string_wf s" and fits: "append_fits s (unat n)"
    and src: "unat n \<le> length b \<or> NUL \<in> set b"
    and t: "NUL \<in> set (str_buf t)" "upto_nul (str_buf t) = contents s" "str_len t = str_len s"
      "unat (str_capacity t) = length (str_buf t)" "unat (str_capacity s) \<le> unat (str_capacity t)"
      "unat (str_len s) + unat n < length (str_buf t)"
  shows "\<exists>nb. strncat (str_buf t) b (unat n) = Some nb
     \<and> appended s b n (t\<lparr>str_buf := nb, str_len := str_len t + n\<rparr>)"
proof -
  have tot: "unat (str_len s + n) = unat (str_len s) + unat n"
    by (rule append_total [OF wf fits])
  have add: "length (upto_nul (take (unat n) b)) \<le> unat n"
    by (rule upto_nul_length_take)
  have con: "length (contents s) \<le> unat (str_len s)" and cap: "64 \<le> unat (str_capacity s)"
    using wf by (simp_all add: string_wf_def word_le_nat_alt)
  have "length (upto_nul (str_buf t)) + length (upto_nul (take (unat n) b)) < length (str_buf t)"
    using t(6) add con by (simp add: t(2))
  from strncat_contents [OF t(1) src this] obtain r where r:
    "strncat (str_buf t) b (unat n) = Some r" "length r = length (str_buf t)"
    "upto_nul r = contents s @ upto_nul (take (unat n) b)"
    using t(2) by auto
  then show ?thesis
    using t add con cap
    by (auto simp: appended_def string_wf_def contents_def word_less_nat_alt word_le_nat_alt tot)
qed

lemma string_append_wf:
  assumes wf: "string_wf s" and fits: "append_fits s (unat n)"
    and src: "unat n \<le> length b \<or> NUL \<in> set b"
  shows "(\<exists>s'. string_append alloc fill (Some s) b n = Some (True, Some s') \<and> appended s b n s')
     \<or> string_append alloc fill (Some s) b n = Some (False, Some s) \<and> \<not> (\<forall>c. alloc c)"
proof (cases "str_capacity s \<le> str_len s + n")
  case False
  with append_total [OF wf fits] wf have "unat (str_len s) + unat n < length (str_buf s)"
    by (simp add: word_le_nat_alt string_wf_def)
  with wf string_wf_nul [OF wf] have "\<exists>nb. strncat (str_buf s) b (unat n) = Some nb
      \<and> appended s b n (s\<lparr>str_buf := nb, str_len := str_len s + n\<rparr>)"
    using append_write [OF wf fits src, of s] by (simp add: string_wf_def contents_def)
  with False show ?thesis by (auto simp: string_append_def)
next
  case True
  then obtain c where c: "clz_capacity (str_len s + n) = Some c" "2 ^ 16 \<le> unat c"
    "unat (str_len s) + unat n < 2 ^ 16" "length (str_buf s) < 2 ^ 16"
    using append_grow [OF wf fits] by auto
  let ?t = "s\<lparr>str_buf := realloc_buf fill (str_buf s) (unat c), str_capacity := c\<rparr>"
  have "NUL \<in> set (str_buf ?t) \<and> upto_nul (str_buf ?t) = contents s"
    using realloc_buf_grow [of "str_buf s" "unat c" fill] c string_wf_nul [OF wf]
    by (simp add: contents_def)
  moreover have "unat (str_capacity s) \<le> unat c" using c(2,4) wf by (simp add: string_wf_def)
  ultimately have "\<exists>nb. strncat (str_buf ?t) b (unat n) = Some nb
      \<and> appended s b n (?t\<lparr>str_buf := nb, str_len := str_len ?t + n\<rparr>)"
    using append_write [OF wf fits src, of ?t] c(2,3) by simp
  with True c(1) show ?thesis by (cases "alloc c") (auto simp: string_append_def)
qed

text \<open>The state after appending \<open>t\<close> to a string that had room for it.\<close>

definition extended :: "string_t \<Rightarrow> string \<Rightarrow> string_t \<Rightarrow> bool" where
  "extended s t s' \<longleftrightarrow> string_exact s' \<and> contents s' = contents s @ t
     \<and> str_capacity s' = str_capacity s"

lemma string_append_room:
  assumes ex: "string_exact s" and room: "length (contents s) + length t < unat (str_capacity s)"
    and t: "take (length t) b = t" "NUL \<notin> set t"
  shows "\<exists>s'. string_append alloc fill (Some s) b (of_nat (length t)) = Some (True, Some s')
     \<and> extended s t s'"
proof -
  let ?n = "of_nat (length t) :: u64"
  have wf: "string_wf s" and len: "length (contents s) = unat (str_len s)"
    using ex by (simp_all add: string_exact_def)
  have "length t < 2 ^ 64" using room unat_less_size_t [of "str_capacity s"] by linarith
  then have n: "unat ?n = length t" by (simp add: unat_of_nat)
  have fits: "append_fits s (unat ?n)" using room len n by (simp add: append_fits_def)
  have src: "unat ?n \<le> length b" using arg_cong [OF t(1), of length] n by simp
  have tot: "unat (str_len s + ?n) = unat (str_len s) + unat ?n"
    by (rule append_total [OF wf fits])
  have nb: "\<exists>nb. strncat (str_buf s) b (unat ?n) = Some nb
      \<and> appended s b ?n (s\<lparr>str_buf := nb, str_len := str_len s + ?n\<rparr>)"
    using append_write [OF wf fits, of b s] src wf string_wf_nul [OF wf] room len n
    by (simp add: string_wf_def contents_def)
  moreover have "\<not> str_capacity s \<le> str_len s + ?n"
    using room len n tot by (simp add: word_le_nat_alt)
  ultimately show ?thesis
    using len n t by (auto simp: string_append_def extended_def appended_def string_exact_def)
qed

lemma extended_trans: "extended a s b \<Longrightarrow> extended b t c \<Longrightarrow> extended a (s @ t) c"
  by (simp add: extended_def)

section \<open>Creation, reset and release\<close>

lemma string_exact_zero:
  assumes "64 \<le> c"
  shows "string_exact \<lparr>str_capacity = c, str_len = 0, str_buf = replicate (unat c) NUL\<rparr>"
    and "contents \<lparr>str_capacity = c, str_len = 0, str_buf = replicate (unat c) NUL\<rparr> = []"
proof -
  have "upto_nul (replicate m NUL) = []" for m
    by (cases m) auto
  moreover have "0 < c" using assms by (auto simp: word_less_nat_alt word_le_nat_alt)
  ultimately show "string_exact \<lparr>str_capacity = c, str_len = 0, str_buf = replicate (unat c) NUL\<rparr>"
    and "contents \<lparr>str_capacity = c, str_len = 0, str_buf = replicate (unat c) NUL\<rparr> = []"
    using assms by (simp_all add: string_exact_def string_wf_def contents_def)
qed

lemma string_init_ok:
  assumes "\<forall>c. alloc c" and "2 ^ k \<le> unat n" and "unat n < 2 ^ Suc k" and "0 < k" and "k < 26"
  shows "string_init alloc n = Some (Some \<lparr>str_capacity = 2 ^ (31 - k), str_len = 0,
     str_buf = replicate (2 ^ (31 - k)) NUL\<rparr>)"
proof -
  have c: "clz_capacity n = Some (2 ^ (31 - k))"
    using assms by (intro clz_capacity_eq) auto
  have u: "unat (2 ^ (31 - k) :: u64) = 2 ^ (31 - k)" by (simp add: unat_two_power)
  have "(2::nat) ^ 6 \<le> 2 ^ (31 - k)" using assms(5) by (intro power_increasing) auto
  with u have "max (2 ^ (31 - k)) 64 = (2 ^ (31 - k) :: u64)"
    by (intro max.absorb1) (simp add: word_le_nat_alt)
  with assms(1) c u show ?thesis by (simp add: string_init_def)
qed

lemma string_init_sound:
  assumes "string_init alloc n = Some (Some s)"
  shows "string_exact s" and "contents s = []" and "str_len s = 0"
    and "str_buf s = replicate (unat (str_capacity s)) NUL"
proof -
  obtain c where s: "s = \<lparr>str_capacity = c, str_len = 0, str_buf = replicate (unat c) NUL\<rparr>"
    and "64 \<le> c"
    using assms by (auto simp: string_init_def Let_def bind_Some_iff split: if_splits)
  then show "string_exact s" and "contents s = []" and "str_len s = 0"
    and "str_buf s = replicate (unat (str_capacity s)) NUL"
    using string_exact_zero by auto
qed

lemma string_reset_ok:
  assumes "string_wf s"
  shows "string_reset (Some s) = Some (Some \<lparr>str_capacity = str_capacity s, str_len = 0,
     str_buf = replicate (unat (str_capacity s)) NUL\<rparr>)"
  using assms by (cases s) (simp add: string_reset_def string_wf_def)

section \<open>Properties\<close>

text \<open>
  C20. Appending text without NUL to a well-formed string, when the total fits the block or
  is below \<open>2 ^ 16\<close>, is defined; it either appends exactly the given characters, keeps the
  invariant (with \<open>len\<close> the length of the C string) and never shrinks the block, or, only
  if the allocator refused to grow the block, returns false and leaves the string as it was.
\<close>

theorem string_append_exact:
  assumes ex: "string_exact s" and fits: "append_fits s (unat n)" and src: "unat n \<le> length b"
    and nonul: "NUL \<notin> set (take (unat n) b)"
  shows "(\<exists>s'. string_append alloc fill (Some s) b n = Some (True, Some s') \<and> string_exact s'
          \<and> contents s' = contents s @ take (unat n) b
          \<and> unat (str_capacity s) \<le> unat (str_capacity s'))
     \<or> string_append alloc fill (Some s) b n = Some (False, Some s) \<and> \<not> (\<forall>c. alloc c)"
proof -
  have "string_exact s' \<and> contents s' = contents s @ take (unat n) b
      \<and> unat (str_capacity s) \<le> unat (str_capacity s')" if "appended s b n s'" for s'
    using that ex src nonul by (simp add: appended_def string_exact_def)
  with string_append_wf [of s n b alloc fill] ex fits src show ?thesis
    unfolding string_exact_def by blast
qed

theorem string_append_exact_witness:
  "\<exists>s'. string_append (\<lambda>_. True) (\<lambda>_. NUL) (Some (empty_string 64)) ''abc'' 3 = Some (True, Some s')
     \<and> contents s' = ''abc''"
proof -
  have "string_exact (empty_string 64)" "contents (empty_string 64) = []"
    using string_exact_zero [of 64] by (simp_all add: empty_string_def)
  with string_append_exact [of "empty_string 64" 3 "''abc''" "\<lambda>_. True" "\<lambda>_. NUL"] show ?thesis
    by (auto simp: append_fits_def empty_string_def)
qed

text \<open>
  C27. When the total reaches both the capacity and \<open>2 ^ 16\<close> (and is below \<open>2 ^ 32\<close>), the
  block is "grown" to at most \<open>2 ^ 15\<close> bytes: the size computed from the number of leading
  zeros falls as the request rises. The append then runs past the end of the block, for
  every allocator that grants it.
\<close>

theorem string_append_overflow:
  assumes wf: "string_exact s" and cap: "unat (str_capacity s) \<le> unat (str_len s) + unat n"
    and big: "2 ^ 16 \<le> unat (str_len s) + unat n" "unat (str_len s) + unat n < 2 ^ 32"
    and src: "unat n \<le> length b" "NUL \<notin> set (take (unat n) b)" and alloc: "\<forall>c. alloc c"
  shows "string_append alloc fill (Some s) b n = None"
proof -
  have tot: "unat (str_len s + n) = unat (str_len s) + unat n"
    using big(2) unat_add_lem [of "str_len s" n] by simp
  then obtain c where c: "clz_capacity (str_len s + n) = Some c" "unat c \<le> 2 ^ 15"
    using clz_capacity_large [of "str_len s + n"] big by auto
  let ?b = "realloc_buf fill (str_buf s) (unat c)"
  have shrink: "?b = take (unat c) (str_buf s)" if "unat c \<le> length (str_buf s)"
    using that by (simp add: realloc_buf_def)
  have keep: "upto_nul ?b = contents s" if "length (str_buf s) < unat c"
    using realloc_buf_grow [of "str_buf s" "unat c" fill] that wf
    by (simp add: contents_def string_exact_def string_wf_nul)
  have len: "length (contents s) = unat (str_len s)" using wf by (simp add: string_exact_def)
  have "length ?b \<le> length (upto_nul ?b) + unat n"
  proof (cases "length (str_buf s) < unat c")
    case True
    then show ?thesis using keep c(2) big(1) len by simp
  next
    case False
    have "unat c \<le> length (upto_nul (take (unat c) (str_buf s))) + unat n"
    proof (cases "NUL \<in> set (take (unat c) (str_buf s))")
      case True
      then have "upto_nul (take (unat c) (str_buf s)) = contents s"
        by (simp add: contents_def upto_nul_take)
      then show ?thesis using c(2) big(1) len by simp
    next
      case nonul: False
      then show ?thesis using False by simp
    qed
    with False shrink show ?thesis by simp
  qed
  with src have none: "strncat ?b b (unat n) = None" by (intro strncat_out_of_bounds)
  have "str_capacity s \<le> str_len s + n" using cap by (simp add: word_le_nat_alt tot)
  with none show ?thesis by (simp add: string_append_def c(1) alloc)
qed

theorem string_append_overflow_witness:
  "string_append (\<lambda>_. True) (\<lambda>_. NUL) (Some (empty_string 64)) (replicate 65536 CHR ''a'') 65536 = None"
proof (rule string_append_overflow)
  show "string_exact (empty_string 64)"
    using string_exact_zero(1) [of 64] by (simp add: empty_string_def)
qed (simp_all add: empty_string_def)

text \<open>
  \<open>string_init\<close> of a request between \<open>2\<close> and \<open>2 ^ 26\<close> bytes, with memory available,
  returns an empty well-formed zeroed string whose capacity is the power of two
  \<open>2 ^ (31 - k)\<close> for a request with highest bit \<open>k\<close>: a request of 1024 bytes allocates two
  megabytes, and the capacity covers the request exactly when the request is below \<open>2 ^ 16\<close>.
\<close>

theorem string_init_capacity:
  assumes "\<forall>c. alloc c" and "2 ^ k \<le> unat n" and "unat n < 2 ^ Suc k" and "0 < k" and "k < 26"
  shows "\<exists>s. string_init alloc n = Some (Some s) \<and> string_exact s \<and> contents s = []
     \<and> unat (str_capacity s) = 2 ^ (31 - k) \<and> (unat n \<le> unat (str_capacity s) \<longleftrightarrow> k < 16)"
proof -
  let ?s = "\<lparr>str_capacity = 2 ^ (31 - k), str_len = 0, str_buf = replicate (2 ^ (31 - k)) NUL\<rparr>"
  have init: "string_init alloc n = Some (Some ?s)" by (rule string_init_ok [OF assms])
  have cap: "unat (2 ^ (31 - k) :: u64) = 2 ^ (31 - k)" by (simp add: unat_two_power)
  have "unat n \<le> 2 ^ (31 - k) \<longleftrightarrow> k < 16"
  proof
    assume "unat n \<le> 2 ^ (31 - k)"
    with assms(2) have "(2::nat) ^ k \<le> 2 ^ (31 - k)" by (rule order_trans)
    then show "k < 16" using assms(5) by simp
  next
    assume "k < 16"
    then have "(2::nat) ^ Suc k \<le> 2 ^ (31 - k)" by (intro power_increasing) auto
    with assms(3) show "unat n \<le> 2 ^ (31 - k)" by linarith
  qed
  with init string_init_sound(1,2) [OF init] cap show ?thesis by auto
qed

theorem string_init_capacity_witness:
  "\<exists>s. string_init (\<lambda>_. True) 1024 = Some (Some s) \<and> unat (str_capacity s) = 2 ^ 21"
  using string_init_capacity [of "\<lambda>_. True" 10 1024] by auto

text \<open>
  \<open>string_reset\<close> on a well-formed string zeroes the whole block, empties the string and
  keeps the capacity and the invariant.
\<close>

theorem string_reset_clears:
  assumes "string_wf s"
  shows "\<exists>s'. string_reset (Some s) = Some (Some s') \<and> string_exact s' \<and> contents s' = []
     \<and> str_capacity s' = str_capacity s \<and> set (str_buf s') \<subseteq> {NUL}"
proof -
  have "64 \<le> str_capacity s" using assms by (simp add: string_wf_def)
  then show ?thesis
    using string_reset_ok [OF assms] string_exact_zero [of "str_capacity s"] by auto
qed

theorem string_reset_clears_witness:
  "\<exists>s'. string_reset (Some (empty_string 64)) = Some (Some s') \<and> contents s' = []"
  using string_reset_clears [of "empty_string 64"] string_exact_zero(1) [of 64]
  by (auto simp: empty_string_def string_exact_def)

end
