(* ===== verification/Kv.thy ===== *)
theory Kv
  imports C_Strings
begin

text \<open>
  The key-value table of \<open>lib/kv.c\<close> and \<open>include/kv.h\<close>: an array of pointer pairs, either
  provided by the caller (\<open>KV_INIT_WITH_BUF\<close>, of a fixed size) or owned and doubled with
  \<open>realloc\<close>. \<open>kv_wf\<close> is the invariant, \<open>kv_entries\<close> the list of stored pairs, oldest
  first. The locale \<open>bounded_table\<close> states what a client of a fixed-size table relies on
  (what is stored after any number of insertions); it is interpreted on
  \<open>kv_set_key_value\<close> for provided tables, which is how the request parser uses it.
\<close>

section \<open>Model\<close>

record kv_pair =
  kp_key :: "cptr option"
  kp_value :: "cptr option"

record kv =
  kv_size :: int
  kv_flag :: int
  kv_capacity :: int
  kv_pairs :: "kv_pair list"

definition DEFAULT_KV_SZ :: int where "DEFAULT_KV_SZ = 20"
definition KV_FLAG_PROVIDED :: int where "KV_FLAG_PROVIDED = 0"
definition KV_FLAG_MALLOC :: int where "KV_FLAG_MALLOC = push_bit 1 1"

definition sizeof_kv :: u64 where "sizeof_kv = 24"
definition sizeof_kv_pair :: u64 where "sizeof_kv_pair = 16"

definition KV_INIT_WITH_BUF :: "kv_pair list \<Rightarrow> int \<Rightarrow> kv" where
  "KV_INIT_WITH_BUF buf len =
     \<lparr>kv_size = 0, kv_flag = KV_FLAG_PROVIDED, kv_capacity = len, kv_pairs = buf\<rparr>"

definition kv_init :: "(u64 \<Rightarrow> bool) \<Rightarrow> (nat \<Rightarrow> kv_pair) \<Rightarrow> kv option" where
  "kv_init alloc fill =
     (if \<not> alloc sizeof_kv then None
      else if \<not> alloc (sizeof_kv_pair * word_of_int DEFAULT_KV_SZ) then None
      else Some \<lparr>kv_size = 0, kv_flag = KV_FLAG_MALLOC, kv_capacity = DEFAULT_KV_SZ,
                 kv_pairs = map fill [0..<nat DEFAULT_KV_SZ]\<rparr>)"

text \<open>\<open>realloc\<close> of the pair array to a number of bytes.\<close>

definition realloc_pairs :: "(nat \<Rightarrow> kv_pair) \<Rightarrow> kv_pair list \<Rightarrow> u64 \<Rightarrow> kv_pair list" where
  "realloc_pairs fill ps bytes =
     (let n = unat bytes div unat sizeof_kv_pair in take n ps @ map fill [length ps..<n])"

text \<open>The assignment \<open>pairs[size++] = (struct kv_pair){key, value}\<close>.\<close>

definition kv_store :: "kv \<Rightarrow> cptr option \<Rightarrow> cptr option \<Rightarrow> kv option" where
  "kv_store m key v =
     (if 0 \<le> kv_size m \<and> nat (kv_size m) < length (kv_pairs m)
      then Some (m\<lparr>kv_pairs := (kv_pairs m)[nat (kv_size m) := \<lparr>kp_key = key, kp_value = v\<rparr>],
                   kv_size := to_int (kv_size m + 1)\<rparr>)
      else None)"

definition kv_set_key_value ::
  "(u64 \<Rightarrow> bool) \<Rightarrow> (nat \<Rightarrow> kv_pair) \<Rightarrow> kv option \<Rightarrow> cptr option \<Rightarrow> cptr option
     \<Rightarrow> (bool \<times> kv option) option"
where
  "kv_set_key_value alloc fill kvmap key v =
     (case kvmap of
        None \<Rightarrow> Some (False, None)
      | Some m \<Rightarrow>
          if kv_size m = kv_capacity m
          then if kv_flag m AND KV_FLAG_MALLOC \<noteq> 0
               then let bytes = sizeof_kv_pair * word_of_int (kv_capacity m) * 2
                    in if \<not> alloc bytes then Some (False, Some m)
                       else do {
                         m' \<leftarrow> kv_store (m\<lparr>kv_pairs := realloc_pairs fill (kv_pairs m) bytes,
                                           kv_capacity := to_int (kv_capacity m * 2)\<rparr>) key v;
                         Some (True, Some m')
                       }
               else Some (False, Some m)
          else do { m' \<leftarrow> kv_store m key v; Some (True, Some m') })"

text \<open>The loop \<open>FOREACH_KV\<close> of \<open>kv_find_value\<close>, from index \<open>i\<close>.\<close>

function kv_find_from :: "cbuf \<Rightarrow> kv \<Rightarrow> string \<Rightarrow> nat \<Rightarrow> cptr option option" where
  "kv_find_from mem m key i =
     (if kv_size m \<le> int i then Some None
      else if length (kv_pairs m) \<le> i then None
      else case kp_key (kv_pairs m ! i) of
             None \<Rightarrow> None
           | Some k \<Rightarrow>
               (case deref mem k of
                  None \<Rightarrow> None
                | Some s \<Rightarrow> if s = key then Some (kp_value (kv_pairs m ! i))
                            else kv_find_from mem m key (Suc i)))"
  by pat_completeness auto
termination
  by (relation "measure (\<lambda>(mem, m, key, i). nat (kv_size m) - i)") auto

declare kv_find_from.simps [simp del]

definition kv_find_value :: "cbuf \<Rightarrow> kv option \<Rightarrow> string \<Rightarrow> cptr option option" where
  "kv_find_value mem kvmap key =
     (case kvmap of None \<Rightarrow> Some None | Some m \<Rightarrow> kv_find_from mem m key 0)"

text \<open>The heap objects of an owned table, and those \<open>kv_free\<close> gives back.\<close>

datatype kv_object = Kv_pairs_block | Kv_struct

definition kv_free :: "kv option \<Rightarrow> kv_object list" where
  "kv_free kvmap =
     (case kvmap of
        None \<Rightarrow> []
      | Some m \<Rightarrow> if kv_flag m AND KV_FLAG_MALLOC \<noteq> 0 then [Kv_pairs_block, Kv_struct] else [])"

definition null_pair :: kv_pair where
  "null_pair = \<lparr>kp_key = None, kp_value = None\<rparr>"

definition kv_reset :: "kv option \<Rightarrow> kv option option" where
  "kv_reset kvmap =
     (case kvmap of
        None \<Rightarrow> Some None
      | Some m \<Rightarrow>
          if 0 \<le> kv_size m \<and> nat (kv_size m) \<le> length (kv_pairs m)
          then Some (Some (m\<lparr>kv_pairs := replicate (nat (kv_size m)) null_pair
                                         @ drop (nat (kv_size m)) (kv_pairs m),
                             kv_size := 0\<rparr>))
          else None)"

section \<open>Invariant and abstraction\<close>

definition kv_wf :: "kv \<Rightarrow> bool" where
  "kv_wf m \<longleftrightarrow> 0 \<le> kv_size m \<and> kv_size m \<le> kv_capacity m
     \<and> kv_capacity m = int (length (kv_pairs m)) \<and> kv_capacity m < 2 ^ 30
     \<and> (kv_flag m = KV_FLAG_PROVIDED \<or> kv_flag m = KV_FLAG_MALLOC \<and> 0 < kv_capacity m)"

definition kv_entries :: "kv \<Rightarrow> (cptr option \<times> cptr option) list" where
  "kv_entries m = map (\<lambda>p. (kp_key p, kp_value p)) (take (nat (kv_size m)) (kv_pairs m))"

definition kv_room :: "kv \<Rightarrow> nat" where
  "kv_room m = nat (kv_capacity m) - nat (kv_size m)"

text \<open>A table over a zeroed buffer of \<open>n\<close> pairs.\<close>

definition empty_kv :: "int \<Rightarrow> kv" where
  "empty_kv n = KV_INIT_WITH_BUF (replicate (nat n) null_pair) n"

text \<open>The first entry whose key is the given string.\<close>

fun first_match :: "cbuf \<Rightarrow> (cptr option \<times> cptr option) list \<Rightarrow> string \<Rightarrow> cptr option" where
  "first_match mem [] key = None"
| "first_match mem ((k, v) # es) key =
     (if (case k of None \<Rightarrow> False | Some p \<Rightarrow> deref mem p = Some key) then v
      else first_match mem es key)"

section \<open>Insertion\<close>

lemma flag_values [kv_simps]:
  "KV_FLAG_PROVIDED AND KV_FLAG_MALLOC = 0" "KV_FLAG_MALLOC \<noteq> 0"
  "KV_FLAG_MALLOC \<noteq> KV_FLAG_PROVIDED"
  by (simp_all add: KV_FLAG_PROVIDED_def KV_FLAG_MALLOC_def)

lemma take_Suc_update:
  "n < length xs \<Longrightarrow> take (Suc n) (xs[n := x]) = take n xs @ [x]"
  by (simp add: take_Suc_conv_app_nth)

lemma kv_store_ok:
  assumes "0 \<le> kv_size m" and "nat (kv_size m) < length (kv_pairs m)" and "kv_size m < 2 ^ 30"
  shows "\<exists>m'. kv_store m k v = Some m' \<and> kv_size m' = kv_size m + 1
     \<and> kv_entries m' = kv_entries m @ [(k, v)] \<and> length (kv_pairs m') = length (kv_pairs m)
     \<and> kv_capacity m' = kv_capacity m \<and> kv_flag m' = kv_flag m"
proof -
  have "to_int (kv_size m + 1) = kv_size m + 1"
    using assms by (intro to_int_id) auto
  with assms show ?thesis
    by (simp add: kv_store_def kv_entries_def nat_add_distrib take_Suc_update)
qed

lemma kv_set_room:
  assumes wf: "kv_wf m" and room: "kv_size m \<noteq> kv_capacity m"
  shows "\<exists>m'. kv_set_key_value alloc fill (Some m) k v = Some (True, Some m') \<and> kv_wf m'
     \<and> kv_entries m' = kv_entries m @ [(k, v)] \<and> kv_flag m' = kv_flag m
     \<and> kv_capacity m' = kv_capacity m \<and> kv_size m' = kv_size m + 1"
proof -
  have "nat (kv_size m) < length (kv_pairs m)" and "0 \<le> kv_size m" and "kv_size m < 2 ^ 30"
    using wf room by (auto simp: kv_wf_def)
  then obtain m' where "kv_store m k v = Some m'" "kv_size m' = kv_size m + 1"
    "kv_entries m' = kv_entries m @ [(k, v)]" "length (kv_pairs m') = length (kv_pairs m)"
    "kv_capacity m' = kv_capacity m" "kv_flag m' = kv_flag m"
    using kv_store_ok by blast
  with wf room show ?thesis by (auto simp: kv_set_key_value_def kv_wf_def)
qed

lemma kv_set_full:
  assumes "kv_flag m = KV_FLAG_PROVIDED" and "kv_size m = kv_capacity m"
  shows "kv_set_key_value alloc fill (Some m) k v = Some (False, Some m)"
  using assms by (simp add: kv_set_key_value_def kv_simps)

lemma realloc_pairs_double:
  assumes "kv_capacity m = int (length (kv_pairs m))" and "kv_capacity m < 2 ^ 30"
  shows "\<exists>zs. realloc_pairs fill (kv_pairs m) (sizeof_kv_pair * word_of_int (kv_capacity m) * 2)
      = kv_pairs m @ zs \<and> length zs = length (kv_pairs m)"
proof -
  let ?n = "length (kv_pairs m)"
  have n: "?n < 2 ^ 30" using assms by simp
  have "(sizeof_kv_pair * word_of_int (kv_capacity m) * 2 :: u64) = of_nat (32 * ?n)"
    using assms(1) by (simp add: sizeof_kv_pair_def)
  moreover have "unat (of_nat (32 * ?n) :: u64) = 32 * ?n"
    using n by (simp only: unat_of_nat) simp
  ultimately have "unat (sizeof_kv_pair * word_of_int (kv_capacity m) * 2) div unat sizeof_kv_pair
      = 2 * ?n"
    by (simp add: sizeof_kv_pair_def)
  then show ?thesis by (simp add: realloc_pairs_def)
qed

lemma kv_set_grow:
  assumes wf: "kv_wf m" and full: "kv_size m = kv_capacity m" and own: "kv_flag m = KV_FLAG_MALLOC"
    and small: "kv_capacity m < 2 ^ 29"
    and ok: "alloc (sizeof_kv_pair * word_of_int (kv_capacity m) * 2)"
  shows "\<exists>m'. kv_set_key_value alloc fill (Some m) k v = Some (True, Some m') \<and> kv_wf m'
     \<and> kv_entries m' = kv_entries m @ [(k, v)] \<and> kv_flag m' = kv_flag m
     \<and> kv_capacity m' = 2 * kv_capacity m \<and> kv_size m' = kv_size m + 1"
proof -
  let ?b = "sizeof_kv_pair * word_of_int (kv_capacity m) * 2"
  let ?m = "m\<lparr>kv_pairs := realloc_pairs fill (kv_pairs m) ?b,
              kv_capacity := to_int (kv_capacity m * 2)\<rparr>"
  have cap: "kv_capacity m = int (length (kv_pairs m))" "0 < kv_capacity m"
    using wf own by (auto simp: kv_wf_def kv_simps)
  obtain zs where zs: "realloc_pairs fill (kv_pairs m) ?b = kv_pairs m @ zs"
    "length zs = length (kv_pairs m)"
    using realloc_pairs_double cap small by fastforce
  have two: "to_int (kv_capacity m * 2) = 2 * kv_capacity m"
    using small cap by (simp add: to_int_id)
  have "kv_entries ?m = kv_entries m" using zs full cap by (simp add: kv_entries_def)
  moreover have "0 \<le> kv_size ?m" "nat (kv_size ?m) < length (kv_pairs ?m)" "kv_size ?m < 2 ^ 30"
    using zs full cap small by auto
  ultimately obtain m' where "kv_store ?m k v = Some m'" "kv_size m' = kv_size m + 1"
    "kv_entries m' = kv_entries m @ [(k, v)]" "length (kv_pairs m') = 2 * length (kv_pairs m)"
    "kv_capacity m' = 2 * kv_capacity m" "kv_flag m' = kv_flag m"
    using kv_store_ok [of ?m k v] zs two by auto
  with wf full own ok small cap show ?thesis
    by (auto simp: kv_set_key_value_def kv_wf_def kv_simps Suc_le_eq)
qed

section \<open>Lookup\<close>

lemma kv_entries_nth:
  "i < nat (kv_size m) \<Longrightarrow> i < length (kv_pairs m) \<Longrightarrow>
     kv_entries m ! i = (kp_key (kv_pairs m ! i), kp_value (kv_pairs m ! i))"
  by (simp add: kv_entries_def)

lemma kv_entries_length: "kv_wf m \<Longrightarrow> length (kv_entries m) = nat (kv_size m)"
  by (auto simp: kv_entries_def kv_wf_def)

definition keys_readable :: "cbuf \<Rightarrow> kv \<Rightarrow> bool" where
  "keys_readable mem m \<longleftrightarrow> (\<forall>e \<in> set (kv_entries m). \<exists>p s. fst e = Some p \<and> deref mem p = Some s)"

lemma kv_find_from_eq:
  assumes "kv_wf m" and "keys_readable mem m"
  shows "kv_find_from mem m key i = Some (first_match mem (drop i (kv_entries m)) key)"
  using assms
proof (induction mem m key i rule: kv_find_from.induct)
  case (1 mem m key i)
  show ?case
  proof (cases "kv_size m \<le> int i")
    case True
    with kv_entries_length [OF "1.prems"(1)] show ?thesis
      by (subst kv_find_from.simps) simp
  next
    case False
    let ?e = "kv_entries m ! i"
    have i: "i < length (kv_entries m)" "i < length (kv_pairs m)" "i < nat (kv_size m)"
      using False "1.prems"(1) by (auto simp: kv_entries_length kv_wf_def)
    have e: "?e = (kp_key (kv_pairs m ! i), kp_value (kv_pairs m ! i))"
      by (rule kv_entries_nth [OF i(3,2)])
    obtain p s where ps: "kp_key (kv_pairs m ! i) = Some p" "deref mem p = Some s"
      using "1.prems"(2) nth_mem [OF i(1)] e unfolding keys_readable_def by force
    have "drop i (kv_entries m) = ?e # drop (Suc i) (kv_entries m)"
      using i(1) by (simp add: Cons_nth_drop_Suc)
    with False i ps "1.IH" [OF False _ ps] "1.prems" show ?thesis
      by (subst kv_find_from.simps) (simp add: e)
  qed
qed

lemma first_match_append:
  "first_match mem (es @ [(k, v)]) key =
     (if \<exists>e \<in> set es. \<exists>p. fst e = Some p \<and> deref mem p = Some key
      then first_match mem es key
      else if \<exists>p. k = Some p \<and> deref mem p = Some key then v else None)"
  by (induction mem es key rule: first_match.induct) (auto split: option.splits)

section \<open>Fixed-size tables\<close>

text \<open>
  What a client of a table of fixed size relies on: an insertion appends while there is
  room and changes nothing once the table is full. After any sequence of insertions the
  table holds the entries it had and then as many of the new ones as there was room for.
\<close>

locale bounded_table =
  fixes put :: "'t \<Rightarrow> 'e \<Rightarrow> bool \<times> 't"
    and entries :: "'t \<Rightarrow> 'e list"
    and room :: "'t \<Rightarrow> nat"
    and invar :: "'t \<Rightarrow> bool"
  assumes put_room: "invar t \<Longrightarrow> 0 < room t \<Longrightarrow>
      fst (put t e) \<and> entries (snd (put t e)) = entries t @ [e] \<and> Suc (room (snd (put t e))) = room t"
    and put_full: "invar t \<Longrightarrow> room t = 0 \<Longrightarrow> put t e = (False, t)"
    and put_invar: "invar t \<Longrightarrow> invar (snd (put t e))"
begin

lemma put_entries:
  assumes "invar t"
  shows "entries (snd (put t e)) = entries t @ take (room t) [e]"
    and "room (snd (put t e)) = room t - 1"
  using put_room [OF assms, of e] put_full [OF assms, of e] by (cases "room t"; simp)+

lemma put_all:
  assumes "invar t"
  shows "invar (foldl (\<lambda>t e. snd (put t e)) t es)"
    and "entries (foldl (\<lambda>t e. snd (put t e)) t es) = entries t @ take (room t) es"
    and "room (foldl (\<lambda>t e. snd (put t e)) t es) = room t - length es"
  using assms
proof (induction es arbitrary: t)
  case (Cons e es)
  case 1
  then show ?case using Cons.IH(1) put_invar by simp
next
  case (Cons e es)
  case 2
  have "entries (foldl (\<lambda>t e. snd (put t e)) (snd (put t e)) es)
      = entries (snd (put t e)) @ take (room (snd (put t e))) es"
    using Cons.IH(2) put_invar [OF 2] by blast
  also have "\<dots> = entries t @ take (room t) (e # es)"
    using put_entries [OF 2, of e] by (cases "room t") simp_all
  finally show ?case by simp
next
  case (Cons e es)
  case 3
  then show ?case using Cons.IH(3) put_invar put_entries(2) by simp
qed simp_all

end

text \<open>
  The insertion into a provided table, as the parser calls it: the allocator is not used,
  and the result is always defined.
\<close>

definition kv_put :: "kv \<Rightarrow> cptr option \<times> cptr option \<Rightarrow> bool \<times> kv" where
  "kv_put m e =
     (case kv_set_key_value (\<lambda>_. False) (\<lambda>_. null_pair) (Some m) (fst e) (snd e) of
        Some (b, Some m') \<Rightarrow> (b, m')
      | _ \<Rightarrow> (False, m))"

definition kv_provided :: "kv \<Rightarrow> bool" where
  "kv_provided m \<longleftrightarrow> kv_wf m \<and> kv_flag m = KV_FLAG_PROVIDED"

lemma kv_set_provided:
  assumes "kv_provided m"
  shows "kv_set_key_value alloc fill (Some m) k v
     = Some (fst (kv_put m (k, v)), Some (snd (kv_put m (k, v))))"
proof (cases "kv_size m = kv_capacity m")
  case True
  with assms show ?thesis by (simp add: kv_provided_def kv_put_def kv_set_full)
next
  case False
  with assms have "\<exists>m'. kv_store m k v = Some m'"
    by (auto simp: kv_provided_def kv_wf_def kv_store_def)
  with False show ?thesis by (auto simp: kv_put_def kv_set_key_value_def)
qed

lemma kv_put_room:
  assumes "kv_provided m" and "kv_size m \<noteq> kv_capacity m"
  obtains m' where "kv_put m e = (True, m')" and "kv_provided m'"
    and "kv_entries m' = kv_entries m @ [e]" and "kv_capacity m' = kv_capacity m"
    and "kv_size m' = kv_size m + 1"
  using kv_set_room [of m "\<lambda>_. False" "\<lambda>_. null_pair" "fst e" "snd e"] assms that
  by (auto simp: kv_provided_def kv_put_def)

lemma kv_put_full: "kv_provided m \<Longrightarrow> kv_size m = kv_capacity m \<Longrightarrow> kv_put m e = (False, m)"
  by (simp add: kv_put_def kv_set_full kv_provided_def)

lemma kv_room_pos: "kv_provided m \<Longrightarrow> 0 < kv_room m \<longleftrightarrow> kv_size m \<noteq> kv_capacity m"
  by (auto simp: kv_provided_def kv_wf_def kv_room_def)

interpretation provided: bounded_table kv_put kv_entries kv_room kv_provided
proof
  fix m e
  assume m: "kv_provided m"
  show "fst (kv_put m e) \<and> kv_entries (snd (kv_put m e)) = kv_entries m @ [e]
      \<and> Suc (kv_room (snd (kv_put m e))) = kv_room m" if "0 < kv_room m"
  proof -
    have "kv_size m \<noteq> kv_capacity m" using kv_room_pos m that by blast
    with m obtain m' where m': "kv_put m e = (True, m')" "kv_entries m' = kv_entries m @ [e]"
      "kv_capacity m' = kv_capacity m" "kv_size m' = kv_size m + 1"
      by (rule kv_put_room)
    with m that show ?thesis
      by (simp add: kv_room_def kv_provided_def kv_wf_def nat_add_distrib)
  qed
  show "kv_put m e = (False, m)" if "kv_room m = 0"
    using m that kv_room_pos kv_put_full by fastforce
  show "kv_provided (snd (kv_put m e))"
    using m by (cases "kv_size m = kv_capacity m") (auto simp: kv_put_full elim: kv_put_room [of m e])
qed

section \<open>Properties\<close>

lemma empty_kv_provided: "0 \<le> n \<Longrightarrow> n < 2 ^ 30 \<Longrightarrow> kv_provided (empty_kv n)"
  by (simp add: empty_kv_def KV_INIT_WITH_BUF_def kv_provided_def kv_wf_def)

lemma empty_kv_simps: "0 \<le> n \<Longrightarrow> kv_entries (empty_kv n) = [] \<and> kv_room (empty_kv n) = nat n"
  by (simp add: empty_kv_def KV_INIT_WITH_BUF_def kv_entries_def kv_room_def)

text \<open>
  C21. One insertion into a well-formed table of fewer than \<open>2 ^ 29\<close> slots is always defined.
  It appends the pair after the stored ones and keeps the invariant if there is room, or if
  the table is owned and the allocator grants twice the space (the capacity is then
  doubled); otherwise it returns false and changes nothing.
\<close>

theorem kv_set_key_value_spec:
  assumes wf: "kv_wf m" and small: "kv_capacity m < 2 ^ 29"
  shows "if kv_size m \<noteq> kv_capacity m
           \<or> kv_flag m = KV_FLAG_MALLOC \<and> alloc (sizeof_kv_pair * word_of_int (kv_capacity m) * 2)
         then \<exists>m'. kv_set_key_value alloc fill (Some m) k v = Some (True, Some m') \<and> kv_wf m'
                \<and> kv_entries m' = kv_entries m @ [(k, v)] \<and> kv_flag m' = kv_flag m
                \<and> kv_capacity m' = (if kv_size m = kv_capacity m then 2 else 1) * kv_capacity m
         else kv_set_key_value alloc fill (Some m) k v = Some (False, Some m)"
proof (cases "kv_size m = kv_capacity m")
  case False
  with kv_set_room [OF wf False, of alloc fill k v] show ?thesis by auto
next
  case full: True
  show ?thesis
  proof (cases "kv_flag m = KV_FLAG_MALLOC")
    case True
    with full kv_set_grow [OF wf full True small, of alloc fill k v] show ?thesis
      by (auto simp: kv_set_key_value_def kv_simps)
  next
    case False
    with wf have "kv_flag m = KV_FLAG_PROVIDED" by (auto simp: kv_wf_def)
    with full False show ?thesis by (simp add: kv_set_full)
  qed
qed

theorem kv_set_key_value_spec_witness:
  "\<exists>m'. kv_set_key_value (\<lambda>_. False) (\<lambda>_. null_pair) (Some (empty_kv 2)) (Some (Lit ''a'')) (Some (Lit ''b''))
     = Some (True, Some m') \<and> kv_entries m' = [(Some (Lit ''a''), Some (Lit ''b''))]"
  using kv_set_key_value_spec [of "empty_kv 2" "\<lambda>_. False" "\<lambda>_. null_pair" "Some (Lit ''a'')" "Some (Lit ''b'')"]
    empty_kv_provided [of 2] empty_kv_simps [of 2]
  by (auto simp: kv_provided_def empty_kv_def KV_INIT_WITH_BUF_def)

text \<open>
  Lookup in a well-formed table with readable keys is defined, and after a successful
  insertion of a key it returns the value of the oldest entry with that key: the new value
  only if no stored entry has the key, since insertion never replaces.
\<close>

theorem kv_find_after_set:
  assumes wf: "kv_wf m" "kv_capacity m < 2 ^ 29" and keys: "keys_readable mem m"
    and k: "deref mem p = Some key"
    and set: "kv_set_key_value alloc fill (Some m) (Some p) v = Some (True, Some m')"
  shows "kv_find_value mem (Some m') key =
     Some (if \<exists>e \<in> set (kv_entries m). \<exists>q. fst e = Some q \<and> deref mem q = Some key
           then first_match mem (kv_entries m) key else v)"
proof -
  have m': "kv_wf m'" "kv_entries m' = kv_entries m @ [(Some p, v)]"
    using kv_set_room [OF wf(1), of alloc fill "Some p" v] kv_set_full [of m alloc fill "Some p" v]
      kv_set_grow [OF wf(1) _ _ wf(2), of alloc fill "Some p" v] set wf(1)
    by (cases "kv_size m = kv_capacity m"; cases "kv_flag m = KV_FLAG_PROVIDED";
        auto simp: kv_wf_def kv_set_key_value_def Let_def kv_simps split: if_splits)+
  then have "keys_readable mem m'" using keys k by (auto simp: keys_readable_def)
  then have "kv_find_value mem (Some m') key = Some (first_match mem (kv_entries m') key)"
    using kv_find_from_eq [OF m'(1), of mem key 0] by (simp add: kv_find_value_def)
  with m'(2) k show ?thesis by (auto simp: first_match_append)
qed

theorem kv_find_after_set_witness:
  "\<exists>m'. kv_set_key_value (\<lambda>_. False) (\<lambda>_. null_pair) (Some (empty_kv 2)) (Some (Lit ''a'')) (Some (Lit ''b''))
     = Some (True, Some m') \<and> kv_find_value [] (Some m') ''a'' = Some (Some (Lit ''b''))"
proof -
  have e: "kv_wf (empty_kv 2)" "kv_entries (empty_kv 2) = []" "kv_capacity (empty_kv 2) = 2" "kv_size (empty_kv 2) = 0"
    using empty_kv_provided [of 2] empty_kv_simps [of 2]
    by (simp_all add: kv_provided_def empty_kv_def KV_INIT_WITH_BUF_def)
  then obtain m' where m': "kv_set_key_value (\<lambda>_. False) (\<lambda>_. null_pair) (Some (empty_kv 2))
      (Some (Lit ''a'')) (Some (Lit ''b'')) = Some (True, Some m')"
    using kv_set_room [of "empty_kv 2" "\<lambda>_. False" "\<lambda>_. null_pair"] by force
  have "keys_readable [] (empty_kv 2)" using e(2) by (simp add: keys_readable_def)
  with kv_find_after_set [OF e(1) _ _ _ m', of "[]" "''a''"] e m' show ?thesis by simp
qed

text \<open>
  Insertions into a table over a caller's buffer (the request and response headers and
  the query): after any sequence of them the table holds what it held and then the first
  of the new pairs, as many as there was room for, in order; the rest is dropped.
\<close>

theorem kv_provided_keeps_prefix:
  assumes "kv_provided m"
  shows "kv_entries (foldl (\<lambda>t e. snd (kv_put t e)) m es) = kv_entries m @ take (kv_room m) es
     \<and> kv_provided (foldl (\<lambda>t e. snd (kv_put t e)) m es)"
  using provided.put_all(1,2) [OF assms] by blast

theorem kv_provided_keeps_prefix_witness:
  "kv_entries (foldl (\<lambda>t e. snd (kv_put t e)) (empty_kv 1) [(None, None), (Some (Lit ''k''), None)]) = [(None, None)]"
  using kv_provided_keeps_prefix [of "empty_kv 1" "[(None, None), (Some (Lit ''k''), None)]"]
    empty_kv_provided [of 1] empty_kv_simps [of 1] by simp

end
