(* ===== verification/Http_Request.thy ===== *)
theory Http_Request
  imports Kv
begin

text \<open>
  The request parser of \<open>lib/http_parser.c\<close> (\<open>http_parse_method\<close>, \<open>http_parse_path\<close>,
  \<open>http_parse_protocol\<close>, \<open>http_parse_headers\<close>, \<open>http_parse_request\<close>) with the method
  table of \<open>include/http_parser.h\<close>. A function that takes \<open>char **ppbuf\<close> takes the offset
  and returns the new one; the parser works in place, so each function that writes also
  returns the buffer. Pointers may pass \<open>bufend\<close>, so their differences are taken on
  \<open>int\<close> and converted to \<open>size_t\<close> where the code does. Debug output is left out.
\<close>

section \<open>Model\<close>

subsection \<open>Requests and methods\<close>

record http_request =
  rq_method :: int
  rq_path :: "cptr option"
  rq_protocol :: "cptr option"
  rq_conn :: "nat option"
  rq_query :: kv
  rq_headers :: kv

text \<open>The allocator as seen by one call: granted sizes and indeterminate contents.\<close>

record mem_env =
  me_alloc :: "u64 \<Rightarrow> bool"
  me_fill :: "nat \<Rightarrow> char"
  me_pair :: "nat \<Rightarrow> kv_pair"

definition METHOD_GET :: int where "METHOD_GET = push_bit 0 1"
definition METHOD_HEAD :: int where "METHOD_HEAD = push_bit 1 1"
definition METHOD_POST :: int where "METHOD_POST = push_bit 2 1"
definition METHOD_PUT :: int where "METHOD_PUT = push_bit 3 1"
definition METHOD_DELETE :: int where "METHOD_DELETE = push_bit 4 1"
definition METHOD_CONNECT :: int where "METHOD_CONNECT = push_bit 5 1"
definition METHOD_OPTIONS :: int where "METHOD_OPTIONS = push_bit 6 1"
definition METHOD_TRACE :: int where "METHOD_TRACE = push_bit 7 1"
definition METHOD_PATCH :: int where "METHOD_PATCH = push_bit 8 1"

lemmas METHOD_defs = METHOD_GET_def METHOD_HEAD_def METHOD_POST_def METHOD_PUT_def
  METHOD_DELETE_def METHOD_CONNECT_def METHOD_OPTIONS_def METHOD_TRACE_def METHOD_PATCH_def

definition STR_TO_INT32 :: "char \<Rightarrow> char \<Rightarrow> char \<Rightarrow> char \<Rightarrow> u32" where
  "STR_TO_INT32 a b c d =
     of_char a OR push_bit 8 (of_char b) OR push_bit 16 (of_char c) OR push_bit 24 (of_char d)"

record method_entry =
  me_strn :: u32
  me_mask :: int
  me_length :: nat

definition methods :: "method_entry list" where
  "methods =
    [\<lparr>me_strn = STR_TO_INT32 CHR ''G'' CHR ''E'' CHR ''T'' SP, me_mask = METHOD_GET, me_length = 3\<rparr>,
     \<lparr>me_strn = STR_TO_INT32 CHR ''P'' CHR ''O'' CHR ''S'' CHR ''T'', me_mask = METHOD_POST,
      me_length = 4\<rparr>,
     \<lparr>me_strn = STR_TO_INT32 CHR ''P'' CHR ''U'' CHR ''T'' SP, me_mask = METHOD_PUT, me_length = 3\<rparr>,
     \<lparr>me_strn = STR_TO_INT32 CHR ''D'' CHR ''E'' CHR ''L'' CHR ''E'', me_mask = METHOD_DELETE,
      me_length = 6\<rparr>,
     \<lparr>me_strn = STR_TO_INT32 CHR ''P'' CHR ''A'' CHR ''T'' CHR ''C'', me_mask = METHOD_PATCH,
      me_length = 5\<rparr>,
     \<lparr>me_strn = STR_TO_INT32 CHR ''H'' CHR ''E'' CHR ''A'' CHR ''D'', me_mask = METHOD_HEAD,
      me_length = 4\<rparr>,
     \<lparr>me_strn = STR_TO_INT32 CHR ''O'' CHR ''P'' CHR ''T'' CHR ''I'', me_mask = METHOD_OPTIONS,
      me_length = 7\<rparr>,
     \<lparr>me_strn = STR_TO_INT32 CHR ''T'' CHR ''R'' CHR ''A'' CHR ''C'', me_mask = METHOD_TRACE,
      me_length = 5\<rparr>,
     \<lparr>me_strn = STR_TO_INT32 CHR ''C'' CHR ''O'' CHR ''N'' CHR ''N'', me_mask = METHOD_CONNECT,
      me_length = 6\<rparr>]"

subsection \<open>Scanning\<close>

text \<open>\<open>memcpy\<close> of four bytes into an \<open>int\<close> of a little-endian machine.\<close>

definition str_to_int32 :: "cbuf \<Rightarrow> nat \<Rightarrow> u32 option" where
  "str_to_int32 mem p =
     (if p + 4 \<le> length mem
      then Some (STR_TO_INT32 (mem ! p) (mem ! (p + 1)) (mem ! (p + 2)) (mem ! (p + 3)))
      else None)"

function trim_spaces :: "cbuf \<Rightarrow> nat \<Rightarrow> nat \<Rightarrow> nat option" where
  "trim_spaces mem p bufend =
     (if \<not> p < bufend then Some p
      else if length mem \<le> p then None
      else if mem ! p = SP then trim_spaces mem (Suc p) bufend
      else Some p)"
  by pat_completeness auto
termination
  by (relation "measure (\<lambda>(mem, p, bufend). bufend - p)") auto

declare trim_spaces.simps [simp del]

text \<open>The loop \<open>FOR_EACH_HTTP_METHOD\<close>.\<close>

fun find_method :: "method_entry list \<Rightarrow> u32 \<Rightarrow> method_entry option" where
  "find_method [] reqstrn = None"
| "find_method (m # ms) reqstrn = (if me_strn m = reqstrn then Some m else find_method ms reqstrn)"

definition http_parse_method ::
  "http_request \<Rightarrow> cbuf \<Rightarrow> nat \<Rightarrow> nat \<Rightarrow> (int \<times> http_request \<times> nat) option"
where
  "http_parse_method req mem p bufend =
     (if int bufend - int p < 4 then Some (0, req, p)
      else do {
        reqstrn \<leftarrow> str_to_int32 mem p;
        case find_method methods reqstrn of
          Some m \<Rightarrow> Some (int (me_length m), req\<lparr>rq_method := me_mask m\<rparr>, p + me_length m)
        | None \<Rightarrow> Some (0, req, p)
      })"

subsection \<open>Path and query\<close>

text \<open>The call \<open>kv_set_key_value(&t, key, value)\<close>, whose result the parser ignores.\<close>

definition table_set :: "mem_env \<Rightarrow> kv \<Rightarrow> nat \<Rightarrow> nat \<Rightarrow> kv option" where
  "table_set env t key v =
     do {
       r \<leftarrow> kv_set_key_value (me_alloc env) (me_pair env) (Some t) (Some (Buf key)) (Some (Buf v));
       snd r
     }"

text \<open>
  The body of the loop \<open>while (query && query < end_of_path)\<close>: the new state, and the next
  value of \<open>query\<close> or \<^term>\<open>None\<close> where the body breaks.
\<close>

definition query_body ::
  "mem_env \<Rightarrow> http_request \<Rightarrow> cbuf \<Rightarrow> nat \<Rightarrow> nat \<Rightarrow> (http_request \<times> cbuf \<times> nat option) option"
where
  "query_body env req mem query end_of_path =
     do {
       s \<leftarrow> strchr mem query CHR ''='';
       case s of
         None \<Rightarrow> Some (req, mem, None)
       | Some qkv_seperator \<Rightarrow>
           if end_of_path \<le> qkv_seperator then Some (req, mem, None)
           else do {
             mem1 \<leftarrow> poke mem qkv_seperator NUL;
             t \<leftarrow> table_set env (rq_query req) query (qkv_seperator + 1);
             let req1 = req\<lparr>rq_query := t\<rparr>;
             e \<leftarrow> strchr mem1 (qkv_seperator + 1) CHR ''&'';
             case e of
               None \<Rightarrow> Some (req1, mem1, None)
             | Some qkv_end \<Rightarrow>
                 if end_of_path \<le> qkv_end then Some (req1, mem1, None)
                 else do {
                   mem2 \<leftarrow> poke mem1 qkv_end NUL;
                   Some (req1, mem2, Some (qkv_end + 1))
                 }
           }
     }"

lemma query_body_advances:
  "query_body env req mem query eop = Some (req', mem', Some q') \<Longrightarrow> query < q'"
  by (auto simp: query_body_def Let_def split: Option.bind_splits option.splits if_splits
      dest!: strchr_found(1))

function parse_query ::
  "mem_env \<Rightarrow> http_request \<Rightarrow> cbuf \<Rightarrow> nat \<Rightarrow> nat \<Rightarrow> (http_request \<times> cbuf) option"
where
  "parse_query env req mem query end_of_path =
     (if \<not> query < end_of_path then Some (req, mem)
      else case query_body env req mem query end_of_path of
             None \<Rightarrow> None
           | Some (req1, mem1, None) \<Rightarrow> Some (req1, mem1)
           | Some (req1, mem1, Some query1) \<Rightarrow> parse_query env req1 mem1 query1 end_of_path)"
  by pat_completeness auto
termination
  by (relation "measure (\<lambda>(env, req, mem, query, end_of_path). end_of_path - query)")
    (auto dest!: query_body_advances)

declare parse_query.simps [simp del]

definition http_parse_path ::
  "mem_env \<Rightarrow> http_request \<Rightarrow> cbuf \<Rightarrow> nat \<Rightarrow> nat \<Rightarrow> (int \<times> http_request \<times> cbuf \<times> nat) option"
where
  "http_parse_path env req mem p bufend =
     (if to_size_t (int bufend - int p) < 13 then Some (0, req, mem, p)
      else do {
        c \<leftarrow> peek mem p;
        if c \<noteq> CHR ''/'' then Some (0, req, mem, p)
        else do {
          e \<leftarrow> strchr mem p SP;
          case e of
            None \<Rightarrow> Some (0, req, mem, p)
          | Some end_of_path \<Rightarrow>
              do {
                q \<leftarrow> strchr mem p CHR ''?'';
                (req1, mem1) \<leftarrow>
                  (case q of
                     None \<Rightarrow> Some (req, mem)
                   | Some query \<Rightarrow>
                       if query < end_of_path
                       then do { m \<leftarrow> poke mem query NUL; parse_query env req m (query + 1) end_of_path }
                       else Some (req, mem));
                mem2 \<leftarrow> poke mem1 end_of_path NUL;
                Some (int (end_of_path + 1) - int p, req1\<lparr>rq_path := Some (Buf p)\<rparr>, mem2,
                      end_of_path + 1)
              }
        }
      })"

subsection \<open>Protocol and headers\<close>

definition http_parse_protocol ::
  "http_request \<Rightarrow> cbuf \<Rightarrow> nat \<Rightarrow> nat \<Rightarrow> (int \<times> http_request \<times> cbuf \<times> nat) option"
where
  "http_parse_protocol req mem p bufend =
     (if to_size_t (int bufend - int p) < 11 then Some (0, req, mem, p)
      else do {
        e \<leftarrow> strchr mem p CR;
        case e of
          None \<Rightarrow> Some (0, req, mem, p)
        | Some end_of_line \<Rightarrow>
            do {
              n \<leftarrow> str_to_int32 mem p;
              if n \<noteq> STR_TO_INT32 CHR ''H'' CHR ''T'' CHR ''T'' CHR ''P'' then Some (0, req, mem, p)
              else do {
                mem1 \<leftarrow> poke mem end_of_line NUL;
                Some (int (end_of_line + 2) - int p, req\<lparr>rq_protocol := Some (Buf p)\<rparr>, mem1,
                      end_of_line + 2)
              }
            }
      })"

text \<open>
  The body of the loop \<open>while (start < bufend)\<close>: the new state and the new value of
  \<open>start\<close>, with \<^term>\<open>True\<close> where the body breaks.
\<close>

definition header_body ::
  "mem_env \<Rightarrow> http_request \<Rightarrow> cbuf \<Rightarrow> nat \<Rightarrow> (http_request \<times> cbuf \<times> nat \<times> bool) option"
where
  "header_body env req mem start =
     do {
       e \<leftarrow> strchr mem start CR;
       case e of
         None \<Rightarrow> Some (req, mem, start, True)
       | Some end_of_header_line \<Rightarrow>
           if to_size_t (int end_of_header_line - int start) < 5
           then Some (req, mem, end_of_header_line, True)
           else do {
             s \<leftarrow> strchr mem start CHR '':'';
             (req1, mem1) \<leftarrow>
               (case s of
                  None \<Rightarrow> Some (req, mem)
                | Some header_seperator \<Rightarrow>
                    if header_seperator < end_of_header_line
                    then do {
                      m1 \<leftarrow> poke mem header_seperator NUL;
                      m2 \<leftarrow> poke m1 end_of_header_line NUL;
                      t \<leftarrow> table_set env (rq_headers req) start (header_seperator + 2);
                      Some (req\<lparr>rq_headers := t\<rparr>, m2)
                    }
                    else Some (req, mem));
             Some (req1, mem1, end_of_header_line + 2, False)
           }
     }"

lemma header_body_advances:
  "header_body env req mem start = Some (req', mem', start', False) \<Longrightarrow> start < start'"
  by (auto simp: header_body_def split: Option.bind_splits option.splits if_splits
      dest!: strchr_found(1))

function parse_headers ::
  "mem_env \<Rightarrow> http_request \<Rightarrow> cbuf \<Rightarrow> nat \<Rightarrow> nat \<Rightarrow> (http_request \<times> cbuf \<times> nat) option"
where
  "parse_headers env req mem start bufend =
     (if \<not> start < bufend then Some (req, mem, start)
      else case header_body env req mem start of
             None \<Rightarrow> None
           | Some (req1, mem1, start1, stop) \<Rightarrow>
               if stop then Some (req1, mem1, start1)
               else parse_headers env req1 mem1 start1 bufend)"
  by pat_completeness auto
termination
  by (relation "measure (\<lambda>(env, req, mem, start, bufend). bufend - start)")
    (auto dest!: header_body_advances)

declare parse_headers.simps [simp del]

definition http_parse_headers ::
  "mem_env \<Rightarrow> http_request \<Rightarrow> cbuf \<Rightarrow> nat \<Rightarrow> nat \<Rightarrow> (int \<times> http_request \<times> cbuf \<times> nat) option"
where
  "http_parse_headers env req mem p bufend =
     do {
       (req1, mem1, start) \<leftarrow> parse_headers env req mem p bufend;
       Some (int start - int p, req1, mem1, start)
     }"

subsection \<open>The whole request\<close>

definition http_parse_request ::
  "mem_env \<Rightarrow> http_request \<Rightarrow> cbuf \<Rightarrow> nat \<Rightarrow> (int \<times> http_request \<times> cbuf) option"
where
  "http_parse_request env req mem buflen =
     do {
       (r1, req1, p1) \<leftarrow> http_parse_method req mem 0 buflen;
       if rq_method req1 = 0 then Some (0, req1, mem)
       else do {
         p2 \<leftarrow> trim_spaces mem p1 buflen;
         (r2, req2, mem2, p3) \<leftarrow> http_parse_path env req1 mem p2 buflen;
         if rq_path req2 = None then Some (0, req2, mem2)
         else do {
           (r3, req3, mem3, p4) \<leftarrow> http_parse_protocol req2 mem2 p3 buflen;
           if rq_protocol req3 = None then Some (0, req3, mem3)
           else do {
             (r4, req4, mem4, p5) \<leftarrow> http_parse_headers env req3 mem3 p4 buflen;
             Some (1, req4, mem4)
           }
         }
       }
     }"

end
