(* ===== verification/Router.thy ===== *)
theory Router
  imports Http_Request
begin

text \<open>
  The route table of \<open>include/router.h\<close> and its lookup in \<open>lib/router.c\<close>. The linker
  gathers the \<open>ROUTER\<close> and \<open>ROUTER_STATIC\<close> entries of all object files in one section,
  which \<open>FOREACH_ROUTER\<close> walks from \<open>router_start\<close> to \<open>router_end\<close>; the section is the
  list of its entries. The type of the function pointer is left open: it is the handler
  type of the response theory.
\<close>

section \<open>Model\<close>

record 'h router =
  rt_path :: string
  rt_filepath :: "string option"
  rt_fp :: 'h
  rt_method :: u16

definition ROUTER :: "int \<Rightarrow> string \<Rightarrow> 'h \<Rightarrow> 'h router" where
  "ROUTER m p f = \<lparr>rt_path = p, rt_filepath = None, rt_fp = f, rt_method = word_of_int m\<rparr>"

definition ROUTER_STATIC :: "'h \<Rightarrow> string \<Rightarrow> string \<Rightarrow> 'h router" where
  "ROUTER_STATIC global_static filep p =
     \<lparr>rt_path = p, rt_filepath = Some filep, rt_fp = global_static, rt_method = word_of_int METHOD_GET\<rparr>"

text \<open>The condition \<open>(method & iter->method) && strcmp(path, iter->path) == 0\<close>.\<close>

definition route_matches :: "string \<Rightarrow> int \<Rightarrow> 'h router \<Rightarrow> bool" where
  "route_matches path m r \<longleftrightarrow> m AND uint (rt_method r) \<noteq> 0 \<and> path = rt_path r"

fun find_router :: "'h router list \<Rightarrow> string \<Rightarrow> int \<Rightarrow> 'h router option" where
  "find_router [] path m = None"
| "find_router (r # rs) path m =
     (if route_matches path m r then Some r else find_router rs path m)"

subsection \<open>The section in memory\<close>

text \<open>
  \<open>find_router\<close> as it is compiled: \<open>FOREACH_ROUTER\<close> steps through the addresses from
  \<open>router_start\<close> to \<open>router_end\<close>. \<open>sec\<close> gives the entry at an address; reading where there
  is none is undefined, and so is (as \<^term>\<open>None\<close> of the iteration) not to return. The size
  of the structure is that of its four members, rounded up to its alignment.
\<close>

definition ROUTER_SIZE :: u64 where "ROUTER_SIZE = 32"

definition sizeof_router :: nat where
  "sizeof_router = (8 + 8 + 8 + 2 + (32 - 1)) div 32 * 32"

partial_function (option) foreach_router ::
  "(u64 \<Rightarrow> 'h router option) \<Rightarrow> u64 \<Rightarrow> string \<Rightarrow> int \<Rightarrow> u64 \<Rightarrow> 'h router option option"
where
  "foreach_router sec router_end path m iter =
     (if iter < router_end
      then case sec iter of
             None \<Rightarrow> None
           | Some r \<Rightarrow> if route_matches path m r then Some (Some r)
                       else foreach_router sec router_end path m (iter + ROUTER_SIZE)
      else Some None)"

text \<open>The entries \<open>rs\<close> lie in the section one after the other.\<close>

definition section_holds :: "(u64 \<Rightarrow> 'h router option) \<Rightarrow> u64 \<Rightarrow> 'h router list \<Rightarrow> bool" where
  "section_holds sec start rs \<longleftrightarrow> unat start + sizeof_router * length rs < 2 ^ 64
     \<and> (\<forall>k < length rs. sec (start + of_nat k * of_nat sizeof_router) = Some (rs ! k))"

lemma sizeof_router: "sizeof_router = 32" "of_nat sizeof_router = ROUTER_SIZE"
  by (simp_all add: sizeof_router_def ROUTER_SIZE_def)

section \<open>Facts\<close>

lemma find_router_SomeD:
  "find_router rs path m = Some r \<Longrightarrow> r \<in> set rs \<and> route_matches path m r"
  by (induction rs) (auto split: if_splits)

lemma find_router_skip:
  "\<forall>u \<in> set us. \<not> route_matches path m u \<Longrightarrow> route_matches path m r \<Longrightarrow>
     find_router (us @ r # vs) path m = Some r"
  by (induction us) auto

lemma find_router_split:
  assumes "find_router rs path m = Some r"
  shows "\<exists>us vs. rs = us @ r # vs \<and> (\<forall>u \<in> set us. \<not> route_matches path m u)"
  using assms
proof (induction rs)
  case (Cons x xs)
  show ?case
  proof (cases "route_matches path m x")
    case True
    with Cons.prems show ?thesis by (intro exI [of _ "[]"] exI [of _ xs]) simp
  next
    case False
    with Cons obtain us vs where "xs = us @ r # vs" "\<forall>u \<in> set us. \<not> route_matches path m u" by auto
    with False show ?thesis by (intro exI [of _ "x # us"] exI [of _ vs]) auto
  qed
qed simp

lemma find_router_None: "find_router rs path m = None \<longleftrightarrow> (\<forall>r \<in> set rs. \<not> route_matches path m r)"
  by (induction rs) auto

section \<open>The walk through the section\<close>

lemma section_holds_Cons:
  assumes "section_holds sec start (r # rs)"
  shows "sec start = Some r" and "section_holds sec (start + ROUTER_SIZE) rs"
    and "start < start + of_nat (length (r # rs)) * ROUTER_SIZE"
proof -
  from assms have n: "unat start + 32 * length rs + 32 < 2 ^ 64"
    and e: "\<And>k. k < Suc (length rs) \<Longrightarrow> sec (start + of_nat k * ROUTER_SIZE) = Some ((r # rs) ! k)"
    by (simp_all add: section_holds_def sizeof_router ROUTER_SIZE_def)
  show "sec start = Some r" using e [of 0] by simp
  have "unat (start + ROUTER_SIZE) = unat start + 32"
    using n by (simp add: ROUTER_SIZE_def unat_word_ariths)
  then show "section_holds sec (start + ROUTER_SIZE) rs"
    using n e [of "Suc k" for k] by (auto simp: section_holds_def sizeof_router ROUTER_SIZE_def algebra_simps)
  have "unat (of_nat (length (r # rs)) * ROUTER_SIZE) = 32 * length (r # rs)"
    using n by (simp add: ROUTER_SIZE_def unat_word_ariths unat_of_nat)
  then show "start < start + of_nat (length (r # rs)) * ROUTER_SIZE"
    using n by (simp add: word_less_nat_alt unat_word_ariths)
qed

lemma foreach_router_list:
  assumes "section_holds sec start rs"
  shows "foreach_router sec (start + of_nat (length rs) * ROUTER_SIZE) path m start = Some (find_router rs path m)"
  using assms
proof (induction rs arbitrary: start)
  case Nil
  show ?case by (subst foreach_router.simps) simp
next
  case (Cons r rs)
  note s = section_holds_Cons [OF Cons.prems]
  have "start + of_nat (length (r # rs)) * ROUTER_SIZE = (start + ROUTER_SIZE) + of_nat (length rs) * ROUTER_SIZE"
    by (simp add: algebra_simps)
  with s Cons.IH [OF s(2)] show ?case by (subst foreach_router.simps) (simp add: add.assoc)
qed
section \<open>Properties\<close>

text \<open>
  C25. \<open>find_router\<close> returns an entry exactly if its path is the request's path, its method
  mask shares a bit with the request's method, and no entry before it has that path and
  such a mask; it returns NULL exactly if every entry with the request's path has a mask
  without the method's bit.
\<close>

theorem find_router_correct:
  "(find_router rs path m = Some r \<longleftrightarrow>
      (\<exists>us vs. rs = us @ r # vs \<and> rt_path r = path \<and> m AND uint (rt_method r) \<noteq> 0
        \<and> (\<forall>u \<in> set us. rt_path u = path \<longrightarrow> m AND uint (rt_method u) = 0)))
   \<and> (find_router rs path m = None \<longleftrightarrow> (\<forall>u \<in> set rs. rt_path u = path \<longrightarrow> m AND uint (rt_method u) = 0))"
proof -
  have match: "route_matches path m u \<longleftrightarrow> rt_path u = path \<and> m AND uint (rt_method u) \<noteq> 0" for u :: "'a router"
    by (auto simp: route_matches_def)
  have "find_router rs path m = Some r \<longleftrightarrow>
      (\<exists>us vs. rs = us @ r # vs \<and> route_matches path m r \<and> (\<forall>u \<in> set us. \<not> route_matches path m u))"
    using find_router_skip find_router_split find_router_SomeD by blast
  with find_router_None [of rs path m] show ?thesis unfolding match by blast
qed

theorem find_router_correct_witness:
  "find_router [ROUTER METHOD_POST ''/a'' (0::nat), ROUTER METHOD_GET ''/b'' 1, ROUTER METHOD_GET ''/a'' 2] ''/a'' METHOD_GET
     = Some (ROUTER METHOD_GET ''/a'' 2)"
  by (intro find_router_correct [THEN conjunct1, THEN iffD2]
      exI [of _ "[ROUTER METHOD_POST ''/a'' (0::nat), ROUTER METHOD_GET ''/b'' 1]"] exI [of _ "[]"])
    (simp add: ROUTER_def METHOD_defs)

text \<open>
  C24. The walk through the linker's section is the search in the list of its entries: the
  step is the size of an entry, so the loop meets every entry, reads nothing else, and
  returns.
\<close>

theorem foreach_router_correct:
  assumes "section_holds sec router_start rs"
  shows "foreach_router sec (router_start + of_nat (length rs) * of_nat sizeof_router) path m router_start
     = Some (find_router rs path m)"
  using foreach_router_list [OF assms] by (simp only: sizeof_router(2))

definition demo_section :: "u64 \<Rightarrow> nat router option" where
  "demo_section a = (if a = 0x1000 then Some (ROUTER METHOD_POST ''/a'' 0)
     else if a = 0x1020 then Some (ROUTER METHOD_GET ''/a'' 1) else None)"

theorem foreach_router_correct_witness:
  "foreach_router demo_section 0x1040 ''/a'' METHOD_GET 0x1000 = Some (Some (ROUTER METHOD_GET ''/a'' 1))"
proof -
  let ?rs = "[ROUTER METHOD_POST ''/a'' 0, ROUTER METHOD_GET ''/a'' (1::nat)]"
  have "section_holds demo_section 0x1000 ?rs"
    by (simp add: section_holds_def sizeof_router_def demo_section_def less_Suc_eq_0_disj)
  from foreach_router_correct [OF this, of "''/a''" METHOD_GET] show ?thesis
    by (simp add: sizeof_router_def route_matches_def ROUTER_def METHOD_defs)
qed

end
