(* ===== verification/Syscalls.thy ===== *)
theory Syscalls
  imports C_Prelude
begin

text \<open>
  The system call layer: the macros \<open>syscall_0\<close> .. \<open>syscall_5\<close> of
  \<open>include/arch/x86/syscall.h\<close> and the wrappers of \<open>include/syscall.h\<close>. The kernel is a
  parameter: a function of the registers at the \<open>syscall\<close> instruction and of its own
  state, which returns \<open>rax\<close>, the new contents of the object a pointer argument leads to
  (\<^term>\<open>None\<close> if it leaves the object alone) and its new state. A macro is the register
  assignment its constraints ask for; a wrapper converts \<open>rax\<close> to \<open>int\<close>. \<open>syscall_6\<close> is
  used nowhere and is not valid C (a comma is missing between its last two operands).
\<close>

section \<open>Model\<close>

subsection \<open>The instruction\<close>

datatype reg = RAX | RDI | RSI | RDX | R10 | R8

text \<open>Objects that pointer arguments lead to, as far as the sources use them.\<close>

datatype cobj =
    Obj_bytes cbuf
  | Obj_stat u64
  | Obj_rlimit u64 u64
  | Obj_fds int int
  | Obj_sockaddr_in u16 u16 u32

datatype sysarg = Arg_int int | Arg_uint u32 | Arg_size u64 | Arg_ptr "cobj option"

type_synonym 'k kernel = "(reg \<Rightarrow> sysarg option) \<Rightarrow> 'k \<Rightarrow> u64 \<times> cobj option \<times> 'k"

definition syscall_0 ::
  "'k kernel \<Rightarrow> int \<Rightarrow> 'k \<Rightarrow> u64 \<times> cobj option \<times> 'k"
where
  "syscall_0 kern nr k = kern [RAX \<mapsto> Arg_int nr] k"

definition syscall_1 ::
  "'k kernel \<Rightarrow> int \<Rightarrow> sysarg \<Rightarrow> 'k \<Rightarrow> u64 \<times> cobj option \<times> 'k"
where
  "syscall_1 kern nr a k = kern [RAX \<mapsto> Arg_int nr, RDI \<mapsto> a] k"

definition syscall_2 ::
  "'k kernel \<Rightarrow> int \<Rightarrow> sysarg \<Rightarrow> sysarg \<Rightarrow> 'k \<Rightarrow> u64 \<times> cobj option \<times> 'k"
where
  "syscall_2 kern nr a b k = kern [RAX \<mapsto> Arg_int nr, RDI \<mapsto> a, RSI \<mapsto> b] k"

definition syscall_3 ::
  "'k kernel \<Rightarrow> int \<Rightarrow> sysarg \<Rightarrow> sysarg \<Rightarrow> sysarg \<Rightarrow> 'k \<Rightarrow> u64 \<times> cobj option \<times> 'k"
where
  "syscall_3 kern nr a b c k = kern [RAX \<mapsto> Arg_int nr, RDI \<mapsto> a, RSI \<mapsto> b, RDX \<mapsto> c] k"

definition syscall_4 ::
  "'k kernel \<Rightarrow> int \<Rightarrow> sysarg \<Rightarrow> sysarg \<Rightarrow> sysarg \<Rightarrow> sysarg \<Rightarrow> 'k \<Rightarrow> u64 \<times> cobj option \<times> 'k"
where
  "syscall_4 kern nr a b c d k = kern [RAX \<mapsto> Arg_int nr, RDI \<mapsto> a, RSI \<mapsto> b, RDX \<mapsto> c, R10 \<mapsto> d] k"

definition syscall_5 ::
  "'k kernel \<Rightarrow> int \<Rightarrow> sysarg \<Rightarrow> sysarg \<Rightarrow> sysarg \<Rightarrow> sysarg \<Rightarrow> sysarg \<Rightarrow> 'k \<Rightarrow> u64 \<times> cobj option \<times> 'k"
where
  "syscall_5 kern nr a b c d e k = kern [RAX \<mapsto> Arg_int nr, RDI \<mapsto> a, RSI \<mapsto> b, RDX \<mapsto> c, R10 \<mapsto> d, R8 \<mapsto> e] k"

text \<open>The conversion \<open>(int)rax\<close>, and the two shapes of a wrapper's result.\<close>

definition int_of_rax :: "u64 \<Rightarrow> int" where
  "int_of_rax r = sint (ucast r :: u32)"

definition c_result :: "u64 \<times> cobj option \<times> 'k \<Rightarrow> int \<times> cobj option \<times> 'k" where
  "c_result x = (case x of (r, obj, k) \<Rightarrow> (int_of_rax r, obj, k))"

definition c_result_int :: "u64 \<times> cobj option \<times> 'k \<Rightarrow> int \<times> 'k" where
  "c_result_int x = (case x of (r, obj, k) \<Rightarrow> (int_of_rax r, k))"

subsection \<open>System call numbers\<close>

definition NR_read :: int where "NR_read = 0"
definition NR_write :: int where "NR_write = 1"
definition NR_open :: int where "NR_open = 2"
definition NR_close :: int where "NR_close = 3"
definition NR_stat :: int where "NR_stat = 4"
definition NR_fstat :: int where "NR_fstat = 5"
definition NR_socket :: int where "NR_socket = 41"
definition NR_accept :: int where "NR_accept = 43"
definition NR_bind :: int where "NR_bind = 49"
definition NR_listen :: int where "NR_listen = 50"
definition NR_getrlimit :: int where "NR_getrlimit = 97"
definition NR_setrlimit :: int where "NR_setrlimit = 160"
definition NR_epoll_create :: int where "NR_epoll_create = 213"
definition NR_epoll_wait :: int where "NR_epoll_wait = 232"
definition NR_epoll_ctl :: int where "NR_epoll_ctl = 233"
definition NR_inotify_init :: int where "NR_inotify_init = 253"
definition NR_inotify_add_watch :: int where "NR_inotify_add_watch = 254"
definition NR_inotify_rm_watch :: int where "NR_inotify_rm_watch = 255"
definition NR_epoll_pwait :: int where "NR_epoll_pwait = 281"
definition NR_accept4 :: int where "NR_accept4 = 288"
definition NR_epoll_create1 :: int where "NR_epoll_create1 = 291"
definition NR_pipe2 :: int where "NR_pipe2 = 293"
definition NR_inotify_init1 :: int where "NR_inotify_init1 = 294"
definition NR_io_uring_setup :: int where "NR_io_uring_setup = 425"
definition NR_io_uring_enter :: int where "NR_io_uring_enter = 426"
definition NR_io_uring_register :: int where "NR_io_uring_register = 427"

lemmas NR_defs =
  NR_read_def NR_write_def NR_open_def NR_close_def NR_stat_def
  NR_fstat_def NR_socket_def NR_accept_def NR_bind_def NR_listen_def
  NR_getrlimit_def NR_setrlimit_def NR_epoll_create_def NR_epoll_wait_def NR_epoll_ctl_def
  NR_inotify_init_def NR_inotify_add_watch_def NR_inotify_rm_watch_def NR_epoll_pwait_def NR_accept4_def
  NR_epoll_create1_def NR_pipe2_def NR_inotify_init1_def NR_io_uring_setup_def NR_io_uring_enter_def
  NR_io_uring_register_def

subsection \<open>Wrappers\<close>

definition sys_read ::
  "'k kernel \<Rightarrow> int \<Rightarrow> cobj \<Rightarrow> u64 \<Rightarrow> 'k \<Rightarrow> int \<times> cobj option \<times> 'k"
where
  "sys_read kern fd buf count k =
     c_result (syscall_3 kern NR_read (Arg_int fd) (Arg_ptr (Some buf)) (Arg_size count) k)"

definition sys_open ::
  "'k kernel \<Rightarrow> string \<Rightarrow> int \<Rightarrow> 'k \<Rightarrow> int \<times> 'k"
where
  "sys_open kern pathname flags k =
     c_result_int (syscall_2 kern NR_open (Arg_ptr (Some (Obj_bytes (pathname @ [NUL])))) (Arg_int flags) k)"

definition sys_write ::
  "'k kernel \<Rightarrow> int \<Rightarrow> cobj \<Rightarrow> u64 \<Rightarrow> 'k \<Rightarrow> int \<times> 'k"
where
  "sys_write kern fd buf count k =
     c_result_int (syscall_3 kern NR_write (Arg_int fd) (Arg_ptr (Some buf)) (Arg_size count) k)"

definition sys_close ::
  "'k kernel \<Rightarrow> int \<Rightarrow> 'k \<Rightarrow> int \<times> 'k"
where
  "sys_close kern fd k =
     c_result_int (syscall_1 kern NR_close (Arg_int fd) k)"

definition sys_stat ::
  "'k kernel \<Rightarrow> string \<Rightarrow> cobj \<Rightarrow> 'k \<Rightarrow> int \<times> cobj option \<times> 'k"
where
  "sys_stat kern pathname statbuf k =
     c_result (syscall_2 kern NR_stat (Arg_ptr (Some (Obj_bytes (pathname @ [NUL])))) (Arg_ptr (Some statbuf)) k)"

definition sys_fstat ::
  "'k kernel \<Rightarrow> int \<Rightarrow> cobj \<Rightarrow> 'k \<Rightarrow> int \<times> cobj option \<times> 'k"
where
  "sys_fstat kern fd statbuf k =
     c_result (syscall_2 kern NR_fstat (Arg_int fd) (Arg_ptr (Some statbuf)) k)"

definition sys_socket ::
  "'k kernel \<Rightarrow> int \<Rightarrow> int \<Rightarrow> int \<Rightarrow> 'k \<Rightarrow> int \<times> 'k"
where
  "sys_socket kern domain type protocol k =
     c_result_int (syscall_3 kern NR_socket (Arg_int domain) (Arg_int type) (Arg_int protocol) k)"

definition sys_bind ::
  "'k kernel \<Rightarrow> int \<Rightarrow> cobj \<Rightarrow> u32 \<Rightarrow> 'k \<Rightarrow> int \<times> 'k"
where
  "sys_bind kern sockfd addr addrlen k =
     c_result_int (syscall_3 kern NR_bind (Arg_int sockfd) (Arg_ptr (Some addr)) (Arg_uint addrlen) k)"

definition sys_listen ::
  "'k kernel \<Rightarrow> int \<Rightarrow> int \<Rightarrow> 'k \<Rightarrow> int \<times> 'k"
where
  "sys_listen kern sockfd backlog k =
     c_result_int (syscall_2 kern NR_listen (Arg_int sockfd) (Arg_int backlog) k)"

definition sys_accept4 ::
  "'k kernel \<Rightarrow> int \<Rightarrow> cobj option \<Rightarrow> cobj option \<Rightarrow> int \<Rightarrow> 'k \<Rightarrow> int \<times> cobj option \<times> 'k"
where
  "sys_accept4 kern socket addr addrlen flags k =
     c_result (syscall_4 kern NR_accept4 (Arg_int socket) (Arg_ptr addr) (Arg_ptr addrlen) (Arg_int flags) k)"

definition sys_getrlimit ::
  "'k kernel \<Rightarrow> int \<Rightarrow> cobj \<Rightarrow> 'k \<Rightarrow> int \<times> cobj option \<times> 'k"
where
  "sys_getrlimit kern resource rlim k =
     c_result (syscall_2 kern NR_getrlimit (Arg_int resource) (Arg_ptr (Some rlim)) k)"

definition sys_setrlimit ::
  "'k kernel \<Rightarrow> int \<Rightarrow> cobj \<Rightarrow> 'k \<Rightarrow> int \<times> 'k"
where
  "sys_setrlimit kern resource rlim k =
     c_result_int (syscall_2 kern NR_setrlimit (Arg_int resource) (Arg_ptr (Some rlim)) k)"

definition sys_epoll_create1 ::
  "'k kernel \<Rightarrow> int \<Rightarrow> 'k \<Rightarrow> int \<times> 'k"
where
  "sys_epoll_create1 kern flags k =
     c_result_int (syscall_1 kern NR_epoll_create1 (Arg_int flags) k)"

definition sys_epoll_wait ::
  "'k kernel \<Rightarrow> int \<Rightarrow> cobj \<Rightarrow> int \<Rightarrow> int \<Rightarrow> 'k \<Rightarrow> int \<times> cobj option \<times> 'k"
where
  "sys_epoll_wait kern epfd events maxevents timeout k =
     c_result (syscall_4 kern NR_epoll_wait (Arg_int epfd) (Arg_ptr (Some events)) (Arg_int maxevents) (Arg_int timeout) k)"

definition sys_epoll_ctl ::
  "'k kernel \<Rightarrow> int \<Rightarrow> int \<Rightarrow> int \<Rightarrow> cobj option \<Rightarrow> 'k \<Rightarrow> int \<times> 'k"
where
  "sys_epoll_ctl kern epfd epop fd event k =
     c_result_int (syscall_4 kern NR_epoll_ctl (Arg_int epfd) (Arg_int epop) (Arg_int fd) (Arg_ptr event) k)"

definition sys_inotify_init ::
  "'k kernel \<Rightarrow> 'k \<Rightarrow> int \<times> 'k"
where
  "sys_inotify_init kern k =
     c_result_int (syscall_0 kern NR_inotify_init k)"

definition sys_inotify_add_watch ::
  "'k kernel \<Rightarrow> int \<Rightarrow> string \<Rightarrow> u32 \<Rightarrow> 'k \<Rightarrow> int \<times> 'k"
where
  "sys_inotify_add_watch kern fd pathname wmask k =
     c_result_int (syscall_3 kern NR_inotify_add_watch (Arg_int fd) (Arg_ptr (Some (Obj_bytes (pathname @ [NUL])))) (Arg_uint wmask) k)"

definition sys_inotify_rm_watch ::
  "'k kernel \<Rightarrow> int \<Rightarrow> int \<Rightarrow> 'k \<Rightarrow> int \<times> 'k"
where
  "sys_inotify_rm_watch kern fd wd k =
     c_result_int (syscall_2 kern NR_inotify_rm_watch (Arg_int fd) (Arg_int wd) k)"

definition sys_pipe2 ::
  "'k kernel \<Rightarrow> cobj \<Rightarrow> int \<Rightarrow> 'k \<Rightarrow> int \<times> cobj option \<times> 'k"
where
  "sys_pipe2 kern pipefd flags k =
     c_result (syscall_2 kern NR_pipe2 (Arg_ptr (Some pipefd)) (Arg_int flags) k)"

definition sys_inotify_init1 ::
  "'k kernel \<Rightarrow> int \<Rightarrow> 'k \<Rightarrow> int \<times> 'k"
where
  "sys_inotify_init1 kern flags k =
     c_result_int (syscall_1 kern NR_inotify_init1 (Arg_int flags) k)"

definition sys_io_uring_setup ::
  "'k kernel \<Rightarrow> u32 \<Rightarrow> cobj \<Rightarrow> 'k \<Rightarrow> int \<times> cobj option \<times> 'k"
where
  "sys_io_uring_setup kern entries p k =
     c_result (syscall_2 kern NR_io_uring_setup (Arg_uint entries) (Arg_ptr (Some p)) k)"

definition sys_io_uring_enter ::
  "'k kernel \<Rightarrow> u32 \<Rightarrow> u32 \<Rightarrow> u32 \<Rightarrow> u32 \<Rightarrow> cobj option \<Rightarrow> 'k \<Rightarrow> int \<times> 'k"
where
  "sys_io_uring_enter kern fd to_submit min_complete flags sig k =
     c_result_int (syscall_5 kern NR_io_uring_enter (Arg_uint fd) (Arg_uint to_submit) (Arg_uint min_complete) (Arg_uint flags) (Arg_ptr sig) k)"

definition sys_io_uring_register ::
  "'k kernel \<Rightarrow> u32 \<Rightarrow> u32 \<Rightarrow> cobj option \<Rightarrow> u32 \<Rightarrow> 'k \<Rightarrow> int \<times> 'k"
where
  "sys_io_uring_register kern fd opcode arg nr_args k =
     c_result_int (syscall_4 kern NR_io_uring_register (Arg_uint fd) (Arg_uint opcode) (Arg_ptr arg) (Arg_uint nr_args) k)"

section \<open>Facts\<close>

text \<open>
  The documented results of a system call: an error \<open>-errno\<close> with \<open>errno\<close> at most 4095, or
  a value that is not negative. The calls made here return descriptors, 0, or byte counts,
  which Linux keeps below \<open>2 ^ 31\<close>.
\<close>

definition kernel_result :: "u64 \<Rightarrow> bool" where
  "kernel_result r \<longleftrightarrow> - 4095 \<le> sint r \<and> sint r < 2 ^ 31"

definition abi_kernel :: "'k kernel \<Rightarrow> bool" where
  "abi_kernel kern \<longleftrightarrow> (\<forall>regs k. kernel_result (fst (kern regs k)))"

lemma int_of_rax_eq: "int_of_rax r = signed_take_bit 31 (sint r)"
  by (simp add: int_of_rax_def signed_ucast_eq) (simp add: sint_uint signed_take_bit_take_bit)

lemma int_of_rax_id:
  assumes "kernel_result r"
  shows "int_of_rax r = sint r"
  using assms by (simp add: int_of_rax_eq kernel_result_def signed_take_bit_int_eq_self)

lemma abi_result [c_int]: "abi_kernel kern \<Longrightarrow> int_of_rax (fst (kern regs k)) = sint (fst (kern regs k))"
  by (simp add: abi_kernel_def int_of_rax_id)

lemma fst_c_result [simp]: "fst (c_result x) = int_of_rax (fst x)"
  by (simp add: c_result_def split: prod.splits)

lemma fst_c_result_int [simp]: "fst (c_result_int x) = int_of_rax (fst x)"
  by (simp add: c_result_int_def split: prod.splits)

lemmas syscall_defs = syscall_0_def syscall_1_def syscall_2_def syscall_3_def syscall_4_def syscall_5_def

section \<open>Properties\<close>

text \<open>
  With a kernel whose results are those documented, the conversion to \<open>int\<close> loses
  nothing: the wrappers the server calls pass their call number in \<open>rax\<close> and their
  arguments in the registers of the calling convention, and return the kernel's result,
  \<open>-errno\<close> on failure, never a bare \<open>-1\<close> for every error.
\<close>

theorem wrapper_results:
  assumes "abi_kernel kern"
  shows "fst (sys_open kern path fl k) =
           sint (fst (kern [RAX \<mapsto> Arg_int 2, RDI \<mapsto> Arg_ptr (Some (Obj_bytes (path @ [NUL]))),
                            RSI \<mapsto> Arg_int fl] k))
      \<and> fst (sys_close kern fd k) = sint (fst (kern [RAX \<mapsto> Arg_int 3, RDI \<mapsto> Arg_int fd] k))
      \<and> fst (sys_fstat kern fd st k) =
           sint (fst (kern [RAX \<mapsto> Arg_int 5, RDI \<mapsto> Arg_int fd, RSI \<mapsto> Arg_ptr (Some st)] k))
      \<and> fst (sys_socket kern d t p k) =
           sint (fst (kern [RAX \<mapsto> Arg_int 41, RDI \<mapsto> Arg_int d, RSI \<mapsto> Arg_int t, RDX \<mapsto> Arg_int p] k))
      \<and> fst (sys_bind kern fd a n k) =
           sint (fst (kern [RAX \<mapsto> Arg_int 49, RDI \<mapsto> Arg_int fd, RSI \<mapsto> Arg_ptr (Some a),
                            RDX \<mapsto> Arg_uint n] k))
      \<and> fst (sys_listen kern fd b k) =
           sint (fst (kern [RAX \<mapsto> Arg_int 50, RDI \<mapsto> Arg_int fd, RSI \<mapsto> Arg_int b] k))
      \<and> fst (sys_pipe2 kern fds fl k) =
           sint (fst (kern [RAX \<mapsto> Arg_int 293, RDI \<mapsto> Arg_ptr (Some fds), RSI \<mapsto> Arg_int fl] k))"
  using assms
  by (simp add: sys_open_def sys_close_def sys_fstat_def sys_socket_def sys_bind_def
      sys_listen_def sys_pipe2_def syscall_defs NR_defs abi_result)

theorem wrapper_results_witness:
  "fst (sys_close (\<lambda>regs k. (- 9, None, k)) 7 ()) = - 9"
proof -
  have "abi_kernel (\<lambda>regs k. (- 9 :: u64, None, k))"
    by (simp add: abi_kernel_def kernel_result_def)
  from wrapper_results [OF this, of _ _ "()" 7] show ?thesis by simp
qed

end
