(* ===== verification/Http_Request_Safety.thy ===== *)
theory Http_Request_Safety
  imports Http_Request
begin

text \<open>
  Memory safety of the request parser: on a buffer whose bytes from \<open>buflen\<close> on are zero
  (as \<open>string_init\<close> and \<open>string_reset\<close> leave it) every read and write is inside the buffer,
  the only bytes written are terminators below \<open>buflen\<close>, and every pointer stored in the
  request leads to a terminated string inside the buffer.
\<close>

section \<open>Vocabulary\<close>

text \<open>The second buffer is the first with some bytes overwritten by NUL.\<close>

definition nulled :: "cbuf \<Rightarrow> cbuf \<Rightarrow> bool" where
  "nulled mem mem' \<longleftrightarrow> length mem' = length mem
     \<and> (\<forall>i < length mem. mem' ! i = mem ! i \<or> mem' ! i = NUL)"

definition zero_tail :: "cbuf \<Rightarrow> nat \<Rightarrow> bool" where
  "zero_tail mem n \<longleftrightarrow> (\<forall>i. n \<le> i \<longrightarrow> i < length mem \<longrightarrow> mem ! i = NUL)"

definition ptr_in :: "nat \<Rightarrow> cptr option \<Rightarrow> bool" where
  "ptr_in n p \<longleftrightarrow> (\<exists>i. p = Some (Buf i) \<and> i \<le> n)"

definition kv_in :: "nat \<Rightarrow> kv \<Rightarrow> bool" where
  "kv_in n t \<longleftrightarrow> kv_provided t \<and> (\<forall>e \<in> set (kv_entries t). ptr_in n (fst e) \<and> ptr_in n (snd e))"

text \<open>The request a handler starts from: no method, path or protocol, two empty tables.\<close>

definition empty_request :: http_request where
  "empty_request = \<lparr>rq_method = 0, rq_path = None, rq_protocol = None, rq_conn = None,
     rq_query = empty_kv 20, rq_headers = empty_kv 20\<rparr>"

text \<open>An allocator that grants everything and hands out zeroed memory.\<close>

definition some_env :: mem_env where
  "some_env = \<lparr>me_alloc = (\<lambda>_. True), me_fill = (\<lambda>_. NUL), me_pair = (\<lambda>_. null_pair)\<rparr>"

lemma nulled_refl [simp]: "nulled mem mem"
  by (simp add: nulled_def)

lemma nulled_trans [trans]: "nulled a b \<Longrightarrow> nulled b c \<Longrightarrow> nulled a c"
  unfolding nulled_def by metis

lemma nulled_poke: "nulled mem (mem[i := NUL])"
  by (cases "i < length mem") (auto simp: nulled_def nth_list_update)

lemma nulled_poke_trans: "nulled (mem[i := NUL]) mem' \<Longrightarrow> nulled mem mem'"
  using nulled_poke nulled_trans by blast

lemma nulled_poke2: "nulled mem (mem[i := NUL, j := NUL])"
  using nulled_poke nulled_trans by blast

lemma nulled_length: "nulled mem mem' \<Longrightarrow> length mem' = length mem"
  by (simp add: nulled_def)

lemma nulled_nul: "nulled mem mem' \<Longrightarrow> z < length mem \<Longrightarrow> mem ! z = NUL \<Longrightarrow> mem' ! z = NUL"
  unfolding nulled_def by metis

lemma poke_nul_keeps: "mem ! z = NUL \<Longrightarrow> z < length mem \<Longrightarrow> mem[i := NUL] ! z = NUL"
  by (cases "i = z") auto

lemma nulled_zero_tail: "nulled mem mem' \<Longrightarrow> zero_tail mem n \<Longrightarrow> zero_tail mem' n"
  unfolding nulled_def zero_tail_def by metis

lemma to_size_t_ge:
  assumes "\<not> to_size_t i < numeral k" and "0 \<le> i"
  shows "uint (numeral k :: u64) \<le> i"
proof -
  have "uint (to_size_t i) = i mod 2 ^ 64"
    by (simp add: to_size_t_def uint_word_of_int)
  then have "uint (to_size_t i) \<le> i"
    using assms(2) zmod_le_nonneg_dividend by simp
  with assms(1) show ?thesis by (simp add: word_less_def)
qed

lemma table_set_provided:
  "kv_provided t \<Longrightarrow>
     table_set env t k v = Some (snd (kv_put t (Some (Buf k), Some (Buf v))))"
  by (simp add: table_set_def kv_set_provided)

lemma table_set_in:
  assumes "kv_in n t" and "k \<le> n" and "v \<le> n"
  shows "\<exists>t'. table_set env t k v = Some t' \<and> kv_in n t'"
proof -
  let ?e = "(Some (Buf k), Some (Buf v))"
  have t: "kv_provided t" using assms(1) by (simp add: kv_in_def)
  have "set (kv_entries (snd (kv_put t ?e))) \<subseteq> set (kv_entries t) \<union> {?e}"
    using provided.put_entries(1) [OF t, of ?e] by (auto dest: in_set_takeD)
  moreover have "kv_provided (snd (kv_put t ?e))" by (rule provided.put_invar [OF t])
  ultimately have "kv_in n (snd (kv_put t ?e))"
    using assms unfolding kv_in_def ptr_in_def by fastforce
  with t show ?thesis by (simp add: table_set_provided)
qed

section \<open>The loops\<close>

lemma delimiters [simp]:
  "CHR ''='' \<noteq> NUL" "CHR ''&'' \<noteq> NUL" "CHR '':'' \<noteq> NUL" "CHR ''?'' \<noteq> NUL" "CR \<noteq> NUL" "SP \<noteq> NUL"
  by simp_all

lemma strchr_in [consumes 4, case_names miss hit]:
  assumes "i \<le> n" and "n < length mem" and "mem ! n = NUL" and "c \<noteq> NUL"
  obtains (miss) "strchr mem i c = Some None"
    | (hit) j where "strchr mem i c = Some (Some j)" and "i \<le> j" and "j < n" and "mem ! j = c"
proof (cases "strchr mem i c")
  case None
  with strchr_defined [OF assms(1-3), of c] show thesis by simp
next
  case (Some r)
  show thesis
  proof (cases r)
    case None
    with Some miss show thesis by simp
  next
    case (Some j)
    with \<open>strchr mem i c = Some r\<close> have j: "strchr mem i c = Some (Some j)" by simp
    note f = strchr_found [OF j]
    have "j < n"
    proof (rule ccontr)
      assume "\<not> j < n"
      with f(3,4) assms show False by (cases "j = n") auto
    qed
    with hit j f show thesis by blast
  qed
qed

lemma trim_spaces_in:
  assumes "p \<le> bufend" and "bufend \<le> length mem"
  shows "\<exists>q. trim_spaces mem p bufend = Some q \<and> p \<le> q \<and> q \<le> bufend"
  using assms
proof (induction mem p bufend rule: trim_spaces.induct)
  case (1 mem p bufend)
  show ?case
  proof (cases "p < bufend \<and> mem ! p = SP")
    case True
    with "1" have "\<exists>q. trim_spaces mem (Suc p) bufend = Some q \<and> Suc p \<le> q \<and> q \<le> bufend"
      by simp
    with True "1.prems" show ?thesis by (subst trim_spaces.simps) auto
  next
    case False
    with "1.prems" show ?thesis by (subst trim_spaces.simps) auto
  qed
qed

lemma query_body_safe:
  assumes "query < eop" and "eop \<le> n" and "n < length mem" and "mem ! n = NUL"
    and "kv_in n (rq_query req)"
  shows "\<exists>t mem' q'. query_body env req mem query eop = Some (req\<lparr>rq_query := t\<rparr>, mem', q')
     \<and> nulled mem mem' \<and> kv_in n t"
proof -
  have stop: "\<exists>t mem' q'. Some (req, mem, None) = Some (req\<lparr>rq_query := t\<rparr>, mem', q' :: nat option)
      \<and> nulled mem mem' \<and> kv_in n t"
    using assms(5) by (intro exI [of _ "rq_query req"]) simp
  have q: "query \<le> n" using assms by simp
  from q assms(3,4) delimiters(1) show ?thesis
  proof (cases rule: strchr_in)
    case miss
    then have "query_body env req mem query eop = Some (req, mem, None)"
      by (simp add: query_body_def)
    with stop show ?thesis by simp
  next
    case (hit sep)
    let ?m = "mem[sep := NUL]"
    obtain t where t: "table_set env (rq_query req) query (sep + 1) = Some t" "kv_in n t"
      using table_set_in [OF assms(5) q, of "sep + 1" env] hit by auto
    have s: "sep + 1 \<le> n" and m: "n < length ?m" "?m ! n = NUL" "sep < length mem"
      using hit(3) assms(3) poke_nul_keeps [OF assms(4,3), of sep] by simp_all
    from s m(1,2) delimiters(2) show ?thesis
    proof (cases rule: strchr_in)
      case miss
      then have "query_body env req mem query eop =
          (if eop \<le> sep then Some (req, mem, None) else Some (req\<lparr>rq_query := t\<rparr>, ?m, None))"
        using hit(1) t(1) m(3) by (simp add: query_body_def poke_in)
      with stop t(2) nulled_poke show ?thesis by auto
    next
      case e: (hit e)
      then have "query_body env req mem query eop =
          (if eop \<le> sep then Some (req, mem, None)
           else if eop \<le> e then Some (req\<lparr>rq_query := t\<rparr>, ?m, None)
           else Some (req\<lparr>rq_query := t\<rparr>, ?m[e := NUL], Some (e + 1)))"
        using hit(1) t(1) m(1,3) by (simp add: query_body_def poke_in)
      with stop t(2) nulled_poke nulled_poke2 show ?thesis by auto
    qed
  qed
qed

lemma parse_query_safe:
  assumes "eop \<le> n" and "n < length mem" and "mem ! n = NUL" and "kv_in n (rq_query req)"
  shows "\<exists>t mem'. parse_query env req mem query eop = Some (req\<lparr>rq_query := t\<rparr>, mem')
     \<and> nulled mem mem' \<and> kv_in n t"
  using assms
proof (induction env req mem query eop rule: parse_query.induct)
  case (1 env req mem query eop)
  show ?case
  proof (cases "query < eop")
    case False
    with "1.prems"(4) show ?thesis
      by (subst parse_query.simps) (auto intro!: exI [of _ "rq_query req"])
  next
    case True
    obtain t mem' q' where b: "query_body env req mem query eop = Some (req\<lparr>rq_query := t\<rparr>, mem', q')"
      "nulled mem mem'" "kv_in n t"
      using query_body_safe [OF True "1.prems"] by blast
    show ?thesis
    proof (cases q')
      case None
      with b True show ?thesis by (subst parse_query.simps) auto
    next
      case (Some q)
      have "n < length mem'" "mem' ! n = NUL"
        using nulled_nul [OF b(2) "1.prems"(2,3)] nulled_length [OF b(2)] "1.prems"(2) by simp_all
      then obtain t' mem'' where
        "parse_query env (req\<lparr>rq_query := t\<rparr>) mem' q eop = Some (req\<lparr>rq_query := t'\<rparr>, mem'')"
        "nulled mem' mem''" "kv_in n t'"
        using "1.IH" [OF _ b(1) refl refl Some] True "1.prems"(1) b(3) by auto
      with b Some True show ?thesis
        by (subst parse_query.simps) (auto intro: nulled_trans)
    qed
  qed
qed

lemma header_body_safe:
  assumes "start \<le> n" and "n < length mem" and "mem ! n = NUL" and "kv_in n (rq_headers req)"
  shows "\<exists>t mem' s' stop. header_body env req mem start = Some (req\<lparr>rq_headers := t\<rparr>, mem', s', stop)
     \<and> nulled mem mem' \<and> kv_in n t"
proof -
  have keep: "\<exists>t mem' s' stop. Some (req, mem, x, y) = Some (req\<lparr>rq_headers := t\<rparr>, mem', s' :: nat, stop :: bool)
      \<and> nulled mem mem' \<and> kv_in n t" for x y
    using assms(4) by (intro exI [of _ "rq_headers req"]) simp
  from assms(1-3) delimiters(5) show ?thesis
  proof (cases rule: strchr_in)
    case miss
    then have eq: "header_body env req mem start = Some (req, mem, start, True)"
      by (simp add: header_body_def)
    show ?thesis unfolding eq by (rule keep)
  next
    case (hit e)
    from assms(1-3) delimiters(3) show ?thesis
    proof (cases rule: strchr_in)
      case miss
      with hit(1) have "header_body env req mem start =
          (if to_size_t (int e - int start) < 5 then Some (req, mem, e, True)
           else Some (req, mem, e + 2, False))"
        by (simp add: header_body_def)
      with keep show ?thesis by (auto simp: ex_bool_eq)
    next
      case s: (hit s)
      obtain t where t: "s < e \<Longrightarrow> table_set env (rq_headers req) start (s + 2) = Some t" "kv_in n t"
        using table_set_in [OF assms(4,1), of "s + 2" env] hit assms(4) by (cases "s < e") auto
      have "header_body env req mem start =
          (if to_size_t (int e - int start) < 5 then Some (req, mem, e, True)
           else if s < e then Some (req\<lparr>rq_headers := t\<rparr>, mem[s := NUL, e := NUL], e + 2, False)
           else Some (req, mem, e + 2, False))"
        using hit(1,3) s(1,3) t(1) assms(2) by (simp add: header_body_def poke_in)
      with keep t(2) nulled_poke2 show ?thesis by auto
    qed
  qed
qed

lemma parse_headers_safe:
  assumes "n < length mem" and "mem ! n = NUL" and "kv_in n (rq_headers req)"
  shows "\<exists>t mem' s'. parse_headers env req mem start n = Some (req\<lparr>rq_headers := t\<rparr>, mem', s')
     \<and> nulled mem mem' \<and> kv_in n t"
  using assms
proof (induction env req mem start n rule: parse_headers.induct)
  case (1 env req mem start n)
  show ?case
  proof (cases "start < n")
    case False
    with "1.prems"(3) show ?thesis
      by (subst parse_headers.simps) (auto intro!: exI [of _ "rq_headers req"])
  next
    case True
    obtain t mem' s' stop where b:
      "header_body env req mem start = Some (req\<lparr>rq_headers := t\<rparr>, mem', s', stop)"
      "nulled mem mem'" "kv_in n t"
      using header_body_safe [of start n mem req env] "1.prems" True by auto
    show ?thesis
    proof (cases stop)
      case True
      with b \<open>start < n\<close> show ?thesis by (subst parse_headers.simps) auto
    next
      case False
      have "n < length mem'" "mem' ! n = NUL"
        using nulled_nul [OF b(2) "1.prems"(1,2)] nulled_length [OF b(2)] "1.prems"(1) by simp_all
      then obtain t' mem'' s'' where
        "parse_headers env (req\<lparr>rq_headers := t\<rparr>) mem' s' n = Some (req\<lparr>rq_headers := t'\<rparr>, mem'', s'')"
        "nulled mem' mem''" "kv_in n t'"
        using "1.IH" [OF _ b(1) refl refl refl] True False b(3) by auto
      with b False True show ?thesis
        by (subst parse_headers.simps) (auto intro: nulled_trans)
    qed
  qed
qed

section \<open>The stages\<close>

lemma find_method_in: "find_method ms w = Some e \<Longrightarrow> e \<in> set ms \<and> me_strn e = w"
  by (induction ms) (auto split: if_splits)

lemma methods_bounds: "e \<in> set methods \<Longrightarrow> 3 \<le> me_length e \<and> me_length e \<le> 7 \<and> me_mask e \<noteq> 0"
  by (auto simp: methods_def METHOD_defs)

lemma http_parse_method_safe:
  assumes "n < length mem"
  shows "\<exists>r m p. http_parse_method req mem 0 n = Some (r, req\<lparr>rq_method := m\<rparr>, p)
     \<and> (p \<le> n \<or> p \<le> 7 \<and> n < p) \<and> m \<in> insert (rq_method req) (me_mask ` set methods)"
proof -
  have len: "me_length e \<le> 7" if "find_method methods w = Some e" for w e
    using that find_method_in methods_bounds by blast
  show ?thesis
  proof (cases "int n - int 0 < 4")
    case True
    then show ?thesis
      by (auto simp: http_parse_method_def intro!: exI [of _ "rq_method req"])
  next
    case False
    then have "str_to_int32 mem 0 \<noteq> None" using assms by (simp add: str_to_int32_def)
    then obtain w where w: "str_to_int32 mem 0 = Some w" by blast
    show ?thesis
    proof (cases "find_method methods w")
      case None
      with w False show ?thesis
        by (auto simp: http_parse_method_def intro!: exI [of _ "rq_method req"])
    next
      case (Some e)
      with w False len [OF Some] find_method_in [OF Some] show ?thesis
        by (auto simp: http_parse_method_def intro!: exI [of _ "me_mask e"])
    qed
  qed
qed

lemma http_parse_path_safe:
  assumes n: "n < length mem" and nul: "zero_tail mem n" and q: "kv_in n (rq_query req)"
    and p: "p < length mem"
  shows "(\<exists>r. http_parse_path env req mem p n = Some (r, req, mem, p))
     \<or> (\<exists>r t mem' p'. http_parse_path env req mem p n
          = Some (r, req\<lparr>rq_query := t, rq_path := Some (Buf p)\<rparr>, mem', p')
        \<and> nulled mem mem' \<and> kv_in n t \<and> p < p' \<and> p' \<le> n)"
proof (cases "to_size_t (int n - int p) < 13 \<or> mem ! p \<noteq> CHR ''/''")
  case True
  with p show ?thesis by (auto simp: http_parse_path_def peek_in)
next
  case False
  have z: "mem ! n = NUL" using n nul by (simp add: zero_tail_def)
  have pn: "p \<le> n"
  proof (rule ccontr)
    assume "\<not> p \<le> n"
    with nul p False show False by (auto simp: zero_tail_def)
  qed
  from pn n z delimiters(6) show ?thesis
  proof (cases rule: strchr_in)
    case miss
    with False p show ?thesis by (auto simp: http_parse_path_def peek_in)
  next
    case (hit e)
    have goal: ?thesis if "http_parse_path env req mem p n =
        Some (int (e + 1) - int p, req\<lparr>rq_query := t, rq_path := Some (Buf p)\<rparr>, m[e := NUL], e + 1)"
      and "nulled mem m" and "kv_in n t" for t m
      using that hit(2,3) nulled_trans [OF that(2) nulled_poke] by auto
    from pn n z delimiters(4) show ?thesis
    proof (cases rule: strchr_in)
      case miss
      with False p hit n q show ?thesis
        by (intro goal [of "rq_query req" mem]) (simp_all add: http_parse_path_def peek_in poke_in)
    next
      case qh: (hit k)
      let ?m = "mem[k := NUL]"
      obtain t m where b: "parse_query env req ?m (k + 1) e = Some (req\<lparr>rq_query := t\<rparr>, m)"
        "nulled ?m m" "kv_in n t"
        using parse_query_safe [of e n ?m req env "k + 1"] hit(3) n q poke_nul_keeps [OF z n, of k]
        by auto
      show ?thesis
      proof (cases "k < e")
        case True
        with False p hit(1,3) n qh(1,3) b nulled_length [OF b(2)] show ?thesis
          by (intro goal [of t m]) (simp_all add: http_parse_path_def peek_in poke_in nulled_poke_trans)
      next
        case ge: False
        with False p hit(1,3) n q qh(1) show ?thesis
          by (intro goal [of "rq_query req" mem]) (simp_all add: http_parse_path_def peek_in poke_in)
      qed
    qed
  qed
qed

lemma http_parse_protocol_safe:
  assumes "n < length mem" and "mem ! n = NUL" and "p \<le> n"
  shows "(\<exists>r. http_parse_protocol req mem p n = Some (r, req, mem, p))
     \<or> (\<exists>r mem' p'. http_parse_protocol req mem p n
          = Some (r, req\<lparr>rq_protocol := Some (Buf p)\<rparr>, mem', p') \<and> nulled mem mem')"
proof (cases "to_size_t (int n - int p) < 11")
  case True
  then show ?thesis by (simp add: http_parse_protocol_def)
next
  case False
  with to_size_t_ge [OF False] assms(1,3) have "p + 4 \<le> length mem" by simp
  then obtain w where w: "str_to_int32 mem p = Some w" by (simp add: str_to_int32_def)
  from assms(3,1,2) delimiters(5) show ?thesis
  proof (cases rule: strchr_in)
    case miss
    with False show ?thesis by (simp add: http_parse_protocol_def)
  next
    case (hit e)
    with False w assms(1) nulled_poke show ?thesis
      by (simp add: http_parse_protocol_def poke_in)
  qed
qed

section \<open>The whole parser\<close>

text \<open>Every pointer held by a request is into the first \<open>n + 1\<close> bytes of the buffer.\<close>

definition request_in :: "nat \<Rightarrow> http_request \<Rightarrow> bool" where
  "request_in n req \<longleftrightarrow> kv_in n (rq_query req) \<and> kv_in n (rq_headers req)
     \<and> (rq_path req = None \<or> ptr_in n (rq_path req))
     \<and> (rq_protocol req = None \<or> ptr_in n (rq_protocol req))"

definition parse_post :: "int set \<Rightarrow> cbuf \<Rightarrow> nat \<Rightarrow> (int \<times> http_request \<times> cbuf) option \<Rightarrow> bool" where
  "parse_post ms mem n res \<longleftrightarrow>
     (\<exists>r req' mem'. res = Some (r, req', mem') \<and> nulled mem mem' \<and> request_in n req' \<and> rq_method req' \<in> ms
        \<and> (r = 0 \<or> r = 1 \<and> rq_method req' \<noteq> 0 \<and> rq_path req' \<noteq> None \<and> rq_protocol req' \<noteq> None))"

lemma ptr_in_readable:
  assumes "ptr_in n p" and "n < length mem" and "mem ! n = NUL"
  shows "\<exists>q s. p = Some q \<and> deref mem q = Some s"
proof -
  obtain i where i: "p = Some (Buf i)" "i \<le> n" using assms(1) by (auto simp: ptr_in_def)
  then have "cstr mem i \<noteq> None" using assms(2,3) cstr_defined_iff by blast
  with i show ?thesis by auto
qed

lemma parse_stages_headers:
  assumes "n < length mem" and "mem ! n = NUL" and "request_in n req" and "rq_method req \<noteq> 0"
    and "rq_path req \<noteq> None" and "rq_protocol req \<noteq> None" and "nulled mem0 mem"
    and "rq_method req \<in> ms"
  shows "parse_post ms mem0 n (http_parse_headers env req mem p n \<bind>
     (\<lambda>(r4, req4, mem4, p5). Some (1, req4, mem4)))"
proof -
  obtain t mem' s' where "parse_headers env req mem p n = Some (req\<lparr>rq_headers := t\<rparr>, mem', s')"
    "nulled mem mem'" "kv_in n t"
    using parse_headers_safe [of n mem req env p] assms by (auto simp: request_in_def)
  with assms nulled_trans show ?thesis
    by (auto simp: http_parse_headers_def parse_post_def request_in_def)
qed

lemma parse_stages_protocol:
  assumes "n < length mem" and "mem ! n = NUL" and "request_in n req" and "rq_method req \<noteq> 0"
    and "rq_path req \<noteq> None" and "rq_protocol req = None" and "p \<le> n" and "nulled mem0 mem"
    and "rq_method req \<in> ms"
  shows "parse_post ms mem0 n (http_parse_protocol req mem p n \<bind> (\<lambda>(r3, req3, mem3, p4).
     if rq_protocol req3 = None then Some (0, req3, mem3)
     else http_parse_headers env req3 mem3 p4 n \<bind> (\<lambda>(r4, req4, mem4, p5). Some (1, req4, mem4))))"
  using http_parse_protocol_safe [OF assms(1,2,7), of req]
proof
  assume "\<exists>r. http_parse_protocol req mem p n = Some (r, req, mem, p)"
  with assms show ?thesis by (auto simp: parse_post_def)
next
  assume "\<exists>r mem' p'. http_parse_protocol req mem p n
      = Some (r, req\<lparr>rq_protocol := Some (Buf p)\<rparr>, mem', p') \<and> nulled mem mem'"
  then obtain r mem' p' where r: "http_parse_protocol req mem p n
      = Some (r, req\<lparr>rq_protocol := Some (Buf p)\<rparr>, mem', p')" "nulled mem mem'" by blast
  have "n < length mem'" "mem' ! n = NUL"
    using nulled_nul [OF r(2) assms(1,2)] nulled_length [OF r(2)] assms(1) by simp_all
  moreover have "request_in n (req\<lparr>rq_protocol := Some (Buf p)\<rparr>)"
    using assms(3,7) by (simp add: request_in_def ptr_in_def)
  moreover have "nulled mem0 mem'" using assms(8) r(2) by (rule nulled_trans)
  ultimately show ?thesis
    using parse_stages_headers [of n mem' "req\<lparr>rq_protocol := Some (Buf p)\<rparr>" mem0 ms env p'] assms r(1)
    by simp
qed

lemma parse_stages_path:
  assumes n: "n < length mem" and tail: "zero_tail mem n" and req: "request_in n req"
    and meth: "rq_method req \<noteq> 0" and "rq_path req = None" and proto: "rq_protocol req = None"
    and q: "q < length mem" and ms: "rq_method req \<in> ms"
  shows "parse_post ms mem n (http_parse_path env req mem q n \<bind> (\<lambda>(r2, req2, mem2, p3).
      if rq_path req2 = None then Some (0, req2, mem2)
      else http_parse_protocol req2 mem2 p3 n \<bind> (\<lambda>(r3, req3, mem3, p4).
        if rq_protocol req3 = None then Some (0, req3, mem3)
        else http_parse_headers env req3 mem3 p4 n \<bind> (\<lambda>(r4, req4, mem4, p5). Some (1, req4, mem4)))))"
proof -
  have "kv_in n (rq_query req)" using req by (simp add: request_in_def)
  from http_parse_path_safe [OF n tail this q, of env] show ?thesis
  proof
    assume "\<exists>r. http_parse_path env req mem q n = Some (r, req, mem, q)"
    with assms show ?thesis by (auto simp: parse_post_def)
  next
    assume "\<exists>r t mem' p'. http_parse_path env req mem q n
        = Some (r, req\<lparr>rq_query := t, rq_path := Some (Buf q)\<rparr>, mem', p')
        \<and> nulled mem mem' \<and> kv_in n t \<and> q < p' \<and> p' \<le> n"
    then obtain r2 t mem' p' where r: "http_parse_path env req mem q n
        = Some (r2, req\<lparr>rq_query := t, rq_path := Some (Buf q)\<rparr>, mem', p')"
      "nulled mem mem'" "kv_in n t" "q < p'" "p' \<le> n" by blast
    let ?req2 = "req\<lparr>rq_query := t, rq_path := Some (Buf q)\<rparr>"
    have "mem ! n = NUL" using tail n by (simp add: zero_tail_def)
    then have "n < length mem'" "mem' ! n = NUL"
      using nulled_nul [OF r(2) n] nulled_length [OF r(2)] n by simp_all
    moreover have "request_in n ?req2"
      using req r(3-5) by (simp add: request_in_def ptr_in_def)
    ultimately show ?thesis
      using parse_stages_protocol [of n mem' ?req2 p' mem ms env] r(1,2,5) meth proto ms by simp
  qed
qed

lemma http_parse_request_post:
  assumes "8 \<le> length mem" and n: "n < length mem" and tail: "zero_tail mem n"
    and req: "request_in n req" and "rq_path req = None" and "rq_protocol req = None"
  shows "parse_post (insert (rq_method req) (me_mask ` set methods)) mem n (http_parse_request env req mem n)"
proof -
  obtain r m p where meth: "http_parse_method req mem 0 n = Some (r, req\<lparr>rq_method := m\<rparr>, p)"
    "p \<le> n \<or> p \<le> 7 \<and> n < p" "m \<in> insert (rq_method req) (me_mask ` set methods)"
    using http_parse_method_safe [OF n] by blast
  let ?req = "req\<lparr>rq_method := m\<rparr>"
  have "\<exists>q. trim_spaces mem p n = Some q \<and> (q \<le> n \<or> q \<le> 7)"
  proof (cases "p \<le> n")
    case True
    then show ?thesis using trim_spaces_in [of p n mem] n by auto
  next
    case False
    then show ?thesis using meth(2) by (subst trim_spaces.simps) simp
  qed
  then obtain q where trim: "trim_spaces mem p n = Some q" "q \<le> n \<or> q \<le> 7" by blast
  have q: "q < length mem" using trim(2) n assms(1) by auto
  have req1: "request_in n ?req" using req by (simp add: request_in_def)
  show ?thesis
  proof (cases "m = 0")
    case True
    with meth(1,3) req1 show ?thesis by (simp add: http_parse_request_def parse_post_def)
  next
    case False
    with parse_stages_path [OF n tail req1, of q _ env] q assms(5,6) meth(1,3) trim(1) show ?thesis
      by (simp add: http_parse_request_def)
  qed
qed

section \<open>Properties\<close>

lemma empty_request_in: "request_in n empty_request"
  using empty_kv_provided [of 20] empty_kv_simps [of 20]
  by (simp add: request_in_def empty_request_def kv_in_def)

text \<open>
  C8. Memory safety of \<open>http_parse_request\<close>: on any \<open>buflen\<close> received bytes, in a block of
  at least 8 bytes that is zero from \<open>buflen\<close> on, the parser never reads or writes outside
  the block; it only overwrites bytes with NUL and leaves the zero tail; it returns 0 or 1,
  and 1 only with a method, a path and a protocol; and every pointer it stores leads to a
  terminated string inside the block.
\<close>

theorem http_parse_request_safe:
  assumes "8 \<le> length mem" and "n < length mem" and "zero_tail mem n"
    and "request_in n req" and "rq_path req = None" and "rq_protocol req = None"
  shows "\<exists>r req' mem'. http_parse_request env req mem n = Some (r, req', mem')
     \<and> nulled mem mem' \<and> zero_tail mem' n \<and> request_in n req'
     \<and> (r = 0 \<or> r = 1 \<and> rq_method req' \<noteq> 0 \<and> rq_path req' \<noteq> None \<and> rq_protocol req' \<noteq> None)
     \<and> (\<forall>p. ptr_in n p \<longrightarrow> (\<exists>q s. p = Some q \<and> deref mem' q = Some s))"
proof -
  obtain r req' mem' where p: "http_parse_request env req mem n = Some (r, req', mem')"
    "nulled mem mem'" "request_in n req'"
    "r = 0 \<or> r = 1 \<and> rq_method req' \<noteq> 0 \<and> rq_path req' \<noteq> None \<and> rq_protocol req' \<noteq> None"
    using http_parse_request_post [OF assms, of env] unfolding parse_post_def by blast
  have z: "zero_tail mem' n" using p(2) assms(3) by (rule nulled_zero_tail)
  then have "n < length mem'" "mem' ! n = NUL"
    using nulled_length [OF p(2)] assms(2) by (simp_all add: zero_tail_def)
  with p z ptr_in_readable show ?thesis by blast
qed

theorem http_parse_request_safe_witness:
  "\<exists>r req' mem'. http_parse_request some_env empty_request (''DELE'' @ replicate 4 NUL) 4 = Some (r, req', mem')
     \<and> zero_tail mem' 4"
proof -
  have "zero_tail (''DELE'' @ replicate 4 NUL) 4" by (auto simp: zero_tail_def nth_append)
  with http_parse_request_safe [of "''DELE'' @ replicate 4 NUL" 4 empty_request some_env] empty_request_in
  show ?thesis by (auto simp: empty_request_def)
qed

text \<open>
  A request as the rest of the server may rely on it: the method is none or one of the nine
  masks of the method table; path and protocol are NULL or lead to C strings in the buffer;
  the tables are well formed, and all their keys and values are C strings.
\<close>

definition typed_request :: "cbuf \<Rightarrow> http_request \<Rightarrow> bool" where
  "typed_request mem req \<longleftrightarrow> rq_method req \<in> insert 0 (me_mask ` set methods)
     \<and> (\<forall>p \<in> {rq_path req, rq_protocol req}. p = None \<or> (\<exists>s. p \<bind> deref mem = Some s))
     \<and> (\<forall>t \<in> {rq_query req, rq_headers req}. kv_wf t
          \<and> (\<forall>(k, v) \<in> set (kv_entries t). \<exists>a b. k \<bind> deref mem = Some a \<and> v \<bind> deref mem = Some b))"

lemma request_in_typed:
  assumes "request_in n req" and "n < length mem" and "mem ! n = NUL"
    and "rq_method req \<in> insert 0 (me_mask ` set methods)"
  shows "typed_request mem req"
proof -
  have r: "\<exists>s. p \<bind> deref mem = Some s" if "ptr_in n p" for p
    using ptr_in_readable [OF that assms(2,3)] by auto
  show ?thesis
    using assms(1,4) r unfolding typed_request_def request_in_def kv_in_def kv_provided_def by fastforce
qed

text \<open>
  C19. Whatever the client sends, and whether or not the request is accepted,
  \<open>http_parse_request\<close> leaves a well-typed request, with a method of the method table, if
  it was given a cleared one.
\<close>

theorem http_parse_request_typed:
  assumes "8 \<le> length mem" and "n < length mem" and "zero_tail mem n"
    and "request_in n req" and "rq_method req = 0" and "rq_path req = None" and "rq_protocol req = None"
    and "http_parse_request env req mem n = Some (r, req', mem')"
  shows "typed_request mem' req' \<and> r \<in> {0, 1}"
proof -
  have p: "nulled mem mem'" "request_in n req'" "rq_method req' \<in> insert 0 (me_mask ` set methods)" "r \<in> {0, 1}"
    using http_parse_request_post [OF assms(1-4,6,7), of env] assms(5,8) unfolding parse_post_def by auto
  have "zero_tail mem' n" using p(1) assms(3) by (rule nulled_zero_tail)
  then have "n < length mem'" "mem' ! n = NUL"
    using nulled_length [OF p(1)] assms(2) by (simp_all add: zero_tail_def)
  with p request_in_typed show ?thesis by blast
qed

theorem http_parse_request_typed_witness:
  "\<exists>r req' mem'. http_parse_request some_env empty_request (''DELE'' @ replicate 4 NUL) 4 = Some (r, req', mem')
     \<and> typed_request mem' req'"
proof -
  let ?mem = "''DELE'' @ replicate 4 NUL"
  have z: "8 \<le> length ?mem" "4 < length ?mem" "zero_tail ?mem 4" by (auto simp: zero_tail_def nth_append)
  have e: "rq_method empty_request = 0" "rq_path empty_request = None" "rq_protocol empty_request = None"
    by (simp_all add: empty_request_def)
  from http_parse_request_post [OF z empty_request_in e(2,3), of some_env] obtain r req' mem' where
    "http_parse_request some_env empty_request ?mem 4 = Some (r, req', mem')" unfolding parse_post_def by blast
  with http_parse_request_typed [OF z empty_request_in e] show ?thesis by blast
qed

end
