(* ===== verification/Http_Response.thy ===== *)
theory Http_Response
  imports Strbuf Router Syscalls Http_Request_Safety
begin

text \<open>
  Responses: \<open>struct http_response\<close>, the static file handler \<open>global_static_router\<close> and
  \<open>http_compose_response\<close> of \<open>lib/http_parser.c\<close>. The two builds are told apart by the
  flag \<open>watch\<close> (\<open>WATCH_STATIC_FILES\<close>, the debug build). libmagic and \<open>mmap\<close> are
  parameters; the files are behind the kernel of the system call layer. The line buffer
  \<open>tmp\<close> keeps its 1024 bytes, so a \<open>sprintf\<close> that does not fit is \<^term>\<open>None\<close>; so is the
  use of a variable the code has not initialised.
\<close>

section \<open>Model\<close>

subsection \<open>Responses and handlers\<close>

record http_response =
  rs_status :: int
  rs_file :: "cbuf option"
  rs_file_fd :: int
  rs_file_sz :: u64
  rs_str :: "string_t option"
  rs_headers :: kv

definition HANDLER_ERR_SUCCESS :: int where "HANDLER_ERR_SUCCESS = 0"
definition HANDLER_ERR_GENERAL :: int where "HANDLER_ERR_GENERAL = - (push_bit 1 1)"
definition HANDLER_ERR_FILE_NOT_FOUND :: int where "HANDLER_ERR_FILE_NOT_FOUND = - (push_bit 3 1)"

lemmas HANDLER_ERR_defs = HANDLER_ERR_SUCCESS_def HANDLER_ERR_GENERAL_def HANDLER_ERR_FILE_NOT_FOUND_def

text \<open>
  The function a route points to: \<open>global_static_router\<close>, or a handler of the application,
  which reads the request (pointers lead into the request buffer), changes the response
  and may change state of its own.
\<close>

datatype 'u handler =
    Global_static
  | Route_fn "cbuf \<Rightarrow> http_request \<Rightarrow> http_response \<Rightarrow> 'u \<Rightarrow> (int \<times> http_response \<times> 'u) option"

text \<open>The route \<open>ROUTER(GET, thisisateapot)\<close> of the library itself.\<close>

definition route_teapot :: "'u handler router" where
  "route_teapot = ROUTER METHOD_GET ''thisisateapot'' (Route_fn (\<lambda>mem req res u. Some (0, res, u)))"

text \<open>The macros handlers use; the results of the calls they stand for are ignored.\<close>

definition SET_RES_HEADER :: "mem_env \<Rightarrow> http_response \<Rightarrow> string \<Rightarrow> string \<Rightarrow> http_response option" where
  "SET_RES_HEADER env res k v =
     do {
       (r, t) \<leftarrow> kv_set_key_value (me_alloc env) (me_pair env) (Some (rs_headers res)) (Some (Lit k)) (Some (Lit v));
       t' \<leftarrow> t;
       Some (res\<lparr>rs_headers := t'\<rparr>)
     }"

definition SET_RES_MIME :: "mem_env \<Rightarrow> http_response \<Rightarrow> string \<Rightarrow> http_response option" where
  "SET_RES_MIME env res v =
     do {
       (r, t) \<leftarrow> kv_set_key_value (me_alloc env) (me_pair env) (Some (rs_headers res))
                  (Some (Lit ''Content-Type'')) (Some (Lit v));
       t' \<leftarrow> t;
       Some (res\<lparr>rs_headers := t'\<rparr>)
     }"

definition APPEND_RES_BODY :: "mem_env \<Rightarrow> http_response \<Rightarrow> cbuf \<Rightarrow> u64 \<Rightarrow> http_response option" where
  "APPEND_RES_BODY env res c clen =
     do {
       (r, str) \<leftarrow> string_append (me_alloc env) (me_fill env) (rs_str res) c clen;
       Some (res\<lparr>rs_str := str\<rparr>)
     }"

subsection \<open>Static files\<close>

text \<open>The static variable \<open>data\<close>: NULL, \<open>MAP_FAILED\<close> or a mapping with its bytes.\<close>

datatype map_ptr = Map_null | Map_failed | Map_at cbuf

text \<open>\<open>mmap\<close> of a descriptor and a size, and \<open>magic_descriptor\<close> (NULL on failure).\<close>

record 'k static_env =
  se_kern :: "'k kernel"
  se_magic :: "int \<Rightarrow> 'k \<Rightarrow> string option \<times> 'k"
  se_mmap :: "int \<Rightarrow> u64 \<Rightarrow> 'k \<Rightarrow> cbuf option \<times> 'k"

definition O_RDONLY :: int where "O_RDONLY = 0"

text \<open>The field \<open>st_size\<close> after \<open>fstat\<close>: undefined if the kernel did not fill the object.\<close>

fun st_size :: "cobj option \<Rightarrow> u64 option" where
  "st_size (Some (Obj_stat n)) = Some n"
| "st_size _ = None"

text \<open>
  The statements from \<open>STORE_BUF\<close> on, in the build that maps files. The local variables
  \<open>filestat\<close> and \<open>mime_str\<close> are \<^term>\<open>None\<close> as long as nothing has been stored in them, and
  reading them then is undefined; a response has no value for a \<open>file\<close> that is \<open>MAP_FAILED\<close>.
\<close>

fun mapped_file :: "map_ptr \<Rightarrow> cbuf option option" where
  "mapped_file Map_null = Some None"
| "mapped_file (Map_at bytes) = Some (Some bytes)"
| "mapped_file Map_failed = None"

definition store_buf ::
  "mem_env \<Rightarrow> http_response \<Rightarrow> map_ptr \<Rightarrow> u64 option \<Rightarrow> string option \<Rightarrow> 'k \<Rightarrow> (int \<times> http_response \<times> map_ptr \<times> 'k) option"
where
  "store_buf env response data st_sz mime_str k =
     do {
       file \<leftarrow> mapped_file data;
       sz \<leftarrow> st_sz;
       mime \<leftarrow> mime_str;
       res \<leftarrow> SET_RES_MIME env (response\<lparr>rs_file := file, rs_file_sz := sz, rs_status := 200\<rparr>) mime;
       Some (HANDLER_ERR_SUCCESS, res, data, k)
     }"

text \<open>
  \<open>global_static_router\<close>. In the build without \<open>WATCH_STATIC_FILES\<close> the \<open>goto STORE_BUF\<close> of a
  call that finds \<open>data\<close> set jumps over the call of \<open>fstat\<close> and the initialisation of
  \<open>mime_str\<close>.
\<close>

definition global_static_router ::
  "bool \<Rightarrow> mem_env \<Rightarrow> 'k static_env \<Rightarrow> http_response \<Rightarrow> string \<Rightarrow> map_ptr \<Rightarrow> 'k
     \<Rightarrow> (int \<times> http_response \<times> map_ptr \<times> 'k) option"
where
  "global_static_router watch env se response filepath data k =
     (if \<not> watch \<and> data \<noteq> Map_null then store_buf env response data None None k
      else let (fd, k1) = sys_open (se_kern se) filepath O_RDONLY k in
        if fd < 0 then Some (HANDLER_ERR_FILE_NOT_FOUND, response, data, k1)
        else let (r, obj, k2) = sys_fstat (se_kern se) fd (Obj_bytes []) k1 in
          if r < 0 then
            let (r', k3) = sys_close (se_kern se) fd k2
            in Some (HANDLER_ERR_GENERAL, response, data, k3)
          else case se_magic se fd k2 of
            (None, k3) \<Rightarrow> Some (HANDLER_ERR_GENERAL, response, data, k3)
          | (Some mime_str, k3) \<Rightarrow>
              do {
                sz \<leftarrow> st_size obj;
                if watch then do {
                  res \<leftarrow> SET_RES_MIME env
                    (response\<lparr>rs_file_fd := fd, rs_file_sz := sz, rs_status := 200\<rparr>) mime_str;
                  Some (HANDLER_ERR_SUCCESS, res, data, k3)
                }
                else case se_mmap se fd sz k3 of
                  (None, k4) \<Rightarrow> let (r', k5) = sys_close (se_kern se) fd k4
                               in Some (HANDLER_ERR_GENERAL, response, Map_failed, k5)
                | (Some bytes, k4) \<Rightarrow> store_buf env response (Map_at bytes) (Some sz) (Some mime_str) k4
              })"

subsection \<open>Formatted output\<close>

fun dec_nat :: "nat \<Rightarrow> string" where
  "dec_nat n = (if n < 10 then [char_of (48 + n)] else dec_nat (n div 10) @ [char_of (48 + n mod 10)])"

declare dec_nat.simps [simp del]

text \<open>The conversions \<open>%d\<close> and \<open>%ld\<close>; the latter is given a \<open>size_t\<close> and reads a \<open>long\<close>.\<close>

definition fmt_d :: "int \<Rightarrow> string" where
  "fmt_d i = (if i < 0 then CHR ''-'' # dec_nat (nat (- i)) else dec_nat (nat i))"

definition fmt_ld :: "u64 \<Rightarrow> string" where
  "fmt_ld w = fmt_d (sint w)"

text \<open>\<open>sprintf(tmp, ...)\<close> of the formatted text \<open>s\<close>.\<close>

definition sprintf :: "cbuf \<Rightarrow> string \<Rightarrow> cbuf option" where
  "sprintf tmp s =
     (if length s < length tmp then Some (s @ NUL # drop (Suc (length s)) tmp) else None)"

text \<open>\<open>sprintf(tmp, ...); string_append(final, tmp, strlen(tmp));\<close>\<close>

definition emit ::
  "mem_env \<Rightarrow> cbuf \<times> string_t option \<Rightarrow> string \<Rightarrow> (cbuf \<times> string_t option) option"
where
  "emit env st s =
     do {
       tmp \<leftarrow> sprintf (fst st) s;
       n \<leftarrow> strlen tmp 0;
       (b, final) \<leftarrow> string_append (me_alloc env) (me_fill env) (snd st) tmp (of_nat n);
       Some (tmp, final)
     }"

text \<open>\<open>string_append(final, buf, len)\<close>, the result of which is ignored.\<close>

definition append_final ::
  "mem_env \<Rightarrow> string_t option \<Rightarrow> cbuf \<Rightarrow> u64 \<Rightarrow> string_t option option"
where
  "append_final env final b n = map_option snd (string_append (me_alloc env) (me_fill env) final b n)"

subsection \<open>Composition\<close>

definition status_line :: "string \<Rightarrow> int \<Rightarrow> string" where
  "status_line protocol status = protocol @ '' '' @ fmt_d status @ '' OK'' @ [LF]"

definition header_line :: "string \<Rightarrow> string \<Rightarrow> string" where
  "header_line k v = k @ '': '' @ v @ [LF]"

definition length_line :: "u64 \<Rightarrow> string" where
  "length_line n = ''Content-Length: '' @ fmt_ld n @ [LF]"

text \<open>The loop \<open>FOREACH_KV(&res->headers, p)\<close> from index \<open>i\<close>.\<close>

function compose_headers ::
  "mem_env \<Rightarrow> cbuf \<Rightarrow> kv \<Rightarrow> nat \<Rightarrow> cbuf \<times> string_t option \<Rightarrow> (cbuf \<times> string_t option) option"
where
  "compose_headers env mem m i st =
     (if kv_size m \<le> int i then Some st
      else if length (kv_pairs m) \<le> i then None
      else case (kp_key (kv_pairs m ! i), kp_value (kv_pairs m ! i)) of
             (Some kp, Some vp) \<Rightarrow>
               (case (deref mem kp, deref mem vp) of
                  (Some k, Some v) \<Rightarrow>
                    (case emit env st (header_line k v) of
                       None \<Rightarrow> None
                     | Some st' \<Rightarrow> compose_headers env mem m (Suc i) st')
                | _ \<Rightarrow> None)
           | _ \<Rightarrow> None)"
  by pat_completeness auto
termination
  by (relation "measure (\<lambda>(env, mem, m, i, st). nat (kv_size m) - i)") auto

declare compose_headers.simps [simp del]

definition http_compose_response ::
  "mem_env \<Rightarrow> cbuf \<Rightarrow> http_request \<Rightarrow> http_response \<Rightarrow> string_t option
     \<Rightarrow> (int \<times> string_t option) option"
where
  "http_compose_response env mem req res final =
     (case rq_protocol req of
        None \<Rightarrow> Some (0, final)
      | Some p \<Rightarrow> do {
          protocol \<leftarrow> deref mem p;
          let status = (if rs_status res \<noteq> 0 then rs_status res else 200);
          st1 \<leftarrow> emit env (replicate 1024 NUL, final) (status_line protocol status);
          st2 \<leftarrow> (if kv_size (rs_headers res) > 0
                  then compose_headers env mem (rs_headers res) 0 st1 else Some st1);
          case rs_file res of
            Some file \<Rightarrow> do {
              st3 \<leftarrow> emit env st2 (length_line (rs_file_sz res));
              f4 \<leftarrow> append_final env (snd st3) [LF, NUL] 1;
              f5 \<leftarrow> append_final env f4 file (rs_file_sz res);
              Some (1, f5)
            }
          | None \<Rightarrow>
              if rs_file_fd res \<noteq> 0 then do {
                st3 \<leftarrow> emit env st2 (length_line (rs_file_sz res));
                f4 \<leftarrow> append_final env (snd st3) [LF, NUL] 1;
                Some (1, f4)
              }
              else do {
                str \<leftarrow> rs_str res;
                st3 \<leftarrow> emit env st2 (length_line (str_len str));
                f4 \<leftarrow> append_final env (snd st3) [LF, NUL] 1;
                f5 \<leftarrow> append_final env f4 (str_buf str) (str_len str);
                Some (1, f5)
              }
        })"

section \<open>Facts on formatted output\<close>

text \<open>The value of a decimal numeral.\<close>

definition dec_value :: "string \<Rightarrow> nat" where
  "dec_value s = foldl (\<lambda>n c. 10 * n + (of_char c - 48)) 0 s"

lemma of_char_digit: "d < 10 \<Longrightarrow> of_char (char_of (48 + d) :: char) = (48 + d :: nat)"
  by (simp add: of_char_of)

lemma digit_not_NUL: "d < 10 \<Longrightarrow> char_of (48 + d) \<noteq> NUL" for d :: nat
proof
  assume "d < 10" and eq: "char_of (48 + d) = NUL"
  then have "of_char (char_of (48 + d) :: char) = 48 + d" by (intro of_char_digit)
  with eq show False by simp
qed

lemma dec_nat_no_nul [simp]: "NUL \<notin> set (dec_nat n)"
  by (induction n rule: dec_nat.induct)
    (subst dec_nat.simps, auto simp: digit_not_NUL [THEN not_sym])

lemma dec_nat_value [simp]: "dec_value (dec_nat n) = n"
proof (induction n rule: dec_nat.induct)
  case (1 n)
  show ?case
  proof (cases "n < 10")
    case True
    then show ?thesis by (subst dec_nat.simps) (simp add: dec_value_def of_char_digit)
  next
    case False
    with 1 have "dec_value (dec_nat (n div 10)) = n div 10" by simp
    with False show ?thesis by (subst dec_nat.simps) (simp add: dec_value_def of_char_digit)
  qed
qed

lemma dec_nat_length: "n < 10 ^ k \<Longrightarrow> 0 < k \<Longrightarrow> length (dec_nat n) \<le> k"
proof (induction n arbitrary: k rule: dec_nat.induct)
  case (1 n)
  show ?case
  proof (cases "n < 10")
    case True
    with 1 show ?thesis by (subst dec_nat.simps) simp
  next
    case False
    with "1.prems" obtain j where k: "k = Suc j" "0 < j"
      by (cases k; cases "k - 1") auto
    with "1.prems" have "n div 10 < 10 ^ j" by (simp add: less_mult_imp_div_less mult.commute)
    with 1 False k have "length (dec_nat (n div 10)) \<le> j" by blast
    with False k show ?thesis by (subst dec_nat.simps) simp
  qed
qed

lemma fmt_d_no_nul [simp]: "NUL \<notin> set (fmt_d i)"
  by (simp add: fmt_d_def)

lemma fmt_d_length:
  assumes "- (10 ^ k) < i" and "i < 10 ^ k" and "0 < k"
  shows "length (fmt_d i) \<le> Suc k"
proof -
  have "nat i < 10 ^ k" "nat (- i) < 10 ^ k"
    using assms by (auto simp: nat_less_iff)
  then show ?thesis
    using assms(3) dec_nat_length [of "nat i" k] dec_nat_length [of "nat (- i)" k] by (simp add: fmt_d_def)
qed

lemma fmt_ld_no_nul [simp]: "NUL \<notin> set (fmt_ld w)"
  by (simp add: fmt_ld_def)

lemma fmt_ld_length: "length (fmt_ld w) \<le> 20"
proof -
  have "- (2 ^ 63) \<le> sint w" "sint w < 2 ^ 63"
    using sint_greater_eq [of w] sint_less [of w] by simp_all
  then show ?thesis using fmt_d_length [of 19 "sint w"] by (simp add: fmt_ld_def)
qed

lemma fmt_ld_nat: "n < 2 ^ 63 \<Longrightarrow> fmt_ld (of_nat n) = dec_nat n"
  by (simp add: fmt_ld_def fmt_d_def sint_uint uint_nat unat_of_nat signed_take_bit_int_eq_self)

lemma sprintf_fits:
  assumes "length s < length tmp"
  shows "\<exists>tmp'. sprintf tmp s = Some tmp' \<and> length tmp' = length tmp \<and> take (length s) tmp' = s
     \<and> (NUL \<notin> set s \<longrightarrow> strlen tmp' 0 = Some (length s))"
  using assms by (auto simp: sprintf_def)

section \<open>Facts on composition\<close>

text \<open>The texts a table leads to, and the whole text of a response.\<close>

definition headers_are :: "cbuf \<Rightarrow> kv \<Rightarrow> (string \<times> string) list \<Rightarrow> bool" where
  "headers_are mem m hs \<longleftrightarrow> kv_wf m
     \<and> map (\<lambda>(k, v). (k \<bind> deref mem, v \<bind> deref mem)) (kv_entries m)
         = map (\<lambda>(k, v). (Some k, Some v)) hs"

definition headers_text :: "(string \<times> string) list \<Rightarrow> string" where
  "headers_text hs = concat (map (\<lambda>(k, v). header_line k v) hs)"

definition response_status :: "http_response \<Rightarrow> int" where
  "response_status res = (if rs_status res = 0 then 200 else rs_status res)"

definition response_length :: "http_response \<Rightarrow> u64" where
  "response_length res =
     (if rs_file res \<noteq> None \<or> rs_file_fd res \<noteq> 0 then rs_file_sz res
      else case rs_str res of Some s \<Rightarrow> str_len s | None \<Rightarrow> 0)"

text \<open>The body that follows in the same buffer; a file sent by \<open>splice\<close> does not.\<close>

definition response_body :: "http_response \<Rightarrow> string" where
  "response_body res =
     (case rs_file res of
        Some file \<Rightarrow> take (unat (rs_file_sz res)) file
      | None \<Rightarrow> if rs_file_fd res \<noteq> 0 then []
                else case rs_str res of Some s \<Rightarrow> contents s | None \<Rightarrow> [])"

definition response_text :: "string \<Rightarrow> (string \<times> string) list \<Rightarrow> http_response \<Rightarrow> string" where
  "response_text protocol hs res =
     status_line protocol (response_status res) @ headers_text hs
       @ length_line (response_length res) @ [LF] @ response_body res"

definition body_ok :: "http_response \<Rightarrow> bool" where
  "body_ok res \<longleftrightarrow> NUL \<notin> set (response_body res) \<and>
     (case rs_file res of
        Some file \<Rightarrow> unat (rs_file_sz res) \<le> length file
      | None \<Rightarrow> rs_file_fd res \<noteq> 0 \<or> (\<exists>s. rs_str res = Some s \<and> string_exact s))"

definition lines_short :: "string \<Rightarrow> (string \<times> string) list \<Rightarrow> http_response \<Rightarrow> bool" where
  "lines_short protocol hs res \<longleftrightarrow> length (status_line protocol (response_status res)) < 1024
     \<and> (\<forall>(k, v) \<in> set hs. length (header_line k v) < 1024)"

lemma emit_ok:
  assumes "length t < length tmp" and "NUL \<notin> set t" and "string_exact s"
    and "length (contents s) + length t < unat (str_capacity s)"
  shows "\<exists>tmp' s'. emit env (tmp, Some s) t = Some (tmp', Some s') \<and> length tmp' = length tmp
     \<and> extended s t s'"
proof -
  obtain tmp' where tmp': "sprintf tmp t = Some tmp'" "length tmp' = length tmp"
    "take (length t) tmp' = t" "strlen tmp' 0 = Some (length t)"
    using sprintf_fits [OF assms(1)] assms(2) by blast
  obtain s' where s': "string_append (me_alloc env) (me_fill env) (Some s) tmp' (of_nat (length t))
      = Some (True, Some s')" and "extended s t s'"
    using string_append_room [OF assms(3,4) tmp'(3) assms(2)] by blast
  with tmp' show ?thesis by (simp add: emit_def)
qed

lemma append_final_ok:
  assumes "string_exact s" and "length (contents s) + length t < unat (str_capacity s)"
    and "take (length t) b = t" and "NUL \<notin> set t" and "unat n = length t"
  shows "\<exists>s'. append_final env (Some s) b n = Some (Some s') \<and> extended s t s'"
proof -
  have "n = of_nat (length t)" by (simp add: assms(5) [symmetric])
  moreover obtain s' where "string_append (me_alloc env) (me_fill env) (Some s) b (of_nat (length t))
      = Some (True, Some s')" and "extended s t s'"
    using string_append_room [OF assms(1-4)] by blast
  ultimately show ?thesis by (simp add: append_final_def)
qed

lemma headers_are_nth:
  assumes "headers_are mem m hs"
  shows "kv_size m = int (length hs)" and "length hs \<le> length (kv_pairs m)"
    and "i < length hs \<Longrightarrow> \<exists>kp vp. kp_key (kv_pairs m ! i) = Some kp \<and> kp_value (kv_pairs m ! i) = Some vp
       \<and> deref mem kp = Some (fst (hs ! i)) \<and> deref mem vp = Some (snd (hs ! i))"
proof -
  let ?f = "\<lambda>(k, v). (k \<bind> deref mem, v \<bind> deref mem)"
  have wf: "kv_wf m" and eq: "map ?f (kv_entries m) = map (\<lambda>(k, v). (Some k, Some v)) hs"
    using assms by (simp_all add: headers_are_def)
  have len: "length (kv_entries m) = length hs" using arg_cong [OF eq, of length] by simp
  with wf show sz: "kv_size m = int (length hs)" and le: "length hs \<le> length (kv_pairs m)"
    by (auto simp: kv_entries_def kv_wf_def)
  assume i: "i < length hs"
  then have "?f (kv_entries m ! i) = (Some (fst (hs ! i)), Some (snd (hs ! i)))"
    using arg_cong [OF eq, of "\<lambda>xs. xs ! i"] len by (simp add: case_prod_beta)
  moreover have "kv_entries m ! i = (kp_key (kv_pairs m ! i), kp_value (kv_pairs m ! i))"
    using i le sz by (simp add: kv_entries_def)
  ultimately show "\<exists>kp vp. kp_key (kv_pairs m ! i) = Some kp \<and> kp_value (kv_pairs m ! i) = Some vp
       \<and> deref mem kp = Some (fst (hs ! i)) \<and> deref mem vp = Some (snd (hs ! i))"
    by (auto simp: bind_Some_iff)
qed

lemma deref_no_nul: "deref mem p = Some s \<Longrightarrow> NUL \<notin> set s"
  by (cases p) (auto dest: cstr_no_nul)

lemma compose_headers_ok:
  assumes hs: "headers_are mem m hs" and short: "\<forall>(k, v) \<in> set hs. length (header_line k v) < length tmp"
    and "string_exact s" and "i \<le> length hs"
    and "length (contents s) + length (headers_text (drop i hs)) < unat (str_capacity s)"
  shows "\<exists>tmp' s'. compose_headers env mem m i (tmp, Some s) = Some (tmp', Some s')
     \<and> length tmp' = length tmp \<and> extended s (headers_text (drop i hs)) s'"
  using assms(2-)
proof (induction "length hs - i" arbitrary: i tmp s)
  case 0
  with headers_are_nth(1) [OF hs] show ?case
    by (subst compose_headers.simps) (simp add: headers_text_def extended_def)
next
  case (Suc d)
  let ?k = "fst (hs ! i)" and ?v = "snd (hs ! i)"
  from Suc have i: "i < length hs" by simp
  then obtain kp vp where kv: "kp_key (kv_pairs m ! i) = Some kp" "kp_value (kv_pairs m ! i) = Some vp"
    "deref mem kp = Some ?k" "deref mem vp = Some ?v"
    using headers_are_nth(3) [OF hs] by blast
  have split: "headers_text (drop i hs) = header_line ?k ?v @ headers_text (drop (Suc i) hs)"
    using i by (simp add: headers_text_def Cons_nth_drop_Suc [symmetric] case_prod_beta)
  have nn: "NUL \<notin> set (header_line ?k ?v)"
    using kv(3,4)[THEN deref_no_nul] by (simp add: header_line_def)
  have len: "length (header_line ?k ?v) < length tmp"
    using Suc.prems(1) nth_mem [OF i] by (auto simp: case_prod_beta)
  obtain tmp' s' where e: "emit env (tmp, Some s) (header_line ?k ?v) = Some (tmp', Some s')"
    "length tmp' = length tmp" "extended s (header_line ?k ?v) s'"
    using emit_ok [OF len nn Suc.prems(2)] Suc.prems(4) split by fastforce
  have "\<exists>tmp'' s''. compose_headers env mem m (Suc i) (tmp', Some s') = Some (tmp'', Some s'')
     \<and> length tmp'' = length tmp' \<and> extended s' (headers_text (drop (Suc i) hs)) s''"
    using Suc e i split by (intro Suc.hyps(1)) (auto simp: extended_def)
  then obtain tmp'' s'' where r: "compose_headers env mem m (Suc i) (tmp', Some s') = Some (tmp'', Some s'')"
     "length tmp'' = length tmp'" "extended s' (headers_text (drop (Suc i) hs)) s''" by blast
  have "compose_headers env mem m i (tmp, Some s) = Some (tmp'', Some s'')"
    using i headers_are_nth(1,2) [OF hs] kv e(1) r(1) by (subst compose_headers.simps) simp
  with e r split show ?case by (auto intro: extended_trans)
qed

text \<open>The three branches for the body have one shape.\<close>

definition compose_tail ::
  "mem_env \<Rightarrow> cbuf \<times> string_t option \<Rightarrow> u64 \<Rightarrow> (cbuf \<times> u64) option \<Rightarrow> (int \<times> string_t option) option"
where
  "compose_tail env st n body =
     do {
       st3 \<leftarrow> emit env st (length_line n);
       f4 \<leftarrow> append_final env (snd st3) [LF, NUL] 1;
       f5 \<leftarrow> (case body of None \<Rightarrow> Some f4 | Some (b, l) \<Rightarrow> append_final env f4 b l);
       Some (1, f5)
     }"

lemma length_line_short: "length (length_line n) < 1024"
  using fmt_ld_length [of n] by (simp add: length_line_def)

lemma compose_tail_ok:
  assumes "length tmp = 1024" and "string_exact s" and "NUL \<notin> set t"
    and room: "length (contents s) + length (length_line n @ [LF] @ t) < unat (str_capacity s)"
    and body: "case body of None \<Rightarrow> t = [] | Some (b, l) \<Rightarrow> take (length t) b = t \<and> unat l = length t"
  shows "\<exists>s'. compose_tail env (tmp, Some s) n body = Some (1, Some s')
     \<and> extended s (length_line n @ [LF] @ t) s'"
proof -
  have "NUL \<notin> set (length_line n)" by (simp add: length_line_def)
  then obtain tmp' s3 where e: "emit env (tmp, Some s) (length_line n) = Some (tmp', Some s3)"
    "extended s (length_line n) s3"
    using emit_ok [OF _ _ assms(2), of "length_line n" tmp env] length_line_short assms(1) room by fastforce
  obtain s4 where f: "append_final env (Some s3) [LF, NUL] 1 = Some (Some s4)" "extended s3 [LF] s4"
    using append_final_ok [of s3 "[LF]" "[LF, NUL]" 1 env] e(2) room by (auto simp: extended_def)
  have s4: "extended s (length_line n @ [LF]) s4" using e f by (blast intro: extended_trans)
  show ?thesis
  proof (cases body)
    case None
    with body e f s4 show ?thesis by (simp add: compose_tail_def)
  next
    case (Some p)
    then obtain b l where p: "body = Some (b, l)" by (cases p) auto
    obtain s5 where g: "append_final env (Some s4) b l = Some (Some s5)" "extended s4 t s5"
      using append_final_ok [of s4 t b l env] s4 room body p assms(3) by (auto simp: extended_def)
    from extended_trans [OF s4 g(2)] p e f g(1) show ?thesis by (simp add: compose_tail_def)
  qed
qed

definition compose_lines ::
  "mem_env \<Rightarrow> cbuf \<Rightarrow> string \<Rightarrow> http_response \<Rightarrow> string_t option \<Rightarrow> (cbuf \<times> string_t option) option"
where
  "compose_lines env mem protocol res final =
     do {
       st1 \<leftarrow> emit env (replicate 1024 NUL, final) (status_line protocol (response_status res));
       if kv_size (rs_headers res) > 0 then compose_headers env mem (rs_headers res) 0 st1 else Some st1
     }"

lemma http_compose_response_eq:
  assumes "rq_protocol req = Some p" and "deref mem p = Some protocol"
  shows "http_compose_response env mem req res final =
     do {
       st2 \<leftarrow> compose_lines env mem protocol res final;
       case rs_file res of
         Some file \<Rightarrow> compose_tail env st2 (rs_file_sz res) (Some (file, rs_file_sz res))
       | None \<Rightarrow>
           if rs_file_fd res \<noteq> 0 then compose_tail env st2 (rs_file_sz res) None
           else do {
             str \<leftarrow> rs_str res;
             compose_tail env st2 (str_len str) (Some (str_buf str, str_len str))
           }
     }"
  using assms by (simp add: http_compose_response_def compose_tail_def compose_lines_def
      response_status_def Let_def cong: if_cong option.case_cong)

lemma compose_lines_ok:
  assumes p: "deref mem p = Some protocol"
    and hs: "headers_are mem (rs_headers res) hs" and short: "lines_short protocol hs res"
    and s: "string_exact s" and room: "length (contents s)
      + length (status_line protocol (response_status res) @ headers_text hs) < unat (str_capacity s)"
  shows "\<exists>tmp s'. compose_lines env mem protocol res (Some s) = Some (tmp, Some s') \<and> length tmp = 1024
     \<and> extended s (status_line protocol (response_status res) @ headers_text hs) s'"
proof -
  let ?l = "status_line protocol (response_status res)" and ?m = "rs_headers res"
  have nn: "NUL \<notin> set ?l" using deref_no_nul [OF p] by (simp add: status_line_def)
  obtain tmp1 s1 where e1: "emit env (replicate 1024 NUL, Some s) ?l = Some (tmp1, Some s1)"
    "length tmp1 = 1024" "extended s ?l s1"
    using emit_ok [OF _ nn s, of "replicate 1024 NUL" env] short room
    by (fastforce simp: lines_short_def)
  have "\<exists>tmp2 s2. compose_headers env mem ?m 0 (tmp1, Some s1) = Some (tmp2, Some s2)
     \<and> length tmp2 = length tmp1 \<and> extended s1 (headers_text (drop 0 hs)) s2"
    using short e1 room
    by (intro compose_headers_ok [OF hs]) (auto simp: lines_short_def extended_def)
  then obtain tmp2 s2 where e2: "compose_headers env mem ?m 0 (tmp1, Some s1) = Some (tmp2, Some s2)"
     "length tmp2 = 1024" "extended s1 (headers_text hs) s2" using e1(2) by auto
  then have "compose_lines env mem protocol res (Some s) = Some (tmp2, Some s2)"
    by (subst (asm) compose_headers.simps)
      (auto split: if_splits simp: compose_lines_def e1(1) compose_headers.simps [of _ _ _ 0])
  with e2(2) extended_trans [OF e1(3) e2(3)] show ?thesis by blast
qed

lemma compose_response_exact:
  assumes p: "rq_protocol req = Some p" "deref mem p = Some protocol"
    and hs: "headers_are mem (rs_headers res) hs" and short: "lines_short protocol hs res"
    and body: "body_ok res" and s: "string_exact s"
    and room: "length (contents s) + length (response_text protocol hs res) < unat (str_capacity s)"
  shows "\<exists>s'. http_compose_response env mem req res (Some s) = Some (1, Some s')
     \<and> extended s (response_text protocol hs res) s'"
proof -
  let ?l = "status_line protocol (response_status res) @ headers_text hs"
  let ?t = "length_line (response_length res) @ [LF] @ response_body res"
  let ?b = "case rs_file res of Some f \<Rightarrow> Some (f, rs_file_sz res)
    | None \<Rightarrow> if rs_file_fd res \<noteq> 0 then None else map_option (\<lambda>x. (str_buf x, str_len x)) (rs_str res)"
  obtain tmp s2 where e: "compose_lines env mem protocol res (Some s) = Some (tmp, Some s2)"
    "length tmp = 1024" "extended s ?l s2"
    using compose_lines_ok [OF p(2) hs short s] room by (fastforce simp: response_text_def)
  have "\<exists>s'. compose_tail env (tmp, Some s2) (response_length res) ?b = Some (1, Some s') \<and> extended s2 ?t s'"
  proof (rule compose_tail_ok)
    show "length tmp = 1024" and "string_exact s2" using e by (simp_all add: extended_def)
    show "NUL \<notin> set (response_body res)" using body by (simp add: body_ok_def)
    show "length (contents s2) + length ?t < unat (str_capacity s2)"
      using e(3) room by (simp add: extended_def response_text_def)
    show "case ?b of None \<Rightarrow> response_body res = []
      | Some (b, l) \<Rightarrow> take (length (response_body res)) b = response_body res \<and> unat l = length (response_body res)"
      using body by (auto simp: body_ok_def response_body_def string_exact_def contents_def
          upto_nul_take_eq split: option.splits)
  qed
  then obtain s' where t: "compose_tail env (tmp, Some s2) (response_length res) ?b = Some (1, Some s')"
    "extended s2 ?t s'" by blast
  moreover from t(1) body have "http_compose_response env mem req res (Some s) = Some (1, Some s')"
    by (auto simp: http_compose_response_eq [OF p] e(1) response_length_def body_ok_def split: option.splits)
  moreover have "extended s (?l @ ?t) s'" by (rule extended_trans [OF e(3) t(2)])
  ultimately show ?thesis by (simp add: extended_def response_text_def)
qed

section \<open>Properties\<close>

text \<open>
  C10. For a request with a protocol and a response whose lines are shorter than the line
  buffer, whose body has no NUL and for which the final string has room,
  \<open>http_compose_response\<close> returns 1 and appends exactly the status line, one line per
  header in order, the content length, the empty line and the body, in all three cases
  (mapped file, file sent by \<open>splice\<close>, string).
\<close>

theorem http_compose_response_text:
  assumes p: "rq_protocol req = Some p" "deref mem p = Some protocol"
    and hs: "headers_are mem (rs_headers res) hs" and short: "lines_short protocol hs res"
    and body: "body_ok res" and s: "string_exact s"
    and room: "length (contents s) + length (response_text protocol hs res) < unat (str_capacity s)"
  shows "\<exists>s'. http_compose_response env mem req res (Some s) = Some (1, Some s') \<and> string_exact s'
     \<and> contents s' = contents s @ response_text protocol hs res"
  using compose_response_exact [OF assms] by (auto simp: extended_def)

definition hello_response :: http_response where
  "hello_response = \<lparr>rs_status = 0, rs_file = Some ''hi'', rs_file_fd = 0, rs_file_sz = 2, rs_str = None,
     rs_headers = empty_kv 20\<rparr>"

lemma hello_response_text:
  "response_text ''HTTP/1.1'' [] hello_response
     = ''HTTP/1.1 200 OK'' @ [LF] @ ''Content-Length: 2'' @ [LF, LF] @ ''hi''"
  by (simp add: response_text_def status_line_def headers_text_def length_line_def hello_response_def
      response_status_def response_length_def response_body_def fmt_d_def fmt_ld_def dec_nat.simps char_of_def bit_0)

theorem http_compose_response_text_witness:
  "\<exists>s'. http_compose_response some_env (''HTTP/1.1'' @ [NUL])
       (empty_request\<lparr>rq_protocol := Some (Buf 0)\<rparr>) hello_response (Some (empty_string 1024))
         = Some (1, Some s')
     \<and> contents s' = ''HTTP/1.1 200 OK'' @ [LF] @ ''Content-Length: 2'' @ [LF, LF] @ ''hi''"
proof -
  have d: "deref (''HTTP/1.1'' @ [NUL]) (Buf 0) = Some ''HTTP/1.1''" by (simp add: cstr_def)
  have h: "headers_are (''HTTP/1.1'' @ [NUL]) (rs_headers hello_response) []"
    by (simp add: headers_are_def hello_response_def empty_kv_def KV_INIT_WITH_BUF_def kv_wf_def kv_entries_def)
  have e: "string_exact (empty_string 1024)" "contents (empty_string 1024) = []"
    "unat (str_capacity (empty_string 1024)) = 1024"
    using string_exact_zero [of 1024] by (simp_all add: empty_string_def)
  have l: "lines_short ''HTTP/1.1'' [] hello_response"
    by (simp add: lines_short_def status_line_def response_status_def hello_response_def fmt_d_def dec_nat.simps)
  have b: "body_ok hello_response" by (simp add: body_ok_def response_body_def hello_response_def)
  show ?thesis
    using http_compose_response_text [OF _ d h l b e(1), of "empty_request\<lparr>rq_protocol := Some (Buf 0)\<rparr>" some_env]
    by (auto simp: e(2,3) hello_response_text)
qed

text \<open>
  The \<open>Content-Length\<close> line of a response that carries its body is the decimal numeral
  of the body's length.
\<close>

theorem content_length_matches_body:
  assumes "body_ok res" and "rs_file res \<noteq> None \<or> rs_file_fd res = 0"
    and "length (response_body res) < 2 ^ 63"
  shows "\<exists>ds. length_line (response_length res) = ''Content-Length: '' @ ds @ [LF]
     \<and> dec_value ds = length (response_body res)"
proof -
  have "unat (response_length res) = length (response_body res)"
    using assms(1,2)
    by (auto simp: body_ok_def response_length_def response_body_def string_exact_def split: option.splits)
  then have "response_length res = of_nat (length (response_body res))" by (metis of_nat_unat ucast_id)
  with fmt_ld_nat [OF assms(3)] show ?thesis by (simp add: length_line_def)
qed

theorem content_length_matches_body_witness:
  "\<exists>ds. length_line (response_length hello_response) = ''Content-Length: '' @ ds @ [LF] \<and> dec_value ds = 2"
proof -
  have "body_ok hello_response" "rs_file hello_response \<noteq> None" "length (response_body hello_response) = 2"
    by (simp_all add: hello_response_def body_ok_def response_body_def)
  with content_length_matches_body [of hello_response] show ?thesis by simp
qed

text \<open>
  The status line is built in a 1024-byte stack buffer from the protocol text of the
  request, whatever its length: once the line with its terminator does not fit,
  \<open>http_compose_response\<close> writes outside the buffer.
\<close>

theorem status_line_overflow:
  assumes "rq_protocol req = Some p" and "deref mem p = Some protocol"
    and "1024 \<le> length (status_line protocol (response_status res))"
  shows "http_compose_response env mem req res final = None"
  using assms(3) by (simp add: http_compose_response_eq [OF assms(1,2)] compose_lines_def emit_def sprintf_def)

theorem status_line_overflow_witness:
  "http_compose_response some_env (replicate 1020 CHR ''H'' @ [NUL])
     (empty_request\<lparr>rq_protocol := Some (Buf 0)\<rparr>) hello_response (Some (empty_string 1024)) = None"
proof (rule status_line_overflow)
  show "deref (replicate 1020 CHR ''H'' @ [NUL]) (Buf 0) = Some (replicate 1020 CHR ''H'')"
    by (simp add: cstr_def)
qed (simp_all add: status_line_def)

text \<open>
  C32. A mapped file is appended with \<open>strncat\<close>, which stops at the first NUL: for a file
  with a NUL byte the text ends before that byte while \<open>len\<close> and the \<open>Content-Length\<close> line
  count the whole file.
\<close>

theorem binary_file_truncated:
  assumes p: "rq_protocol req = Some p" "deref mem p = Some protocol"
    and hs: "headers_are mem (rs_headers res) hs" and short: "lines_short protocol hs res"
    and fl: "rs_file res = Some file" "unat (rs_file_sz res) = length file" and s: "string_exact s"
    and room: "length (contents s) + length (response_text protocol hs res) < unat (str_capacity s)"
  shows "\<exists>s' r. http_compose_response env mem req res (Some s) = Some (1, Some s')
     \<and> response_text protocol hs res = r @ file \<and> contents s' = contents s @ r @ upto_nul file
     \<and> unat (str_len s') = unat (str_len s) + length r + length file"
proof -
  let ?l = "status_line protocol (response_status res) @ headers_text hs"
    and ?n = "length_line (rs_file_sz res)"
  have tx: "response_text protocol hs res = (?l @ ?n @ [LF]) @ file"
    using fl by (simp add: response_text_def response_body_def response_length_def)
  obtain tmp s2 where e: "compose_lines env mem protocol res (Some s) = Some (tmp, Some s2)"
    "length tmp = 1024" "extended s ?l s2"
    using compose_lines_ok [OF p(2) hs short s] room tx by fastforce
  have "\<exists>s4. compose_tail env (tmp, Some s2) (rs_file_sz res) None = Some (1, Some s4)
      \<and> extended s2 (?n @ [LF] @ []) s4"
    using e room tx by (intro compose_tail_ok) (auto simp: extended_def)
  then obtain s4 where t: "compose_tail env (tmp, Some s2) (rs_file_sz res) None = Some (1, Some s4)"
    "extended s2 (?n @ [LF]) s4" by auto
  have s4: "extended s (?l @ ?n @ [LF]) s4" using extended_trans [OF e(3) t(2)] by simp
  then have wf: "string_wf s4" and fits: "append_fits s4 (unat (rs_file_sz res))"
    and noreal: "\<not> str_capacity s4 \<le> str_len s4 + rs_file_sz res"
    using room tx fl(2) by (auto simp: extended_def string_exact_def append_fits_def
        word_le_nat_alt append_total)
  then obtain s' where s': "string_append (me_alloc env) (me_fill env) (Some s4) file (rs_file_sz res)
      = Some (True, Some s')" "appended s4 file (rs_file_sz res) s'"
    using string_append_wf [OF wf fits, of "file" "me_alloc env" "me_fill env"] fl(2)
    by (auto simp: string_append_def split: Option.bind_splits)
  have "http_compose_response env mem req res (Some s) = Some (1, Some s')"
    using t(1) s'(1) fl(1)
    by (auto simp: http_compose_response_eq [OF p] e(1) compose_tail_def append_final_def bind_Some_iff)
  with s'(2) s4 s fl(2) tx show ?thesis
    by (intro exI [of _ s'] exI [of _ "?l @ ?n @ [LF]"])
      (auto simp: appended_def extended_def string_exact_def)
qed

theorem binary_file_truncated_witness:
  "\<exists>s' r. http_compose_response some_env (''HTTP/1.1'' @ [NUL])
       (empty_request\<lparr>rq_protocol := Some (Buf 0)\<rparr>)
       (hello_response\<lparr>rs_file := Some [CHR ''a'', NUL, CHR ''b''], rs_file_sz := 3\<rparr>) (Some (empty_string 1024))
         = Some (1, Some s')
     \<and> contents s' = r @ ''a'' \<and> unat (str_len s') = length r + 3"
proof -
  let ?res = "hello_response\<lparr>rs_file := Some [CHR ''a'', NUL, CHR ''b''], rs_file_sz := 3\<rparr>"
  have d: "deref (''HTTP/1.1'' @ [NUL]) (Buf 0) = Some ''HTTP/1.1''" by (simp add: cstr_def)
  have h: "headers_are (''HTTP/1.1'' @ [NUL]) (rs_headers ?res) []"
    by (simp add: headers_are_def hello_response_def empty_kv_def KV_INIT_WITH_BUF_def kv_wf_def kv_entries_def)
  have e: "string_exact (empty_string 1024)" "contents (empty_string 1024) = []"
    "unat (str_capacity (empty_string 1024)) = 1024" "str_len (empty_string 1024) = 0"
    using string_exact_zero [of 1024] by (simp_all add: empty_string_def)
  have l: "lines_short ''HTTP/1.1'' [] ?res"
    by (simp add: lines_short_def status_line_def response_status_def hello_response_def fmt_d_def dec_nat.simps)
  have t: "length (response_text ''HTTP/1.1'' [] ?res) < 1024"
    by (simp add: response_text_def status_line_def headers_text_def length_line_def hello_response_def
        response_status_def response_length_def response_body_def fmt_d_def fmt_ld_def dec_nat.simps)
  obtain s' r where "http_compose_response some_env (''HTTP/1.1'' @ [NUL])
       (empty_request\<lparr>rq_protocol := Some (Buf 0)\<rparr>) ?res (Some (empty_string 1024)) = Some (1, Some s')"
    "contents s' = contents (empty_string 1024) @ r @ upto_nul [CHR ''a'', NUL, CHR ''b'']"
    "unat (str_len s') = unat (str_len (empty_string 1024)) + length r + length [CHR ''a'', NUL, CHR ''b'']"
    using binary_file_truncated [OF _ d h l _ _ e(1), of "empty_request\<lparr>rq_protocol := Some (Buf 0)\<rparr>"
        "[CHR ''a'', NUL, CHR ''b'']" some_env] t e by auto
  with e show ?thesis by auto
qed

subsection \<open>Static files\<close>

lemma SET_RES_MIME_header: "SET_RES_MIME env res v = SET_RES_HEADER env res ''Content-Type'' v"
  by (simp add: SET_RES_MIME_def SET_RES_HEADER_def)

lemma set_header_ok:
  assumes hs: "headers_are mem (rs_headers res) hs" and room: "0 < kv_room (rs_headers res)"
    and nul: "NUL \<notin> set k" "NUL \<notin> set v"
  shows "\<exists>t. SET_RES_HEADER env res k v = Some (res\<lparr>rs_headers := t\<rparr>) \<and> headers_are mem t (hs @ [(k, v)])
     \<and> kv_capacity t = kv_capacity (rs_headers res) \<and> kv_flag t = kv_flag (rs_headers res)
     \<and> Suc (kv_room t) = kv_room (rs_headers res)"
proof -
  have "kv_wf (rs_headers res)" "kv_size (rs_headers res) \<noteq> kv_capacity (rs_headers res)"
    using hs room by (auto simp: headers_are_def kv_room_def)
  from kv_set_room [OF this, of "me_alloc env" "me_pair env" "Some (Lit k)" "Some (Lit v)"]
  obtain t where "kv_set_key_value (me_alloc env) (me_pair env) (Some (rs_headers res))
      (Some (Lit k)) (Some (Lit v)) = Some (True, Some t)" "kv_wf t"
      "kv_entries t = kv_entries (rs_headers res) @ [(Some (Lit k), Some (Lit v))]"
      "kv_capacity t = kv_capacity (rs_headers res)" "kv_flag t = kv_flag (rs_headers res)"
      "kv_size t = kv_size (rs_headers res) + 1"
    by blast
  with hs room nul show ?thesis
    by (intro exI [of _ t]) (auto simp: SET_RES_HEADER_def headers_are_def kv_room_def kv_wf_def nat_add_distrib)
qed

lemma set_mime_ok:
  assumes "headers_are mem (rs_headers res) hs" and "0 < kv_room (rs_headers res)"
    and "SET_RES_MIME env res v = Some res'" "NUL \<notin> set v"
  shows "headers_are mem (rs_headers res') (hs @ [(''Content-Type'', v)])"
    and "res' = res\<lparr>rs_headers := rs_headers res'\<rparr>"
  using set_header_ok [OF assms(1,2) _ assms(4), of "''Content-Type''" env] assms(3)
  by (auto simp: SET_RES_MIME_header)

text \<open>Appending text to the body of a response whose string has room for it.\<close>

lemma append_body_ok:
  assumes "rs_str res = Some s" "string_exact s" "length (contents s) + length t < unat (str_capacity s)"
    and "take (length t) b = t" "NUL \<notin> set t" "unat n = length t"
  shows "\<exists>s'. APPEND_RES_BODY env res b n = Some (res\<lparr>rs_str := Some s'\<rparr>) \<and> extended s t s'"
proof -
  obtain s' where "append_final env (Some s) b n = Some (Some s')" "extended s t s'"
    using append_final_ok [OF assms(2-6)] by blast
  then show ?thesis using assms(1) by (auto simp: APPEND_RES_BODY_def append_final_def)
qed

text \<open>
  When \<open>global_static_router\<close> succeeds, the response has status 200, one more header
  \<open>Content-Type\<close> with the type libmagic found, and the size \<open>fstat\<close> gave; the build that
  watches files hands over an open descriptor, the other one a mapping, which it also
  remembers in the static variable.
\<close>

theorem static_handler_success:
  assumes run: "global_static_router watch env se res path data k = Some (HANDLER_ERR_SUCCESS, res', data', k')"
    and hs: "headers_are mem (rs_headers res) hs" and room: "0 < kv_room (rs_headers res)"
    and mimes: "\<forall>fd st m st'. se_magic se fd st = (Some m, st') \<longrightarrow> NUL \<notin> set m"
  shows "rs_status res' = 200
     \<and> (\<exists>fd k1 r k2 m k3. sys_open (se_kern se) path O_RDONLY k = (fd, k1) \<and> 0 \<le> fd
         \<and> sys_fstat (se_kern se) fd (Obj_bytes []) k1 = (r, Some (Obj_stat (rs_file_sz res')), k2) \<and> 0 \<le> r
         \<and> se_magic se fd k2 = (Some m, k3)
         \<and> headers_are mem (rs_headers res') (hs @ [(''Content-Type'', m)])
         \<and> (if watch then rs_file_fd res' = fd \<and> rs_file res' = rs_file res \<and> data' = data
            else rs_file_fd res' = rs_file_fd res
              \<and> (\<exists>bytes. rs_file res' = Some bytes \<and> data' = Map_at bytes)))"
proof -
  obtain fd k1 where o: "sys_open (se_kern se) path O_RDONLY k = (fd, k1)" by fastforce
  obtain r obj k2 where f: "sys_fstat (se_kern se) fd (Obj_bytes []) k1 = (r, obj, k2)"
    using prod_cases3 by blast
  from run o f have fd: "0 \<le> fd" and r: "0 \<le> r"
    by (auto simp: global_static_router_def store_buf_def HANDLER_ERR_defs Let_def split: if_splits prod.splits)
  with run o f obtain m k3 where m: "se_magic se fd k2 = (Some m, k3)"
    by (auto simp: global_static_router_def store_buf_def HANDLER_ERR_defs split: if_splits prod.splits option.splits)
  with run o f fd r obtain sz where sz: "obj = Some (Obj_stat sz)"
    by (auto simp: global_static_router_def store_buf_def bind_Some_iff elim!: st_size.elims split: if_splits)
  have nn: "NUL \<notin> set m" using mimes m by blast
  show ?thesis
  proof (cases watch)
    case True
    with run o f fd r m sz
    have "SET_RES_MIME env (res\<lparr>rs_file_fd := fd, rs_file_sz := sz, rs_status := 200\<rparr>) m = Some res'" "data' = data"
      by (auto simp: global_static_router_def store_buf_def bind_Some_iff)
    moreover from this(1) have "headers_are mem (rs_headers res') (hs @ [(''Content-Type'', m)])"
      "res' = res\<lparr>rs_file_fd := fd, rs_file_sz := sz, rs_status := 200, rs_headers := rs_headers res'\<rparr>"
      using set_mime_ok [of mem "res\<lparr>rs_file_fd := fd, rs_file_sz := sz, rs_status := 200\<rparr>" hs env m res']
        hs room nn by auto
    ultimately show ?thesis
      using True o f fd r m sz by (cases res') auto
  next
    case False
    with run o f fd r m sz obtain bytes where
      "SET_RES_MIME env (res\<lparr>rs_file := Some bytes, rs_file_sz := sz, rs_status := 200\<rparr>) m = Some res'"
      "data' = Map_at bytes"
      by (auto simp: global_static_router_def store_buf_def bind_Some_iff HANDLER_ERR_defs split: if_splits prod.splits option.splits)
    moreover from this(1) have "headers_are mem (rs_headers res') (hs @ [(''Content-Type'', m)])"
      "res' = res\<lparr>rs_file := Some bytes, rs_file_sz := sz, rs_status := 200, rs_headers := rs_headers res'\<rparr>"
      using set_mime_ok [of mem "res\<lparr>rs_file := Some bytes, rs_file_sz := sz, rs_status := 200\<rparr>" hs env m res']
        hs room nn by auto
    ultimately show ?thesis
      using False o f fd r m sz by (cases res') auto
  qed
qed

text \<open>A kernel with one two-byte file, behind descriptor 3.\<close>

definition demo_static_env :: "unit static_env" where
  "demo_static_env = \<lparr>
     se_kern = (\<lambda>regs k. if regs RAX = Some (Arg_int NR_open) then (3, None, k)
                         else (0, Some (Obj_stat 2), k)),
     se_magic = (\<lambda>fd k. (Some ''text/plain'', k)),
     se_mmap = (\<lambda>fd sz k. (Some ''hi'', k))\<rparr>"

definition demo_response :: http_response where
  "demo_response = \<lparr>rs_status = 0, rs_file = None, rs_file_fd = 0, rs_file_sz = 0,
     rs_str = Some (empty_string 64), rs_headers = empty_kv 20\<rparr>"

lemma demo_headers: "headers_are mem (rs_headers demo_response) []" "0 < kv_room (rs_headers demo_response)"
  by (simp_all add: headers_are_def demo_response_def empty_kv_def KV_INIT_WITH_BUF_def kv_wf_def
      kv_entries_def kv_room_def)

lemma demo_set_mime:
  assumes "rs_headers res = rs_headers demo_response"
  shows "\<exists>res'. SET_RES_MIME env res m = Some res'"
proof -
  have "kv_wf (rs_headers res)" "kv_size (rs_headers res) \<noteq> kv_capacity (rs_headers res)"
    using demo_headers assms by (auto simp: headers_are_def kv_room_def)
  from kv_set_room [OF this, of "me_alloc env" "me_pair env" "Some (Lit ''Content-Type'')" "Some (Lit m)"]
  show ?thesis by (auto simp: SET_RES_MIME_def)
qed

lemma demo_static_run:
  "\<exists>res'. global_static_router watch some_env demo_static_env demo_response path Map_null ()
     = Some (HANDLER_ERR_SUCCESS, res', if watch then Map_null else Map_at ''hi'', ())"
proof -
  obtain r1 r2 where "SET_RES_MIME some_env (demo_response\<lparr>rs_file_fd := 3, rs_file_sz := 2, rs_status := 200\<rparr>) ''text/plain'' = Some r1"
    "SET_RES_MIME some_env (demo_response\<lparr>rs_file := Some ''hi'', rs_file_sz := 2, rs_status := 200\<rparr>) ''text/plain'' = Some r2"
    using demo_set_mime [of "demo_response\<lparr>rs_file_fd := 3, rs_file_sz := 2, rs_status := 200\<rparr>" some_env "''text/plain''"]
      demo_set_mime [of "demo_response\<lparr>rs_file := Some ''hi'', rs_file_sz := 2, rs_status := 200\<rparr>" some_env "''text/plain''"] by auto
  then show ?thesis
    by (simp add: global_static_router_def store_buf_def demo_static_env_def sys_open_def sys_fstat_def syscall_defs
        NR_defs c_result_def c_result_int_def int_of_rax_def)
qed

theorem static_handler_success_witness:
  "\<exists>res'. global_static_router True some_env demo_static_env demo_response ''f'' Map_null ()
       = Some (HANDLER_ERR_SUCCESS, res', Map_null, ())
     \<and> headers_are [] (rs_headers res') [(''Content-Type'', ''text/plain'')]"
proof -
  obtain res' where run: "global_static_router True some_env demo_static_env demo_response ''f'' Map_null ()
      = Some (HANDLER_ERR_SUCCESS, res', Map_null, ())" using demo_static_run [of True] by auto
  have "\<forall>fd st m st'. se_magic demo_static_env fd st = (Some m, st') \<longrightarrow> NUL \<notin> set m"
    by (auto simp: demo_static_env_def)
  from static_handler_success [OF run demo_headers(1) demo_headers(2) this, of "[]"] run show ?thesis
    by (auto simp: demo_static_env_def)
qed

text \<open>Either variable left uninitialised makes \<open>STORE_BUF\<close> undefined, whatever is mapped.\<close>

lemma store_buf_uninitialised:
  "store_buf env res data None mime k = None" "store_buf env res data sz None k = None"
  by (auto simp: store_buf_def split: Option.bind_splits)

text \<open>
  C33. In the build that maps files, a request for a static file after one that succeeded,
  or after one whose \<open>mmap\<close> failed, is undefined, for every path, kernel and response: the
  first call has set the static variable, so the second jumps to \<open>STORE_BUF\<close>, past the
  \<open>fstat\<close> and the initialisation of \<open>mime_str\<close>, and reads both variables.
\<close>

theorem static_second_request_undefined:
  assumes run: "global_static_router False env se res path data k = Some (r, res', data', k')"
    and opened: "sys_open (se_kern se) path O_RDONLY k = (fd, k1)" "0 \<le> fd"
    and stat: "sys_fstat (se_kern se) fd (Obj_bytes []) k1 = (0, Some (Obj_stat sz), k2)"
    and magic: "se_magic se fd k2 = (Some m, k3)"
  shows "global_static_router False env' se' res2 path2 data' k4 = None"
proof -
  have "data = Map_null" using run by (auto simp: global_static_router_def store_buf_def split: if_splits)
  with run opened stat magic have "data' \<noteq> Map_null"
    by (auto simp: global_static_router_def store_buf_def bind_Some_iff split: prod.splits option.splits)
  then show ?thesis by (simp add: global_static_router_def store_buf_uninitialised)
qed

theorem static_second_request_undefined_witness:
  "\<exists>res' data'. global_static_router False some_env demo_static_env demo_response ''f'' Map_null ()
       = Some (HANDLER_ERR_SUCCESS, res', data', ())
     \<and> global_static_router False some_env demo_static_env demo_response ''g'' data' () = None"
proof -
  obtain res' where run: "global_static_router False some_env demo_static_env demo_response ''f'' Map_null ()
      = Some (HANDLER_ERR_SUCCESS, res', Map_at ''hi'', ())" using demo_static_run [of False] by auto
  have "sys_open (se_kern demo_static_env) ''f'' O_RDONLY () = (3, ())"
    "sys_fstat (se_kern demo_static_env) 3 (Obj_bytes []) () = (0, Some (Obj_stat 2), ())"
    "se_magic demo_static_env 3 () = (Some ''text/plain'', ())"
    by (simp_all add: demo_static_env_def sys_open_def sys_fstat_def syscall_defs
        NR_defs c_result_def c_result_int_def int_of_rax_def)
  from static_second_request_undefined [OF run this(1) _ this(2,3)] run show ?thesis by auto
qed

end
