(* ===== verification/Iouring.thy ===== *)
theory Iouring
  imports Http_Response
begin

text \<open>
  The submission helpers of \<open>lib/iouring_utils.c\<close> and the connection record of
  \<open>include/server.h\<close>. The submission queue is the list of entries prepared and not yet
  submitted. \<open>io_uring_get_sqe\<close> belongs to liburing: the parameter \<open>slot\<close> says whether it
  finds a free entry, and filling the NULL it returns otherwise is \<^term>\<open>None\<close>. An entry
  records what the \<open>io_uring_prep_*\<close> call was given; \<open>user_data\<close> is the index of the
  connection in \<open>svr->conns\<close>, or \<^term>\<open>None\<close> for 0.
\<close>

section \<open>Model\<close>

subsection \<open>Connections\<close>

text \<open>
  The coroutine of a connection as its users see it: created and not started, suspended in
  a \<open>co_yield\<close> with the local variables of its function, or stopped.
\<close>

datatype 'f co = Co_created | Co_suspended 'f | Co_stopped

record 'f server_connection =
  cn_fd :: int
  cn_action :: u32
  cn_cur_steps :: int
  cn_total_steps :: int
  cn_coro :: "'f co option"
  cn_str :: "string_t option"
  cn_svr :: bool

definition IO_URING_OP_ACCEPT :: u32 where "IO_URING_OP_ACCEPT = 1"
definition IO_URING_OP_RECV :: u32 where "IO_URING_OP_RECV = 2"
definition IO_URING_OP_SEND :: u32 where "IO_URING_OP_SEND = 3"
definition IO_URING_OP_SPLICE :: u32 where "IO_URING_OP_SPLICE = 4"

lemmas IO_URING_OP_defs [simp] =
  IO_URING_OP_ACCEPT_def IO_URING_OP_RECV_def IO_URING_OP_SEND_def IO_URING_OP_SPLICE_def

subsection \<open>Submission queue entries\<close>

text \<open>The number of entries the queue of a ring is created with.\<close>

definition QD :: nat where "QD = 1024"

text \<open>
  Operations with the arguments of the \<open>prep\<close> calls: descriptor and length; for a send the
  bytes the pointer leads to, the length and the flags; for a splice the descriptors,
  offsets, length and flags.
\<close>

datatype sqe_op =
    Op_accept int
  | Op_read int u64
  | Op_recv int u64
  | Op_send int cbuf u64 int
  | Op_splice int int int int u32 int

record sqe =
  sq_op :: sqe_op
  sq_user :: "nat option"
  sq_flags :: u8

type_synonym ring = "sqe list"

definition SPLICE_F_NONBLOCK :: int where "SPLICE_F_NONBLOCK = 2"

text \<open>\<open>io_uring_get_sqe\<close> and the filling of the entry.\<close>

definition fill_sqe :: "(ring \<Rightarrow> bool) \<Rightarrow> ring \<Rightarrow> sqe_op \<Rightarrow> nat option \<Rightarrow> u8 \<Rightarrow> ring option" where
  "fill_sqe slot ring sqop user flags =
     (if slot ring then Some (ring @ [\<lparr>sq_op = sqop, sq_user = user, sq_flags = flags\<rparr>]) else None)"

subsection \<open>Push functions\<close>

definition io_uring_push_accept ::
  "(ring \<Rightarrow> bool) \<Rightarrow> ring \<Rightarrow> int \<Rightarrow> nat \<Rightarrow> 'f server_connection \<Rightarrow> u8
     \<Rightarrow> (ring \<times> 'f server_connection) option"
where
  "io_uring_push_accept slot ring fd i conn flags =
     do {
       ring' \<leftarrow> fill_sqe slot ring (Op_accept fd) (Some i) flags;
       Some (ring', conn\<lparr>cn_action := IO_URING_OP_ACCEPT\<rparr>)
     }"

definition io_uring_push_read :: "(ring \<Rightarrow> bool) \<Rightarrow> ring \<Rightarrow> int \<Rightarrow> u64 \<Rightarrow> u8 \<Rightarrow> ring option" where
  "io_uring_push_read slot ring fd buflen flags = fill_sqe slot ring (Op_read fd buflen) None flags"

definition io_uring_push_recv ::
  "(ring \<Rightarrow> bool) \<Rightarrow> ring \<Rightarrow> int \<Rightarrow> u64 \<Rightarrow> nat \<Rightarrow> 'f server_connection \<Rightarrow> u8
     \<Rightarrow> (ring \<times> 'f server_connection) option"
where
  "io_uring_push_recv slot ring fd buflen i conn flags =
     do {
       ring' \<leftarrow> fill_sqe slot ring (Op_recv fd buflen) (Some i) flags;
       Some (ring', conn\<lparr>cn_action := IO_URING_OP_RECV\<rparr>)
     }"

definition io_uring_push_send ::
  "(ring \<Rightarrow> bool) \<Rightarrow> ring \<Rightarrow> int \<Rightarrow> cbuf \<Rightarrow> u64 \<Rightarrow> nat \<Rightarrow> 'f server_connection \<Rightarrow> int \<Rightarrow> u8
     \<Rightarrow> (ring \<times> 'f server_connection) option"
where
  "io_uring_push_send slot ring fd buf buflen i conn send_flags flags =
     do {
       ring' \<leftarrow> fill_sqe slot ring (Op_send fd buf buflen send_flags) (Some i) flags;
       Some (ring', conn\<lparr>cn_action := IO_URING_OP_SEND, cn_total_steps := to_int (cn_total_steps conn + 1)\<rparr>)
     }"

definition io_uring_push_splice ::
  "(ring \<Rightarrow> bool) \<Rightarrow> ring \<Rightarrow> int \<Rightarrow> int \<Rightarrow> int \<Rightarrow> int \<Rightarrow> u32 \<Rightarrow> nat \<Rightarrow> 'f server_connection \<Rightarrow> u8
     \<Rightarrow> (ring \<times> 'f server_connection) option"
where
  "io_uring_push_splice slot ring fd_in off_in fd_out off_out len i conn flags =
     do {
       ring' \<leftarrow> fill_sqe slot ring (Op_splice fd_in off_in fd_out off_out len SPLICE_F_NONBLOCK) (Some i) flags;
       Some (ring', conn\<lparr>cn_action := IO_URING_OP_SPLICE, cn_total_steps := to_int (cn_total_steps conn + 1)\<rparr>)
     }"

lemmas push_defs = io_uring_push_accept_def io_uring_push_recv_def io_uring_push_send_def
  io_uring_push_splice_def fill_sqe_def

end
