(* ===== verification/Conn_Handler.thy ===== *)
theory Conn_Handler
  imports Iouring
begin

text \<open>
  The connection coroutine \<open>io_uring_co_http_handler\<close> of \<open>lib/io_loop.c\<close> and the
  preparation of a connection in \<open>include/iohandler.h\<close>. The function runs from one
  \<open>co_yield\<close> to the next; \<open>handler_start\<close> is the part before the loop, \<open>handler_body\<close> one
  round of the loop, and the local variables that live across a yield are the record
  \<open>frame\<close>. \<open>world\<close> holds what the coroutine shares with the rest of the program: the
  submission queue, the kernel, the static variable of the file handler, and the state of
  the application's handlers.
\<close>

section \<open>Model\<close>

record frame =
  fr_req :: http_request
  fr_res :: http_response
  fr_fresstr :: "string_t option"

type_synonym conn = "frame server_connection"

record ('k, 'u) world =
  w_ring :: ring
  w_kst :: 'k
  w_data :: map_ptr
  w_user :: 'u

record ('k, 'u) server_env =
  sv_watch :: bool
  sv_mem :: mem_env
  sv_static :: "'k static_env"
  sv_routes :: "'u handler router list"
  sv_slot :: "ring \<Rightarrow> bool"
  sv_pipefds :: "int \<times> int"
  sv_listen :: nat
  sv_nfds :: nat

definition RESPONSE_400 :: string where "RESPONSE_400 = ''HTTP/1.1 400 Bad Request'' @ [CR, LF]"
definition RESPONSE_404 :: string where "RESPONSE_404 = ''HTTP/1.1 404 Not Found'' @ [CR, LF]"
definition RESPONSE_413 :: string where "RESPONSE_413 = ''HTTP/1.1 413 Request Entity Too Large'' @ [CR, LF]"
definition RESPONSE_500 :: string where "RESPONSE_500 = ''HTTP/1.1 500 Internal Server Error'' @ [CR, LF]"

definition MSG_MORE :: int where "MSG_MORE = 0x8000"
definition IOSQE_IO_LINK :: u8 where "IOSQE_IO_LINK = 4"

definition DEFAULT_SVR_BUFLEN :: u64 where "DEFAULT_SVR_BUFLEN = 1024"

subsection \<open>Start\<close>

text \<open>
  Up to the loop: \<^term>\<open>Some None\<close> where the function leaves through \<open>EXIT\<close>. The array
  \<open>static_kv_pairs\<close> of 60 pairs is shared out to the three tables and not initialised.
\<close>

definition handler_start :: "mem_env \<Rightarrow> nat \<Rightarrow> frame option option" where
  "handler_start env i =
     do {
       let static_kv_pairs = map (me_pair env) [0..<60];
       str \<leftarrow> string_init (me_alloc env) 1024;
       if str = None then Some None
       else do {
         fresstr \<leftarrow> string_init (me_alloc env) 2048;
         if fresstr = None then Some None
         else Some (Some \<lparr>
           fr_req = \<lparr>rq_method = 0, rq_path = None, rq_protocol = None, rq_conn = Some i,
                     rq_query = KV_INIT_WITH_BUF (take 20 (drop 20 static_kv_pairs)) 20,
                     rq_headers = KV_INIT_WITH_BUF (take 20 static_kv_pairs) 20\<rparr>,
           fr_res = \<lparr>rs_status = 0, rs_file = None, rs_file_fd = 0, rs_file_sz = 0, rs_str = str,
                     rs_headers = KV_INIT_WITH_BUF (drop 40 static_kv_pairs) 20\<rparr>,
           fr_fresstr = fresstr\<rparr>)
       }
     }"

subsection \<open>One round\<close>

text \<open>Where a round goes from the \<open>switch\<close>: to the label \<open>RESET\<close> or to \<open>YIELD\<close>.\<close>

datatype label = RESET | YIELD

text \<open>\<open>char buf[] = text; io_uring_push_send(ring, conn->fd, buf, strlen(buf), conn, 0, 0);\<close>\<close>

definition send_text ::
  "('k, 'u) server_env \<Rightarrow> nat \<Rightarrow> string \<Rightarrow> conn \<times> ('k, 'u) world \<Rightarrow> (conn \<times> ('k, 'u) world) option"
where
  "send_text env i text st =
     do {
       (ring, conn) \<leftarrow> io_uring_push_send (sv_slot env) (w_ring (snd st)) (cn_fd (fst st))
                        (text @ [NUL]) (of_nat (length text)) i (fst st) 0 0;
       Some (conn, (snd st)\<lparr>w_ring := ring\<rparr>)
     }"

text \<open>The call through \<open>rt->fp\<close>, cast to the type that goes with \<open>rt->filepath\<close>.\<close>

definition call_handler ::
  "('k, 'u) server_env \<Rightarrow> cbuf \<Rightarrow> 'u handler router \<Rightarrow> http_request \<Rightarrow> http_response \<Rightarrow> ('k, 'u) world
     \<Rightarrow> (int \<times> http_response \<times> ('k, 'u) world) option"
where
  "call_handler env mem rt req res w =
     (case (rt_filepath rt, rt_fp rt) of
        (Some filepath, Global_static) \<Rightarrow> do {
          (err, res', data, k) \<leftarrow>
            global_static_router (sv_watch env) (sv_mem env) (sv_static env) res filepath (w_data w) (w_kst w);
          Some (err, res', w\<lparr>w_data := data, w_kst := k\<rparr>)
        }
      | (None, Route_fn f) \<Rightarrow> do {
          (err, res', u) \<leftarrow> f mem req res (w_user w);
          Some (err, res', w\<lparr>w_user := u\<rparr>)
        }
      | _ \<Rightarrow> None)"

text \<open>The submissions of a composed response, in the two builds.\<close>

definition send_response ::
  "('k, 'u) server_env \<Rightarrow> nat \<Rightarrow> http_response \<Rightarrow> string_t \<Rightarrow> conn \<times> ('k, 'u) world
     \<Rightarrow> (conn \<times> ('k, 'u) world) option"
where
  "send_response env i res fresstr st =
     (case st of (conn, w) \<Rightarrow>
        if sv_watch env then do {
          (r1, c1) \<leftarrow> io_uring_push_send (sv_slot env) (w_ring w) (cn_fd conn) (str_buf fresstr)
                       (str_len fresstr) i conn MSG_MORE IOSQE_IO_LINK;
          (r2, c2) \<leftarrow> io_uring_push_splice (sv_slot env) r1 (rs_file_fd res) 0 (snd (sv_pipefds env)) (- 1)
                       (ucast (rs_file_sz res)) i c1 IOSQE_IO_LINK;
          (r3, c3) \<leftarrow> io_uring_push_splice (sv_slot env) r2 (fst (sv_pipefds env)) (- 1) (cn_fd c2) (- 1)
                       (ucast (rs_file_sz res)) i c2 0;
          Some (c3, w\<lparr>w_ring := r3\<rparr>)
        }
        else do {
          (r1, c1) \<leftarrow> io_uring_push_send (sv_slot env) (w_ring w) (cn_fd conn) (str_buf fresstr)
                       (str_len fresstr) i conn 0 0;
          Some (c1, w\<lparr>w_ring := r1\<rparr>)
        })"

text \<open>
  The end of \<open>case IO_URING_OP_RECV\<close>, from the parsed request on: routing, handler,
  composition and submission.
\<close>

definition answer_request ::
  "('k, 'u) server_env \<Rightarrow> nat \<Rightarrow> frame \<Rightarrow> cbuf \<Rightarrow> conn \<times> ('k, 'u) world
     \<Rightarrow> (frame \<times> conn \<times> ('k, 'u) world) option"
where
  "answer_request env i fr mem st =
     do {
       path \<leftarrow> rq_path (fr_req fr) \<bind> deref mem;
       case find_router (sv_routes env) path (rq_method (fr_req fr)) of
         None \<Rightarrow> do { st' \<leftarrow> send_text env i RESPONSE_404 st; Some (fr, st') }
       | Some rt \<Rightarrow> do {
           (handle_err, res, w) \<leftarrow> call_handler env mem rt (fr_req fr) (fr_res fr) (snd st);
           let fr1 = fr\<lparr>fr_res := res\<rparr>;
           let st1 = (fst st, w);
           if handle_err = HANDLER_ERR_FILE_NOT_FOUND then do {
             st' \<leftarrow> send_text env i RESPONSE_404 st1; Some (fr1, st')
           }
           else if handle_err = HANDLER_ERR_GENERAL then do {
             st' \<leftarrow> send_text env i RESPONSE_500 st1; Some (fr1, st')
           }
           else do {
             (ok, final) \<leftarrow> http_compose_response (sv_mem env) mem (fr_req fr1) res (fr_fresstr fr1);
             let fr2 = fr1\<lparr>fr_fresstr := final\<rparr>;
             if ok \<noteq> 0 then do {
               f \<leftarrow> final;
               st' \<leftarrow> send_response env i res f st1;
               Some (fr2, st')
             }
             else do { st' \<leftarrow> send_text env i RESPONSE_400 st1; Some (fr2, st') }
           }
         }
     }"

definition recv_case ::
  "('k, 'u) server_env \<Rightarrow> nat \<Rightarrow> int \<Rightarrow> frame \<Rightarrow> conn \<times> ('k, 'u) world
     \<Rightarrow> (label \<times> frame \<times> conn \<times> ('k, 'u) world) option"
where
  "recv_case env i yielded fr st =
     (if yielded < 0 then Some (YIELD, fr, st)
      else if yielded = 0 then Some (RESET, fr, st)
      else do {
        str \<leftarrow> cn_str (fst st);
        if yielded = sint (str_capacity str) then do {
          st' \<leftarrow> send_text env i RESPONSE_413 st;
          Some (YIELD, fr, st')
        }
        else do {
          (ok, req, mem) \<leftarrow> http_parse_request (sv_mem env) (fr_req fr) (str_buf str) (nat yielded);
          let fr1 = fr\<lparr>fr_req := req\<rparr>;
          let st1 = ((fst st)\<lparr>cn_str := Some (str\<lparr>str_buf := mem\<rparr>)\<rparr>, snd st);
          if ok = 0 then do {
            st' \<leftarrow> send_text env i RESPONSE_400 st1;
            Some (YIELD, fr1, st')
          }
          else do {
            (fr2, st2) \<leftarrow> answer_request env i fr1 mem st1;
            Some (YIELD, fr2, st2)
          }
        }
      })"

text \<open>The code at \<open>RESET\<close>.\<close>

definition clear_kv :: "kv \<Rightarrow> kv" where
  "clear_kv t = t\<lparr>kv_size := 0, kv_pairs := replicate (length (kv_pairs t)) null_pair\<rparr>"

definition reset_case ::
  "('k, 'u) server_env \<Rightarrow> frame \<Rightarrow> conn \<times> ('k, 'u) world \<Rightarrow> (frame \<times> conn \<times> ('k, 'u) world) option"
where
  "reset_case env fr st =
     (case st of (conn, w) \<Rightarrow> do {
        let (r, k) = sys_close (se_kern (sv_static env)) (cn_fd conn) (w_kst w);
        let req = (fr_req fr)\<lparr>rq_method := 0, rq_path := None, rq_protocol := None,
                              rq_headers := clear_kv (rq_headers (fr_req fr)),
                              rq_query := clear_kv (rq_query (fr_req fr))\<rparr>;
        let res = (fr_res fr)\<lparr>rs_status := 0, rs_file := None, rs_file_sz := 0, rs_file_fd := 0,
                              rs_headers := clear_kv (rs_headers (fr_res fr))\<rparr>;
        str \<leftarrow> string_reset (cn_str conn);
        res_str \<leftarrow> string_reset (rs_str res);
        fresstr \<leftarrow> string_reset (fr_fresstr fr);
        Some (\<lparr>fr_req = req, fr_res = res\<lparr>rs_str := res_str\<rparr>, fr_fresstr = fresstr\<rparr>,
              conn\<lparr>cn_cur_steps := 0, cn_total_steps := 0, cn_str := str\<rparr>, w\<lparr>w_kst := k\<rparr>)
      })"

definition handler_body ::
  "('k, 'u) server_env \<Rightarrow> nat \<Rightarrow> int \<Rightarrow> frame \<Rightarrow> conn \<times> ('k, 'u) world
     \<Rightarrow> (frame \<times> conn \<times> ('k, 'u) world) option"
where
  "handler_body env i yielded fr st =
     do {
       (l, fr1, st1) \<leftarrow>
         (if cn_action (fst st) = IO_URING_OP_RECV then recv_case env i yielded fr st
          else if cn_action (fst st) = IO_URING_OP_SEND \<or> cn_action (fst st) = IO_URING_OP_SPLICE
          then let conn = (fst st)\<lparr>cn_cur_steps := to_int (cn_cur_steps (fst st) + 1)\<rparr>
               in Some (if cn_cur_steps conn = cn_total_steps conn then RESET else YIELD, fr, conn, snd st)
          else Some (RESET, fr, st));
       if l = RESET then reset_case env fr1 st1 else Some (fr1, st1)
     }"

text \<open>
  The effect of \<open>co_resume_value(conn->coro, value)\<close> on the program: the coroutine runs to
  its next yield, the first time from its start. Resuming a stopped coroutine, or none, is
  undefined. How the switch itself works is the subject of the theory of coroutines.
\<close>

definition resume_connection ::
  "('k, 'u) server_env \<Rightarrow> nat \<Rightarrow> int \<Rightarrow> conn \<times> ('k, 'u) world \<Rightarrow> (conn \<times> ('k, 'u) world) option"
where
  "resume_connection env i v st =
     do {
       co \<leftarrow> cn_coro (fst st);
       fr \<leftarrow> (case co of
                Co_created \<Rightarrow> handler_start (sv_mem env) i
              | Co_suspended f \<Rightarrow> Some (Some f)
              | Co_stopped \<Rightarrow> None);
       case fr of
         None \<Rightarrow> Some ((fst st)\<lparr>cn_coro := Some Co_stopped\<rparr>, snd st)
       | Some f \<Rightarrow> do {
           (f', conn, w) \<leftarrow> handler_body env i v f st;
           Some (conn\<lparr>cn_coro := Some (Co_suspended f')\<rparr>, w)
         }
     }"

subsection \<open>Preparing a connection\<close>

text \<open>
  \<open>__prepare_connection\<close>; \<open>co_alloc\<close> says whether \<open>co_new\<close> gets its memory. The result is
  \<open>-1\<close> on failure, and the connection keeps what was assigned before.
\<close>

definition prepare_connection :: "bool \<Rightarrow> mem_env \<Rightarrow> int \<Rightarrow> conn \<Rightarrow> (int \<times> conn) option" where
  "prepare_connection co_alloc env fd conn =
     (if \<not> co_alloc then Some (- 1, conn\<lparr>cn_coro := None\<rparr>)
      else let conn1 = conn\<lparr>cn_coro := Some Co_created\<rparr> in do {
        str \<leftarrow> (if cn_str conn1 = None then string_init (me_alloc env) DEFAULT_SVR_BUFLEN
                else Some (cn_str conn1));
        let conn2 = conn1\<lparr>cn_str := str\<rparr>;
        if str = None then Some (- 1, conn2)
        else Some (0, conn2\<lparr>cn_fd := fd, cn_action := 0, cn_svr := True\<rparr>)
      })"

section \<open>What a round does to the queue, the connection and the kernel\<close>

text \<open>
  The kernel's table of open descriptors, as far as the server relies on it: closing a
  descriptor closes it and no other, opening a file yields a descriptor that was not open
  and closes none, and the other calls leave the table alone.
\<close>

definition keeps_open :: "('k \<Rightarrow> int \<Rightarrow> bool) \<Rightarrow> 'k \<Rightarrow> 'k \<Rightarrow> bool" where
  "keeps_open fd_open k k' \<longleftrightarrow> (\<forall>j. fd_open k j \<longrightarrow> fd_open k' j)"

definition fd_kernel :: "'k static_env \<Rightarrow> ('k \<Rightarrow> int \<Rightarrow> bool) \<Rightarrow> bool" where
  "fd_kernel se fd_open \<longleftrightarrow>
     (\<forall>fd k j. fd_open (snd (sys_close (se_kern se) fd k)) j \<longleftrightarrow> fd_open k j \<and> j \<noteq> fd)
   \<and> (\<forall>path fl k. \<not> fd_open k (fst (sys_open (se_kern se) path fl k))
        \<and> keeps_open fd_open k (snd (sys_open (se_kern se) path fl k)))
   \<and> (\<forall>fd obj k. keeps_open fd_open k (snd (snd (sys_fstat (se_kern se) fd obj k))))
   \<and> (\<forall>fd k. keeps_open fd_open k (snd (se_magic se fd k)))
   \<and> (\<forall>fd sz k. keeps_open fd_open k (snd (se_mmap se fd sz k)))"

lemma fd_kernelD:
  assumes "fd_kernel se fd_open"
  shows "sys_close (se_kern se) fd k = (r, k') \<Longrightarrow> fd_open k' j \<longleftrightarrow> fd_open k j \<and> j \<noteq> fd"
    and "sys_open (se_kern se) path fl k = (fd, k') \<Longrightarrow> \<not> fd_open k fd \<and> keeps_open fd_open k k'"
    and "sys_fstat (se_kern se) fd obj k = (r, obj', k') \<Longrightarrow> keeps_open fd_open k k'"
    and "se_magic se fd k = (m, k') \<Longrightarrow> keeps_open fd_open k k'"
    and "se_mmap se fd sz k = (b, k') \<Longrightarrow> keeps_open fd_open k k'"
  using assms unfolding fd_kernel_def by (metis fst_conv snd_conv)+

lemma static_router_keeps_open:
  assumes fk: "fd_kernel se fd_open"
    and run: "global_static_router watch env se res path data k = Some (r, res', data', k')"
  shows "keeps_open fd_open k k'"
proof -
  obtain fd k1 where o: "sys_open (se_kern se) path O_RDONLY k = (fd, k1)" by fastforce
  obtain r2 obj k2 where f: "sys_fstat (se_kern se) fd (Obj_bytes []) k1 = (r2, obj, k2)"
    using prod_cases3 by blast
  obtain m k3 where m: "se_magic se fd k2 = (m, k3)" by fastforce
  note keep = fd_kernelD(2) [OF fk o] fd_kernelD(3) [OF fk f] fd_kernelD(4) [OF fk m]
  have closed: "keeps_open fd_open k k'" if "keeps_open fd_open k t" "sys_close (se_kern se) fd t = (c, k')" for c t
    using that keep(1) fd_kernelD(1) [OF fk that(2)] by (auto simp: keeps_open_def)
  have mapped: "keeps_open fd_open k t" if "se_mmap se fd sz k3 = (b, t)" for sz b t
    using that keep fd_kernelD(5) [OF fk that] by (auto simp: keeps_open_def)
  have "keeps_open fd_open k k1" "keeps_open fd_open k k2" "keeps_open fd_open k k3"
    using keep by (auto simp: keeps_open_def)
  with run o f m show ?thesis
    by (auto simp: global_static_router_def store_buf_def bind_Some_iff Let_def split: if_splits option.splits prod.splits
        intro: closed mapped)
qed

text \<open>The effect of answering a request: one to three operations of the connection are queued.\<close>

definition data_op :: "sqe_op \<Rightarrow> bool" where
  "data_op x \<longleftrightarrow> (case x of Op_send _ _ _ _ \<Rightarrow> True | Op_splice _ _ _ _ _ _ \<Rightarrow> True | _ \<Rightarrow> False)"

definition sending :: "'f server_connection \<Rightarrow> bool" where
  "sending c \<longleftrightarrow> cn_action c = IO_URING_OP_SEND \<or> cn_action c = IO_URING_OP_SPLICE"

definition queued :: "nat \<Rightarrow> conn \<times> ('k, 'u) world \<Rightarrow> conn \<times> ('k, 'u) world \<Rightarrow> bool" where
  "queued i st st' \<longleftrightarrow> (case (st, st') of ((c, w), (c', w')) \<Rightarrow>
     \<exists>es. w_ring w' = w_ring w @ es \<and> es \<noteq> [] \<and> length es \<le> 3
       \<and> (\<forall>e \<in> set es. sq_user e = Some i \<and> data_op (sq_op e))
       \<and> sending c' \<and> cn_total_steps c' = cn_total_steps c + int (length es)
       \<and> cn_cur_steps c' = cn_cur_steps c \<and> cn_fd c' = cn_fd c \<and> cn_coro c' = cn_coro c
       \<and> cn_str c' = cn_str c)"

lemma send_text_queued:
  assumes "send_text env i t (c, w) = Some st" and "cn_total_steps c = 0"
  shows "queued i (c, w) st \<and> w_kst (snd st) = w_kst w"
  using assms
  by (auto simp: send_text_def push_defs bind_Some_iff queued_def data_op_def sending_def to_int_id
      split: if_splits)

lemma send_response_queued:
  assumes "send_response env i res f (c, w) = Some st" and "cn_total_steps c = 0"
  shows "queued i (c, w) st \<and> w_kst (snd st) = w_kst w"
  using assms
  by (auto simp: send_response_def push_defs bind_Some_iff queued_def data_op_def sending_def to_int_id
      split: if_splits)

lemma call_handler_keeps:
  assumes "fd_kernel (sv_static env) fd_open" and "call_handler env mem rt req res w = Some (e, res', w')"
  shows "w_ring w' = w_ring w" and "keeps_open fd_open (w_kst w) (w_kst w')"
  using assms static_router_keeps_open [OF assms(1)]
  by (auto simp: call_handler_def bind_Some_iff keeps_open_def split: option.splits handler.splits)

lemma queued_ring: "queued i (c, w1) st \<Longrightarrow> w_ring w1 = w_ring w \<Longrightarrow> queued i (c, w) st"
  by (simp add: queued_def split: prod.splits)

lemma answer_request_queued:
  assumes fk: "fd_kernel (sv_static env) fd_open" and t: "cn_total_steps c = 0"
    and run: "answer_request env i fr mem (c, w) = Some (fr', st)"
  shows "queued i (c, w) st \<and> keeps_open fd_open (w_kst w) (w_kst (snd st)) \<and> fr_req fr' = fr_req fr"
proof -
  obtain path where path: "rq_path (fr_req fr) \<bind> deref mem = Some path"
    using run by (auto simp: answer_request_def bind_Some_iff)
  show ?thesis
  proof (cases "find_router (sv_routes env) path (rq_method (fr_req fr))")
    case None
    with run path t show ?thesis
      by (auto simp: answer_request_def bind_Some_iff keeps_open_def dest!: send_text_queued)
  next
    case (Some rt)
    with run path obtain e res w1 where ch: "call_handler env mem rt (fr_req fr) (fr_res fr) w = Some (e, res, w1)"
      by (auto simp: answer_request_def bind_Some_iff)
    note k = call_handler_keeps [OF fk ch]
    from run path Some ch k show ?thesis
      by (auto simp: answer_request_def bind_Some_iff Let_def split: if_splits
          dest!: send_text_queued [OF _ t] send_response_queued [OF _ t]
          intro: queued_ring)
  qed
qed

section \<open>Buffers and requests between rounds\<close>

text \<open>
  The request buffer of a connection: \<open>string_init(1024)\<close> computes a capacity of
  \<open>2 ^ 21\<close> bytes. \<open>blank\<close> is the buffer after \<open>string_init\<close> and \<open>string_reset\<close>.
\<close>

definition conn_block :: "string_t \<Rightarrow> bool" where
  "conn_block s \<longleftrightarrow> str_capacity s = 2 ^ 21 \<and> length (str_buf s) = 2 ^ 21 \<and> str_len s = 0"

definition blank :: "string_t option \<Rightarrow> bool" where
  "blank str \<longleftrightarrow> (\<forall>s. str = Some s \<longrightarrow> conn_block s \<and> set (str_buf s) \<subseteq> {NUL})"

definition tables_ok :: "http_request \<Rightarrow> bool" where
  "tables_ok req \<longleftrightarrow> kv_provided (rq_query req) \<and> kv_provided (rq_headers req)"

definition fresh_request :: "http_request \<Rightarrow> bool" where
  "fresh_request req \<longleftrightarrow> tables_ok req \<and> kv_entries (rq_query req) = [] \<and> kv_entries (rq_headers req) = []
     \<and> rq_method req = 0 \<and> rq_path req = None \<and> rq_protocol req = None"

lemma unat_conn_capacity: "unat (2 ^ 21 :: u64) = 2 ^ 21"
  by (rule unat_two_power) simp

lemma string_init_conn:
  assumes "string_init alloc 1024 = Some str"
  shows "blank str"
proof (cases str)
  case (Some s)
  have "clz_capacity 1024 = Some (2 ^ 21)"
    using clz_capacity_eq [of 10 1024] by simp
  with assms Some have "str_capacity s = 2 ^ 21"
    by (auto simp: string_init_def Let_def max_def split: if_splits)
  with Some string_init_sound(3,4) [of alloc 1024 s] assms show ?thesis
    by (simp only: blank_def conn_block_def unat_conn_capacity length_replicate) auto
qed (simp add: blank_def)

lemma string_reset_conn:
  assumes "\<forall>s. str = Some s \<longrightarrow> conn_block s"
  shows "\<exists>str'. string_reset str = Some str' \<and> blank str' \<and> (str' = None \<longleftrightarrow> str = None)"
proof (cases str)
  case (Some s)
  then have "str_capacity s = 2 ^ 21" "length (str_buf s) = 2 ^ 21" "str_len s = 0"
    using assms by (simp_all add: conn_block_def)
  with Some show ?thesis
    by (simp only: string_reset_def option.case unat_conn_capacity) (auto simp: blank_def conn_block_def)
qed (simp add: string_reset_def blank_def)

lemma fresh_request_in: "fresh_request req \<Longrightarrow> request_in n req"
  by (simp add: fresh_request_def tables_ok_def request_in_def kv_in_def)

lemma request_in_tables: "request_in n req \<Longrightarrow> tables_ok req"
  by (simp add: request_in_def kv_in_def tables_ok_def)

lemma clear_kv_provided: "kv_provided t \<Longrightarrow> kv_provided (clear_kv t) \<and> kv_entries (clear_kv t) = []"
  by (simp add: kv_provided_def kv_wf_def clear_kv_def kv_entries_def)

lemma handler_start_fresh:
  assumes "handler_start env i = Some (Some fr)"
  shows "fresh_request (fr_req fr)"
  using assms
  by (auto simp: handler_start_def bind_Some_iff Let_def fresh_request_def tables_ok_def kv_provided_def kv_wf_def
      KV_INIT_WITH_BUF_def kv_entries_def min_def split: if_splits)

text \<open>The parser on the buffer a completed \<open>recv\<close> leaves behind.\<close>

definition holds_request :: "string_t \<Rightarrow> int \<Rightarrow> bool" where
  "holds_request s v \<longleftrightarrow> conn_block s \<and> v \<le> 2 ^ 21 \<and> zero_tail (str_buf s) (nat v)"

lemma conn_parse_defined:
  assumes "holds_request s v" and "v < 2 ^ 21" and "fresh_request req"
  shows "\<exists>r req' mem'. http_parse_request env req (str_buf s) (nat v) = Some (r, req', mem')
     \<and> length mem' = 2 ^ 21 \<and> tables_ok req' \<and> (r \<noteq> 0 \<longrightarrow> (\<exists>p. rq_path req' \<bind> deref mem' = Some p))"
proof -
  let ?n = "nat v"
  have n: "?n < length (str_buf s)" and "8 \<le> length (str_buf s)" and z: "zero_tail (str_buf s) ?n"
    using assms by (auto simp: holds_request_def conn_block_def)
  then have "parse_post (insert (rq_method req) (me_mask ` set methods)) (str_buf s) ?n (http_parse_request env req (str_buf s) ?n)"
    using assms(3) by (intro http_parse_request_post fresh_request_in) (simp_all add: fresh_request_def)
  then obtain r req' mem' where p: "http_parse_request env req (str_buf s) ?n = Some (r, req', mem')"
    "nulled (str_buf s) mem'" "request_in ?n req'" "r = 0 \<or> rq_path req' \<noteq> None"
    unfolding parse_post_def by blast
  have len: "length mem' = length (str_buf s)" and "mem' ! ?n = NUL"
    using p(2) n z by (auto simp: nulled_def zero_tail_def)
  then have "r \<noteq> 0 \<longrightarrow> (\<exists>q. rq_path req' \<bind> deref mem' = Some q)"
    using p(3,4) n ptr_in_readable [of ?n "rq_path req'" mem'] by (auto simp: request_in_def)
  with p len request_in_tables assms(1) show ?thesis by (auto simp: holds_request_def conn_block_def)
qed

text \<open>
  The effect of one round on a received request: an answer is queued, the buffer stays in
  place, no open descriptor is closed.
\<close>

definition answered ::
  "('k \<Rightarrow> int \<Rightarrow> bool) \<Rightarrow> nat \<Rightarrow> conn \<times> ('k, 'u) world \<Rightarrow> frame \<times> conn \<times> ('k, 'u) world \<Rightarrow> bool"
where
  "answered fd_open i st x \<longleftrightarrow> (case (st, x) of ((c, w), (fr', c', w')) \<Rightarrow>
     queued i (c\<lparr>cn_str := cn_str c'\<rparr>, w) (c', w') \<and> keeps_open fd_open (w_kst w) (w_kst w')
     \<and> tables_ok (fr_req fr') \<and> (\<exists>s'. cn_str c' = Some s' \<and> conn_block s'))"

lemma answeredI:
  assumes "queued i (c\<lparr>cn_str := Some s\<rparr>, w) st" and "keeps_open fd_open (w_kst w) (w_kst (snd st))"
    and "tables_ok (fr_req fr)" and "conn_block s"
  shows "answered fd_open i (c, w) (fr, st)"
proof -
  obtain c' w' where st: "st = (c', w')" by fastforce
  with assms(1) have "cn_str c' = Some s" by (auto simp: queued_def)
  with assms st show ?thesis by (simp add: answered_def)
qed

lemma recv_case_data:
  assumes run: "recv_case env i v fr (c, w) = Some (l, fr', st)" and v: "0 < v"
    and str: "cn_str c = Some s" "holds_request s v" and fresh: "fresh_request (fr_req fr)"
    and t: "cn_total_steps c = 0" and fk: "fd_kernel (sv_static env) fd_open"
  shows "l = YIELD \<and> answered fd_open i (c, w) (fr', st)"
proof -
  have cap: "sint (str_capacity s) = 2 ^ 21" and blk: "conn_block s" and vle: "v \<le> 2 ^ 21"
    using str by (simp_all add: holds_request_def conn_block_def)
  have tx: "queued i (c\<lparr>cn_str := x\<rparr>, w) st' \<and> keeps_open fd_open (w_kst w) (w_kst (snd st'))"
    if "send_text env i resp (c\<lparr>cn_str := x\<rparr>, w) = Some st'" for resp x st'
    using send_text_queued [OF that] t by (simp add: keeps_open_def)
  show ?thesis
  proof (cases "v = 2 ^ 21")
    case True
    have eq: "c = c\<lparr>cn_str := Some s\<rparr>" using str(1) by simp
    from run v str(1) True cap have "l = YIELD" "fr' = fr" "send_text env i RESPONSE_413 (c, w) = Some st"
      by (auto simp: recv_case_def bind_Some_iff)
    with tx [of RESPONSE_413 "Some s" st] eq fresh blk show ?thesis
      by (auto intro!: answeredI simp: fresh_request_def)
  next
    case False
    then obtain r req mem where p: "http_parse_request (sv_mem env) (fr_req fr) (str_buf s) (nat v) = Some (r, req, mem)"
      "length mem = 2 ^ 21" "tables_ok req"
      using conn_parse_defined [OF str(2) _ fresh] vle by fastforce
    let ?s = "s\<lparr>str_buf := mem\<rparr>" and ?fr = "fr\<lparr>fr_req := req\<rparr>"
    have blk': "conn_block ?s" using blk p(2) by (simp add: conn_block_def)
    show ?thesis
    proof (cases "r = 0")
      case True
      with run v str(1) False cap p(1) have "l = YIELD" "fr' = ?fr"
        "send_text env i RESPONSE_400 (c\<lparr>cn_str := Some ?s\<rparr>, w) = Some st"
        by (auto simp: recv_case_def bind_Some_iff Let_def)
      with tx [OF this(3)] p(3) blk' show ?thesis by (auto intro!: answeredI)
    next
      case nz: False
      with run v str(1) False cap p(1)
      have "l = YIELD" "answer_request env i ?fr mem (c\<lparr>cn_str := Some ?s\<rparr>, w) = Some (fr', st)"
        by (auto simp: recv_case_def bind_Some_iff Let_def)
      with answer_request_queued [OF fk _ this(2)] t p(3) blk' show ?thesis by (auto intro!: answeredI)
    qed
  qed
qed

lemma reset_case_spec:
  assumes run: "reset_case env fr (c, w) = Some (fr', c', w')"
    and str: "\<forall>s. cn_str c = Some s \<longrightarrow> conn_block s" and tab: "tables_ok (fr_req fr)"
    and fk: "fd_kernel (sv_static env) fd_open"
  shows "fresh_request (fr_req fr')" and "blank (cn_str c')" and "cn_str c' = None \<longleftrightarrow> cn_str c = None"
    and "c' = c\<lparr>cn_cur_steps := 0, cn_total_steps := 0, cn_str := cn_str c'\<rparr>" and "w_ring w' = w_ring w"
    and "fd_open (w_kst w') j \<longleftrightarrow> fd_open (w_kst w) j \<and> j \<noteq> cn_fd c"
proof -
  obtain r k where close: "sys_close (se_kern (sv_static env)) (cn_fd c) (w_kst w) = (r, k)" by fastforce
  obtain str' where str': "string_reset (cn_str c) = Some str'" "blank str'" "str' = None \<longleftrightarrow> cn_str c = None"
    using string_reset_conn [OF str] by auto
  from run have "c' = c\<lparr>cn_cur_steps := 0, cn_total_steps := 0, cn_str := str'\<rparr>" "w' = w\<lparr>w_kst := k\<rparr>"
    "fr_req fr' = (fr_req fr)\<lparr>rq_method := 0, rq_path := None, rq_protocol := None,
        rq_headers := clear_kv (rq_headers (fr_req fr)), rq_query := clear_kv (rq_query (fr_req fr))\<rparr>"
    by (clarsimp simp: reset_case_def Let_def bind_Some_iff close str'(1))+
  with str' tab clear_kv_provided fd_kernelD(1) [OF fk close]
  show "fresh_request (fr_req fr')" and "blank (cn_str c')" and "cn_str c' = None \<longleftrightarrow> cn_str c = None"
    and "c' = c\<lparr>cn_cur_steps := 0, cn_total_steps := 0, cn_str := cn_str c'\<rparr>" and "w_ring w' = w_ring w"
    and "fd_open (w_kst w') j \<longleftrightarrow> fd_open (w_kst w) j \<and> j \<noteq> cn_fd c"
    by (simp_all add: fresh_request_def tables_ok_def)
qed

end
