(* ===== verification/Transitions.thy ===== *)
theory Transitions
  imports Main
begin

text \<open>
  Transition systems: reachable states, and three contracts. \<open>inductive_invariant\<close> is a
  predicate that holds at the start and is kept by every step, hence holds in every
  reachable state. \<open>stable_property\<close> adds a predicate that, once it holds in a reachable
  state, holds ever after. \<open>simulation\<close> adds an abstract system and a mapping of states
  under which every step is a step of the abstract system or invisible to it.
\<close>

inductive reach :: "('s \<Rightarrow> bool) \<Rightarrow> ('s \<Rightarrow> 's \<Rightarrow> bool) \<Rightarrow> 's \<Rightarrow> bool" for init step where
  reach_init: "init s \<Longrightarrow> reach init step s"
| reach_step: "reach init step s \<Longrightarrow> step s s' \<Longrightarrow> reach init step s'"

lemma reach_steps: "step\<^sup>*\<^sup>* s s' \<Longrightarrow> reach init step s \<Longrightarrow> reach init step s'"
  by (induction rule: rtranclp_induct) (auto intro: reach_step)

locale inductive_invariant =
  fixes init :: "'s \<Rightarrow> bool" and step :: "'s \<Rightarrow> 's \<Rightarrow> bool" and inv :: "'s \<Rightarrow> bool"
  assumes inv_init: "init s \<Longrightarrow> inv s"
    and inv_step: "inv s \<Longrightarrow> step s s' \<Longrightarrow> inv s'"
begin

lemma reach_inv: "reach init step s \<Longrightarrow> inv s"
  by (induction rule: reach.induct) (auto intro: inv_init inv_step)

end

locale stable_property = inductive_invariant +
  fixes P :: "'s \<Rightarrow> bool"
  assumes P_step: "inv s \<Longrightarrow> P s \<Longrightarrow> step s s' \<Longrightarrow> P s'"
begin

lemma P_forever: "step\<^sup>*\<^sup>* s s' \<Longrightarrow> reach init step s \<Longrightarrow> P s \<Longrightarrow> P s'"
proof (induction rule: rtranclp_induct)
  case (step t u)
  then have "reach init (\<lambda>s. step s) t" by (blast intro: reach_steps)
  with step show ?case by (blast intro: P_step reach_inv)
qed

end

locale simulation = inductive_invariant init step inv
  for init :: "'s \<Rightarrow> bool" and step :: "'s \<Rightarrow> 's \<Rightarrow> bool" and inv :: "'s \<Rightarrow> bool" +
  fixes ainit :: "'a \<Rightarrow> bool" and astep :: "'a \<Rightarrow> 'a \<Rightarrow> bool" and abs :: "'s \<Rightarrow> 'a"
  assumes sim_init: "init s \<Longrightarrow> ainit (abs s)"
    and sim_step: "inv s \<Longrightarrow> step s s' \<Longrightarrow> abs s' = abs s \<or> astep (abs s) (abs s')"
begin

lemma sim_run: "step\<^sup>*\<^sup>* s s' \<Longrightarrow> reach init step s \<Longrightarrow> astep\<^sup>*\<^sup>* (abs s) (abs s')"
proof (induction rule: rtranclp_induct)
  case (step t u)
  then have "reach init (\<lambda>s. step s) t" by (blast intro: reach_steps)
  then have "abs u = abs t \<or> astep (abs t) (abs u)" by (intro sim_step reach_inv step.hyps)
  with step show ?case by (auto intro: rtranclp.rtrancl_into_rtrancl)
qed simp

lemma sim_reach: "reach init step s \<Longrightarrow> reach ainit astep (abs s)"
proof (induction rule: reach.induct)
  case (reach_step s s')
  then have "abs s' = abs s \<or> astep (abs s) (abs s')" by (intro sim_step reach_inv)
  with reach_step show ?case by (auto intro: reach.reach_step)
qed (auto intro: reach_init sim_init)

end

end
