(* ===== verification/Event_Loop.thy ===== *)
theory Event_Loop
  imports Conn_Handler Transitions
begin

text \<open>
  The loop \<open>io_uring_listen_loop\<close> of \<open>lib/io_loop.c\<close> as a transition system of the
  program, the two queues and the kernel. \<open>process_cqe\<close> is the body of
  \<open>io_uring_for_each_cqe\<close>. The steps of the program follow the loop (submit, wait, take
  completions until the queue is empty); the steps of the kernel complete one submitted
  operation each, in any order and with any result the operation can have.
\<close>

section \<open>Model\<close>

subsection \<open>One completion\<close>

record cqe =
  cq_user :: "nat option"
  cq_res :: int

type_synonym conns = "nat \<Rightarrow> conn"

text \<open>The process ends (with its exit code) or goes on.\<close>

datatype 'a outcome = Exited int | Running 'a

definition EAGAIN :: int where "EAGAIN = 11"

text \<open>The code at \<open>ACCEPT_AGAIN\<close>.\<close>

definition accept_again ::
  "('k, 'u) server_env \<Rightarrow> conns \<times> ('k, 'u) world \<Rightarrow> (conns \<times> ('k, 'u) world) outcome option"
where
  "accept_again env st =
     (case st of (conns, w) \<Rightarrow> do {
        (ring, conn) \<leftarrow> io_uring_push_accept (sv_slot env) (w_ring w) (int (sv_listen env)) (sv_listen env)
                         (conns (sv_listen env)) 0;
        Some (Running (conns(sv_listen env := conn), w\<lparr>w_ring := ring\<rparr>))
      })"

definition accept_connection ::
  "bool \<Rightarrow> ('k, 'u) server_env \<Rightarrow> nat \<Rightarrow> conns \<times> ('k, 'u) world
     \<Rightarrow> (conns \<times> ('k, 'u) world) outcome option"
where
  "accept_connection co_alloc env i st =
     (case st of (conns, w) \<Rightarrow>
        if sv_nfds env \<le> i then None
        else do {
          (r, conn) \<leftarrow> (if cn_coro (conns i) = None
                        then prepare_connection co_alloc (sv_mem env) (int i) (conns i)
                        else Some (0, conns i));
          if r < 0 then
            (let (c, k) = sys_close (se_kern (sv_static env)) (int i) (w_kst w)
             in accept_again env (conns(i := conn), w\<lparr>w_kst := k\<rparr>))
          else do {
            str \<leftarrow> cn_str conn;
            (ring, conn') \<leftarrow> io_uring_push_recv (sv_slot env) (w_ring w) (int i) (str_capacity str) i conn 0;
            accept_again env (conns(i := conn'), w\<lparr>w_ring := ring\<rparr>)
          }
        })"

definition process_cqe ::
  "bool \<Rightarrow> ('k, 'u) server_env \<Rightarrow> cqe \<Rightarrow> conns \<times> ('k, 'u) world
     \<Rightarrow> (conns \<times> ('k, 'u) world) outcome option"
where
  "process_cqe co_alloc env c st =
     (case st of (conns, w) \<Rightarrow>
        (case cq_user c of
           None \<Rightarrow> Some (Exited (- 1))
         | Some i \<Rightarrow>
             if cn_action (conns i) = IO_URING_OP_ACCEPT
             then if cq_res c < 0
                  then if cq_res c = - EAGAIN then accept_again env st else Some (Exited 1)
                  else accept_connection co_alloc env (nat (cq_res c)) st
             else do {
               (conn, w') \<leftarrow> resume_connection env i (cq_res c) (conns i, w);
               Some (Running (conns(i := conn), w'))
             }))"

subsection \<open>The loop\<close>

datatype phase = Submitting | Waiting | Draining

record ('k, 'u) server_state =
  ss_phase :: phase
  ss_conns :: conns
  ss_world :: "('k, 'u) world"
  ss_flight :: "sqe list"
  ss_cq :: "cqe list"

text \<open>
  The state when the loop is entered: \<^term>\<open>Some None\<close> where the function returns because
  the ring cannot be set up. All connections are zero, as \<open>create_server\<close> leaves them.
\<close>

definition zero_conn :: conn where
  "zero_conn = \<lparr>cn_fd = 0, cn_action = 0, cn_cur_steps = 0, cn_total_steps = 0, cn_coro = None,
     cn_str = None, cn_svr = False\<rparr>"

definition io_uring_listen_start ::
  "('k, 'u) server_env \<Rightarrow> int \<Rightarrow> bool \<Rightarrow> 'k \<Rightarrow> 'u \<Rightarrow> ('k, 'u) server_state option option"
where
  "io_uring_listen_start env init_ret fast_poll k u =
     (if init_ret < 0 \<or> \<not> fast_poll then Some None
      else do {
        (ring, conn) \<leftarrow> io_uring_push_accept (sv_slot env) [] (int (sv_listen env)) (sv_listen env) zero_conn 0;
        Some (Some \<lparr>ss_phase = Submitting, ss_conns = (\<lambda>_. zero_conn)(sv_listen env := conn),
                    ss_world = \<lparr>w_ring = ring, w_kst = k, w_data = Map_null, w_user = u\<rparr>,
                    ss_flight = [], ss_cq = []\<rparr>)
      })"

text \<open>The bytes a completed \<open>recv\<close> has put into the buffer of its connection.\<close>

definition receive :: "cbuf \<Rightarrow> conn \<Rightarrow> conn" where
  "receive bytes c =
     (case cn_str c of
        None \<Rightarrow> c
      | Some s \<Rightarrow> c\<lparr>cn_str := Some (s\<lparr>str_buf := bytes @ drop (length bytes) (str_buf s)\<rparr>)\<rparr>)"

text \<open>
  The steps. An accepted descriptor is one that was not open, below the limit the server
  has set; \<open>fd_open\<close> tells which descriptors are open in a state of the kernel. A \<open>recv\<close>
  writes at most as many bytes as its length; memory conditions may change at any step.
\<close>

inductive server_step ::
  "('k, 'u) server_env \<Rightarrow> ('k \<Rightarrow> int \<Rightarrow> bool) \<Rightarrow> ('k, 'u) server_state \<Rightarrow> ('k, 'u) server_state \<Rightarrow> bool"
  for env fd_open
where
  submit: "ss_phase s = Submitting \<Longrightarrow>
     server_step env fd_open s
       (s\<lparr>ss_phase := Waiting, ss_flight := ss_flight s @ w_ring (ss_world s),
          ss_world := (ss_world s)\<lparr>w_ring := []\<rparr>\<rparr>)"
| wait: "ss_phase s = Waiting \<Longrightarrow> ss_cq s \<noteq> [] \<Longrightarrow>
     server_step env fd_open s (s\<lparr>ss_phase := Draining\<rparr>)"
| process: "ss_phase s = Draining \<Longrightarrow> ss_cq s = c # cs \<Longrightarrow>
     process_cqe co_alloc (env\<lparr>sv_mem := mem\<rparr>) c (ss_conns s, ss_world s) = Some (Running (conns, w)) \<Longrightarrow>
     server_step env fd_open s (s\<lparr>ss_conns := conns, ss_world := w, ss_cq := cs\<rparr>)"
| drained: "ss_phase s = Draining \<Longrightarrow> ss_cq s = [] \<Longrightarrow>
     server_step env fd_open s (s\<lparr>ss_phase := Submitting\<rparr>)"
| accept_failed: "ss_flight s = xs @ e # ys \<Longrightarrow> sq_op e = Op_accept fd \<Longrightarrow> r < 0 \<Longrightarrow>
     server_step env fd_open s
       (s\<lparr>ss_flight := xs @ ys, ss_cq := ss_cq s @ [\<lparr>cq_user = sq_user e, cq_res = r\<rparr>]\<rparr>)"
| accepted: "ss_flight s = xs @ e # ys \<Longrightarrow> sq_op e = Op_accept fd \<Longrightarrow>
     \<not> fd_open (w_kst (ss_world s)) (int r) \<Longrightarrow> r < sv_nfds env \<Longrightarrow>
     (\<forall>j. fd_open k j \<longleftrightarrow> fd_open (w_kst (ss_world s)) j \<or> j = int r) \<Longrightarrow>
     server_step env fd_open s
       (s\<lparr>ss_flight := xs @ ys, ss_world := (ss_world s)\<lparr>w_kst := k\<rparr>,
          ss_cq := ss_cq s @ [\<lparr>cq_user = sq_user e, cq_res = int r\<rparr>]\<rparr>)"
| recv_failed: "ss_flight s = xs @ e # ys \<Longrightarrow> sq_op e = Op_recv fd len \<Longrightarrow> r < 0 \<Longrightarrow>
     server_step env fd_open s
       (s\<lparr>ss_flight := xs @ ys, ss_cq := ss_cq s @ [\<lparr>cq_user = sq_user e, cq_res = r\<rparr>]\<rparr>)"
| received: "ss_flight s = xs @ e # ys \<Longrightarrow> sq_op e = Op_recv fd len \<Longrightarrow> sq_user e = Some i \<Longrightarrow>
     length bytes \<le> unat len \<Longrightarrow>
     server_step env fd_open s
       (s\<lparr>ss_flight := xs @ ys, ss_conns := (ss_conns s)(i := receive bytes (ss_conns s i)),
          ss_cq := ss_cq s @ [\<lparr>cq_user = Some i, cq_res = int (length bytes)\<rparr>]\<rparr>)"
| sent: "ss_flight s = xs @ e # ys \<Longrightarrow>
     (\<exists>fd b n fl. sq_op e = Op_send fd b n fl) \<or> (\<exists>a b c d n fl. sq_op e = Op_splice a b c d n fl) \<Longrightarrow>
     server_step env fd_open s
       (s\<lparr>ss_flight := xs @ ys, ss_cq := ss_cq s @ [\<lparr>cq_user = sq_user e, cq_res = r\<rparr>]\<rparr>)"

text \<open>Room for two entries: \<open>io_uring_get_sqe\<close> finds one now, and again after one more is queued.\<close>

definition room_for_two :: "('k, 'u) server_env \<Rightarrow> ring \<Rightarrow> bool" where
  "room_for_two env ring \<longleftrightarrow> sv_slot env ring \<and> (\<forall>e. sv_slot env (ring @ [e]))"

lemma room_QD: "sv_slot env = (\<lambda>ring. length ring < QD) \<Longrightarrow> room_for_two env ring \<longleftrightarrow> length ring + 2 \<le> QD"
  by (auto simp: room_for_two_def)

section \<open>The invariant\<close>

text \<open>The pending operations and completions of connection \<open>i\<close>.\<close>

definition ops :: "('k, 'u) server_state \<Rightarrow> nat \<Rightarrow> sqe list" where
  "ops s i = filter (\<lambda>e. sq_user e = Some i) (ss_flight s @ w_ring (ss_world s))"

definition cqs :: "('k, 'u) server_state \<Rightarrow> nat \<Rightarrow> cqe list" where
  "cqs s i = filter (\<lambda>q. cq_user q = Some i) (ss_cq s)"

definition coro_ok :: "(http_request \<Rightarrow> bool) \<Rightarrow> conn \<Rightarrow> bool" where
  "coro_ok P c \<longleftrightarrow> (\<forall>fr. cn_coro c = Some (Co_suspended fr) \<longrightarrow> P (fr_req fr))"

text \<open>Between two requests: counters at 0, buffer zeroed, request cleared.\<close>

definition conn_idle :: "conn \<Rightarrow> bool" where
  "conn_idle c \<longleftrightarrow> cn_cur_steps c = 0 \<and> cn_total_steps c = 0 \<and> blank (cn_str c) \<and> coro_ok fresh_request c"

text \<open>Waiting for a request: one \<open>recv\<close> into a zeroed buffer, or its completion.\<close>

definition conn_recv :: "conn \<Rightarrow> sqe list \<Rightarrow> cqe list \<Rightarrow> bool" where
  "conn_recv c os qs \<longleftrightarrow> cn_action c = IO_URING_OP_RECV \<and> cn_cur_steps c = 0 \<and> cn_total_steps c = 0
     \<and> coro_ok fresh_request c
     \<and> (\<exists>str. cn_str c = Some str
         \<and> ((\<exists>e fd. os = [e] \<and> qs = [] \<and> sq_op e = Op_recv fd (2 ^ 21) \<and> blank (Some str))
            \<or> (\<exists>q. os = [] \<and> qs = [q] \<and> holds_request str (cq_res q))))"

text \<open>Answering: the counters differ by the number of pending operations.\<close>

definition conn_send :: "conn \<Rightarrow> sqe list \<Rightarrow> cqe list \<Rightarrow> bool" where
  "conn_send c os qs \<longleftrightarrow> sending c \<and> 0 \<le> cn_cur_steps c
     \<and> cn_total_steps c = cn_cur_steps c + int (length os + length qs) \<and> cn_total_steps c \<le> 3
     \<and> (\<exists>fr. cn_coro c = Some (Co_suspended fr) \<and> tables_ok (fr_req fr))
     \<and> (\<exists>str. cn_str c = Some str \<and> conn_block str) \<and> (\<forall>e \<in> set os. data_op (sq_op e))"

definition conn_ok :: "nat \<Rightarrow> bool \<Rightarrow> conn \<Rightarrow> sqe list \<Rightarrow> cqe list \<Rightarrow> bool" where
  "conn_ok i is_open c os qs \<longleftrightarrow> cn_action c \<noteq> IO_URING_OP_ACCEPT
     \<and> (cn_str c \<noteq> None \<longrightarrow> cn_coro c \<noteq> None \<and> cn_fd c = int i)
     \<and> (\<not> is_open \<longrightarrow> conn_idle c \<and> os = [] \<and> qs = [])
     \<and> (os \<noteq> [] \<or> qs \<noteq> [] \<longrightarrow> conn_recv c os qs \<or> conn_send c os qs)"

text \<open>A connection accepted and not yet taken over by the loop.\<close>

definition just_accepted ::
  "('k, 'u) server_env \<Rightarrow> ('k \<Rightarrow> int \<Rightarrow> bool) \<Rightarrow> ('k, 'u) server_state \<Rightarrow> nat \<Rightarrow> bool"
where
  "just_accepted env fd_open s i \<longleftrightarrow> i \<noteq> sv_listen env \<and> conn_idle (ss_conns s i) \<and> ops s i = [] \<and> cqs s i = []
     \<and> fd_open (w_kst (ss_world s)) (int i)"

definition listen_ok ::
  "('k, 'u) server_env \<Rightarrow> ('k \<Rightarrow> int \<Rightarrow> bool) \<Rightarrow> ('k, 'u) server_state \<Rightarrow> bool"
where
  "listen_ok env fd_open s \<longleftrightarrow> (let l = sv_listen env in
     cn_action (ss_conns s l) = IO_URING_OP_ACCEPT \<and> fd_open (w_kst (ss_world s)) (int l)
     \<and> ((\<exists>e fd. ops s l = [e] \<and> cqs s l = [] \<and> sq_op e = Op_accept fd)
        \<or> (\<exists>q. ops s l = [] \<and> cqs s l = [q] \<and> (0 \<le> cq_res q \<longrightarrow> just_accepted env fd_open s (nat (cq_res q))))))"

definition server_inv ::
  "('k, 'u) server_env \<Rightarrow> ('k \<Rightarrow> int \<Rightarrow> bool) \<Rightarrow> ('k, 'u) server_state \<Rightarrow> bool"
where
  "server_inv env fd_open s \<longleftrightarrow> listen_ok env fd_open s
     \<and> (\<forall>e \<in> set (ss_flight s @ w_ring (ss_world s)). sq_user e \<noteq> None) \<and> (\<forall>q \<in> set (ss_cq s). cq_user q \<noteq> None)
     \<and> (\<forall>i. i \<noteq> sv_listen env \<longrightarrow>
          conn_ok i (fd_open (w_kst (ss_world s)) (int i)) (ss_conns s i) (ops s i) (cqs s i))"

section \<open>Facts on one connection\<close>

lemma conn_ok_open: "conn_ok i a c os qs \<Longrightarrow> (a \<Longrightarrow> b) \<Longrightarrow> conn_ok i b c os qs"
  by (auto simp: conn_ok_def)

lemma conn_idle_ok: "conn_ok i a c os qs \<Longrightarrow> conn_ok i b c [] [] \<or> \<not> conn_idle c"
  by (auto simp: conn_ok_def)

lemma blank_zero_tail: "blank (Some s) \<Longrightarrow> zero_tail (str_buf s) n"
  by (auto simp: blank_def zero_tail_def dest!: nth_mem)

lemma recv_completes:
  assumes "conn_ok i True c [e] []" and "sq_op e = Op_recv fd len" and "length bytes \<le> unat len"
    and "cq_res q = int (length bytes)"
  shows "conn_ok i True (receive bytes c) [] [q]"
proof -
  have "\<not> data_op (sq_op e)" using assms(2) by (simp add: data_op_def)
  with assms(1,2) obtain str where c: "cn_action c = IO_URING_OP_RECV" "cn_cur_steps c = 0" "cn_total_steps c = 0"
    "coro_ok fresh_request c" "cn_str c = Some str" "blank (Some str)" "len = 2 ^ 21" "cn_coro c \<noteq> None" "cn_fd c = int i"
    by (auto simp: conn_ok_def conn_recv_def conn_send_def)
  let ?buf = "bytes @ drop (length bytes) (str_buf str)"
  have len: "length bytes \<le> 2 ^ 21" "length (str_buf str) = 2 ^ 21" "conn_block str"
    using assms(3) c unat_conn_capacity by (auto simp: blank_def conn_block_def)
  have "zero_tail ?buf (length bytes)"
    using blank_zero_tail [OF c(6), of 0] len by (auto simp: zero_tail_def nth_append)
  with len have "holds_request (str\<lparr>str_buf := ?buf\<rparr>) (cq_res q)"
    by (auto simp: holds_request_def conn_block_def assms(4))
  with c show ?thesis by (auto simp: conn_ok_def conn_recv_def receive_def coro_ok_def)
qed

lemma recv_fails:
  assumes "conn_ok i True c [e] []" and "sq_op e = Op_recv fd len" and "cq_res q < 0"
  shows "conn_ok i True c [] [q]"
proof -
  have "\<not> data_op (sq_op e)" using assms(2) by (simp add: data_op_def)
  with assms(1,2) obtain str where c: "cn_action c = IO_URING_OP_RECV" "cn_cur_steps c = 0" "cn_total_steps c = 0"
    "coro_ok fresh_request c" "cn_str c = Some str" "blank (Some str)" "cn_coro c \<noteq> None" "cn_fd c = int i"
    by (auto simp: conn_ok_def conn_recv_def conn_send_def)
  then have "holds_request str (cq_res q)"
    using assms(3) blank_zero_tail [OF c(6), of 0] by (auto simp: holds_request_def blank_def)
  with c show ?thesis by (auto simp: conn_ok_def conn_recv_def)
qed

lemma op_recv_only:
  assumes "conn_ok i True c (xs @ e # ys) qs" and "sq_op e = Op_recv fd len"
  shows "xs = [] \<and> ys = [] \<and> qs = []"
proof -
  have "\<not> data_op (sq_op e)" using assms(2) by (simp add: data_op_def)
  with assms show ?thesis by (auto simp: conn_ok_def conn_recv_def conn_send_def Cons_eq_append_conv append_eq_Cons_conv)
qed

lemma recv_completes_at:
  assumes "conn_ok i True c (us @ e # vs) qs" and "sq_op e = Op_recv fd len" and "length bytes \<le> unat len"
    and "cq_res q = int (length bytes)"
  shows "conn_ok i True (receive bytes c) (us @ vs) (qs @ [q])"
  using op_recv_only [OF assms(1,2)] assms recv_completes by auto

lemma recv_fails_at:
  assumes "conn_ok i True c (us @ e # vs) qs" and "sq_op e = Op_recv fd len" and "cq_res q < 0"
  shows "conn_ok i True c (us @ vs) (qs @ [q])"
  using op_recv_only [OF assms(1,2)] assms recv_fails by auto

lemma send_completes:
  assumes "conn_ok i True c (xs @ e # ys) qs" and "data_op (sq_op e)"
  shows "conn_ok i True c (xs @ ys) (qs @ [q])"
proof -
  have "\<not> conn_recv c (xs @ e # ys) qs"
    using assms(2) by (auto simp: conn_recv_def data_op_def append_eq_Cons_conv)
  with assms(1) have "conn_send c (xs @ e # ys) qs" by (auto simp: conn_ok_def)
  then have "conn_send c (xs @ ys) (qs @ [q])" by (auto simp: conn_send_def)
  with assms(1) show ?thesis by (auto simp: conn_ok_def)
qed

text \<open>The effect of resuming the coroutine of connection \<open>i\<close> with its next completion.\<close>

definition resumed ::
  "('k \<Rightarrow> int \<Rightarrow> bool) \<Rightarrow> nat \<Rightarrow> sqe list \<Rightarrow> cqe list \<Rightarrow> ('k, 'u) world \<Rightarrow> conn \<times> ('k, 'u) world \<Rightarrow> bool"
where
  "resumed fd_open i os qs w st \<longleftrightarrow> (case st of (c', w') \<Rightarrow>
     (\<exists>es. w_ring w' = w_ring w @ es \<and> (\<forall>e \<in> set es. sq_user e = Some i \<and> data_op (sq_op e))
        \<and> conn_ok i (fd_open (w_kst w') (int i)) c' (os @ es) qs)
     \<and> (\<forall>j. j \<noteq> int i \<longrightarrow> fd_open (w_kst w) j \<longrightarrow> fd_open (w_kst w') j))"

lemma resume_reset:
  assumes run: "reset_case env fr (c, w) = Some (fr', c', w')" and fk: "fd_kernel (sv_static env) fd_open"
    and str: "cn_str c = Some s" "conn_block s" and tab: "tables_ok (fr_req fr)" and fd: "cn_fd c = int i"
    and act: "cn_action c \<noteq> IO_URING_OP_ACCEPT"
  shows "resumed fd_open i [] [] w (c'\<lparr>cn_coro := Some (Co_suspended fr')\<rparr>, w')"
proof -
  have "\<forall>x. cn_str c = Some x \<longrightarrow> conn_block x" using str by simp
  note r = reset_case_spec [OF run this tab fk]
  have c': "cn_action c' = cn_action c" "cn_fd c' = cn_fd c" "cn_cur_steps c' = 0" "cn_total_steps c' = 0"
    by (subst r(4), simp)+
  show ?thesis
    using r(1,2,3,5,6) c' fd act str(1)
    by (auto simp: resumed_def conn_ok_def conn_idle_def coro_ok_def)
qed

lemma resume_recv:
  assumes run: "handler_body env i (cq_res q) fr (c, w) = Some (fr', c', w')"
    and fk: "fd_kernel (sv_static env) fd_open" and opn: "fd_open (w_kst w) (int i)"
    and c: "conn_recv c [] [q]" "cn_fd c = int i" and fr: "fresh_request (fr_req fr)"
    and coro: "cn_coro c \<noteq> None"
  shows "resumed fd_open i [] [] w (c'\<lparr>cn_coro := Some (Co_suspended fr')\<rparr>, w')"
proof -
  obtain str where str: "cn_str c = Some str" "holds_request str (cq_res q)"
    and act: "cn_action c = IO_URING_OP_RECV" "cn_cur_steps c = 0" "cn_total_steps c = 0"
    using c(1) by (auto simp: conn_recv_def)
  have blk: "conn_block str" using str(2) by (simp add: holds_request_def)
  have tab: "tables_ok (fr_req fr)" using fr by (simp add: fresh_request_def)
  consider "cq_res q < 0" | "cq_res q = 0" | "0 < cq_res q" by linarith
  then show ?thesis
  proof cases
    case 1
    with run act have "fr' = fr" "c' = c" "w' = w" by (auto simp: handler_body_def recv_case_def)
    with opn act c(2) coro show ?thesis by (auto simp: resumed_def conn_ok_def)
  next
    case 2
    with run act have "reset_case env fr (c, w) = Some (fr', c', w')"
      by (auto simp: handler_body_def recv_case_def)
    then show ?thesis by (rule resume_reset [OF _ fk str(1) blk tab c(2)]) (simp add: act)
  next
    case 3
    from run act obtain l fr1 st1 where rc: "recv_case env i (cq_res q) fr (c, w) = Some (l, fr1, st1)"
      "(if l = RESET then reset_case env fr1 st1 else Some (fr1, st1)) = Some (fr', c', w')"
      by (auto simp: handler_body_def bind_Some_iff)
    with recv_case_data [OF rc(1) 3 str fr act(3) fk] have a: "answered fd_open i (c, w) (fr', c', w')" by simp
    then obtain es where "w_ring w' = w_ring w @ es" "es \<noteq> []" "length es \<le> 3"
      "\<forall>e \<in> set es. sq_user e = Some i \<and> data_op (sq_op e)" "sending c'" "cn_total_steps c' = int (length es)"
      "cn_cur_steps c' = 0" "cn_fd c' = int i" "cn_coro c' = cn_coro c"
      using act c(2) by (auto simp: answered_def queued_def)
    moreover have "keeps_open fd_open (w_kst w) (w_kst w')" "tables_ok (fr_req fr')"
      "\<exists>s'. cn_str c' = Some s' \<and> conn_block s'" using a by (auto simp: answered_def)
    ultimately show ?thesis using opn
      by (auto simp: resumed_def conn_ok_def conn_send_def coro_ok_def sending_def keeps_open_def)
  qed
qed

text \<open>A completion of an answer is counted; the last one resets the connection.\<close>

lemma send_round:
  assumes c: "conn_send c os (q # qs)"
  shows "handler_body env i v fr (c, w) =
      (if os = [] \<and> qs = [] then reset_case env fr (c\<lparr>cn_cur_steps := cn_cur_steps c + 1\<rparr>, w)
       else Some (fr, c\<lparr>cn_cur_steps := cn_cur_steps c + 1\<rparr>, w))"
proof -
  have cnt: "0 \<le> cn_cur_steps c" "cn_total_steps c = cn_cur_steps c + 1 + int (length os + length qs)"
      "cn_total_steps c \<le> 3" "sending c"
    using c by (auto simp: conn_send_def)
  have last: "cn_cur_steps c + 1 = cn_total_steps c \<longleftrightarrow> os = [] \<and> qs = []"
    using cnt(2) by (simp flip: of_nat_add)
  have "to_int (cn_cur_steps c + 1) = cn_cur_steps c + 1" using cnt by (intro to_int_id) auto
  then show ?thesis using cnt(4) by (auto simp: handler_body_def sending_def last Let_def)
qed

lemma resume_send:
  assumes run: "handler_body env i v fr (c, w) = Some (fr', c', w')"
    and fk: "fd_kernel (sv_static env) fd_open" and opn: "fd_open (w_kst w) (int i)"
    and c: "conn_send c os (q # qs)" "cn_fd c = int i" and fr: "tables_ok (fr_req fr)"
  shows "resumed fd_open i os qs w (c'\<lparr>cn_coro := Some (Co_suspended fr')\<rparr>, w')"
proof -
  obtain str where str: "cn_str c = Some str" "conn_block str" and snd: "sending c"
    and cnt: "0 \<le> cn_cur_steps c" "cn_total_steps c = cn_cur_steps c + 1 + int (length os + length qs)"
      "cn_total_steps c \<le> 3" "\<forall>e \<in> set os. data_op (sq_op e)"
    using c(1) by (auto simp: conn_send_def)
  let ?c = "c\<lparr>cn_cur_steps := cn_cur_steps c + 1\<rparr>"
  note body = send_round [OF c(1), of env i v fr w]
  show ?thesis
  proof (cases "os = [] \<and> qs = []")
    case True
    with run body have "reset_case env fr (?c, w) = Some (fr', c', w')" by simp
    with True show ?thesis
      using resume_reset [OF _ fk, of fr ?c w fr' c' w' str i] str fr c(2) snd by (auto simp: sending_def)
  next
    case False
    with run body have "fr' = fr" "c' = ?c" "w' = w" by auto
    then show ?thesis using False opn snd cnt str fr c(2)
      by (auto simp: resumed_def conn_ok_def conn_send_def coro_ok_def sending_def)
  qed
qed

lemma resume_ok:
  assumes run: "resume_connection env i (cq_res q) (c, w) = Some st" and ok: "conn_ok i True c os (q # qs)"
    and fk: "fd_kernel (sv_static env) fd_open" and opn: "fd_open (w_kst w) (int i)"
  shows "resumed fd_open i os qs w st"
proof -
  have fd: "cn_fd c = int i" and coro: "cn_coro c \<noteq> None" and st: "conn_recv c os (q # qs) \<or> conn_send c os (q # qs)"
    using ok by (auto simp: conn_ok_def conn_recv_def conn_send_def)
  from run obtain co where co: "cn_coro c = Some co" by (auto simp: resume_connection_def bind_Some_iff)
  show ?thesis
  proof (cases "co = Co_created \<and> handler_start (sv_mem env) i = Some None")
    case True
    with run co have "st = (c\<lparr>cn_coro := Some Co_stopped\<rparr>, w)" by (auto simp: resume_connection_def)
    with ok opn co True show ?thesis
      by (auto simp: resumed_def conn_ok_def conn_recv_def conn_send_def coro_ok_def sending_def)
  next
    case False
    with run co obtain fr fr' c' w' where b: "handler_body env i (cq_res q) fr (c, w) = Some (fr', c', w')"
      "st = (c'\<lparr>cn_coro := Some (Co_suspended fr')\<rparr>, w')"
      and fr: "co = Co_suspended fr \<or> handler_start (sv_mem env) i = Some (Some fr)"
      by (auto simp: resume_connection_def bind_Some_iff split: co.splits option.splits)
    have tab: "tables_ok (fr_req fr)" if "conn_send c os (q # qs)"
      using that fr co handler_start_fresh by (auto simp: conn_send_def coro_ok_def fresh_request_def)
    have new: "fresh_request (fr_req fr)" if "conn_recv c os (q # qs)"
      using that fr co handler_start_fresh by (auto simp: conn_recv_def coro_ok_def)
    have nil: "os = []" "qs = []" if "conn_recv c os (q # qs)" using that by (auto simp: conn_recv_def)
    from st show ?thesis
      using resume_recv [OF b(1) fk opn _ fd new coro] resume_send [OF b(1) fk opn _ fd tab] nil b(2) by auto
  qed
qed

lemma accept_again_spec:
  assumes "accept_again env (conns, w) = Some (Running (conns', w'))"
  shows "\<exists>e. w_ring w' = w_ring w @ [e] \<and> sq_user e = Some (sv_listen env) \<and> sq_op e = Op_accept (int (sv_listen env))
     \<and> conns' = conns(sv_listen env := (conns (sv_listen env))\<lparr>cn_action := IO_URING_OP_ACCEPT\<rparr>)
     \<and> w_kst w' = w_kst w"
  using assms by (auto simp: accept_again_def push_defs bind_Some_iff split: if_splits)

lemma prepare_connection_ok:
  assumes "prepare_connection co_alloc env (int i) c = Some (r, c')" and "conn_ok i True c [] []" and "conn_idle c"
    and "cn_coro c = None"
  shows "conn_ok i False c' [] [] \<and> (r \<ge> 0 \<longrightarrow> cn_str c' \<noteq> None)"
  using assms
  by (auto simp: prepare_connection_def Let_def bind_Some_iff conn_ok_def conn_idle_def coro_ok_def
      DEFAULT_SVR_BUFLEN_def dest: string_init_conn split: if_splits)

text \<open>
  Taking over an accepted connection: it gets a \<open>recv\<close> or is closed, and the next
  \<open>accept\<close> is queued in both cases.
\<close>

lemma accept_connection_spec:
  assumes run: "accept_connection co_alloc env i (conns, w) = Some (Running (conns', w'))"
    and ok: "conn_ok i True (conns i) [] []" and idle: "conn_idle (conns i)" and il: "i \<noteq> sv_listen env"
    and fk: "fd_kernel (sv_static env) fd_open" and opn: "fd_open (w_kst w) (int i)"
  shows "\<exists>es e. w_ring w' = w_ring w @ es @ [e] \<and> (\<forall>x \<in> set es. sq_user x = Some i)
     \<and> sq_user e = Some (sv_listen env) \<and> sq_op e = Op_accept (int (sv_listen env))
     \<and> conns' = conns(i := conns' i, sv_listen env := (conns (sv_listen env))\<lparr>cn_action := IO_URING_OP_ACCEPT\<rparr>)
     \<and> conn_ok i (fd_open (w_kst w') (int i)) (conns' i) es []
     \<and> (if es = [] then \<not> fd_open (w_kst w') (int i) else cn_action (conns' i) = IO_URING_OP_RECV)
     \<and> (\<forall>j. j \<noteq> int i \<longrightarrow> fd_open (w_kst w) j \<longrightarrow> fd_open (w_kst w') j)"
proof -
  obtain r c where p: "(if cn_coro (conns i) = None then prepare_connection co_alloc (sv_mem env) (int i) (conns i)
      else Some (0, conns i)) = Some (r, c)"
    using run by (auto simp: accept_connection_def bind_Some_iff split: if_splits)
  have ok0: "conn_ok i False (conns i) [] []" using ok idle by (simp add: conn_ok_def)
  have c: "conn_ok i False c [] []"
    using p prepare_connection_ok [OF _ ok idle] ok0 by (auto split: if_splits)
  show ?thesis
  proof (cases "r < 0")
    case True
    obtain x k where close: "sys_close (se_kern (sv_static env)) (int i) (w_kst w) = (x, k)" by fastforce
    with run p True have "accept_again env (conns(i := c), w\<lparr>w_kst := k\<rparr>) = Some (Running (conns', w'))"
      by (auto simp: accept_connection_def split: if_splits)
    then obtain e where e: "w_ring w' = w_ring w @ [e]" "sq_user e = Some (sv_listen env)" "w_kst w' = k"
      "sq_op e = Op_accept (int (sv_listen env))"
      "conns' = conns(i := c, sv_listen env := (conns (sv_listen env))\<lparr>cn_action := IO_URING_OP_ACCEPT\<rparr>)"
      using accept_again_spec il by fastforce
    from e c il fd_kernelD(1) [OF fk close] show ?thesis by (intro exI [of _ "[]"] exI [of _ e]) simp
  next
    case False
    with run p obtain str ring c' where s: "cn_str c = Some str"
      "io_uring_push_recv (sv_slot env) (w_ring w) (int i) (str_capacity str) i c 0 = Some (ring, c')"
      "accept_again env (conns(i := c'), w\<lparr>w_ring := ring\<rparr>) = Some (Running (conns', w'))"
      by (auto simp: accept_connection_def bind_Some_iff split: if_splits)
    from s(2) obtain x where x: "ring = w_ring w @ [x]" "sq_op x = Op_recv (int i) (str_capacity str)" "sq_user x = Some i"
      "c' = c\<lparr>cn_action := IO_URING_OP_RECV\<rparr>" by (auto simp: push_defs bind_Some_iff split: if_splits)
    have c': "conn_ok i True c' [x] []"
      using c s(1) x by (auto simp: conn_ok_def conn_idle_def conn_recv_def coro_ok_def blank_def conn_block_def)
    from accept_again_spec [OF s(3)] il obtain e where e: "w_ring w' = w_ring w @ [x] @ [e]"
      "sq_user e = Some (sv_listen env)" "sq_op e = Op_accept (int (sv_listen env))" "w_kst w' = w_kst w"
      "conns' = conns(i := c', sv_listen env := (conns (sv_listen env))\<lparr>cn_action := IO_URING_OP_ACCEPT\<rparr>)"
      using x(1) by fastforce
    from e c' x il opn show ?thesis by (intro exI [of _ "[x]"] exI [of _ e]) simp
  qed
qed

section \<open>Every step keeps the invariant\<close>

lemma server_inv_local:
  assumes inv: "server_inv env fd_open s" and i: "i \<noteq> sv_listen env" "ops s i \<noteq> [] \<or> cqs s i \<noteq> []"
    and same: "\<And>j. j \<noteq> i \<Longrightarrow> ss_conns s' j = ss_conns s j \<and> ops s' j = ops s j \<and> cqs s' j = cqs s j"
    and kept: "\<And>j. j \<noteq> int i \<Longrightarrow> fd_open (w_kst (ss_world s)) j \<Longrightarrow> fd_open (w_kst (ss_world s')) j"
    and ok: "conn_ok i (fd_open (w_kst (ss_world s')) (int i)) (ss_conns s' i) (ops s' i) (cqs s' i)"
    and users: "\<forall>e \<in> set (ss_flight s' @ w_ring (ss_world s')). sq_user e \<noteq> None" "\<forall>q \<in> set (ss_cq s'). cq_user q \<noteq> None"
  shows "server_inv env fd_open s'"
proof -
  let ?l = "sv_listen env"
  have acc: "just_accepted env fd_open s' j" if "just_accepted env fd_open s j" for j
    using that i(2) same [of j] kept [of "int j"] by (cases "j = i") (auto simp: just_accepted_def)
  have "listen_ok env fd_open s" using inv by (simp add: server_inv_def)
  then have "listen_ok env fd_open s'"
    using same [of ?l] kept [of "int ?l"] i(1) by (auto simp: listen_ok_def Let_def intro: acc)
  moreover have "conn_ok j (fd_open (w_kst (ss_world s')) (int j)) (ss_conns s' j) (ops s' j) (cqs s' j)" if "j \<noteq> ?l" for j
  proof (cases "j = i")
    case True
    with ok show ?thesis by simp
  next
    case False
    then have "conn_ok j (fd_open (w_kst (ss_world s)) (int j)) (ss_conns s j) (ops s j) (cqs s j)"
      using inv that by (simp add: server_inv_def)
    then show ?thesis using same [OF False] kept [of "int j"] False by (auto intro: conn_ok_open)
  qed
  ultimately show ?thesis using users by (simp add: server_inv_def)
qed

lemma server_invD:
  assumes "server_inv env fd_open s"
  shows "listen_ok env fd_open s"
    and "i \<noteq> sv_listen env \<Longrightarrow> conn_ok i (fd_open (w_kst (ss_world s)) (int i)) (ss_conns s i) (ops s i) (cqs s i)"
    and "e \<in> set (ss_flight s @ w_ring (ss_world s)) \<Longrightarrow> \<exists>i. sq_user e = Some i \<and> e \<in> set (ops s i)"
    and "q \<in> set (ss_cq s) \<Longrightarrow> \<exists>i. cq_user q = Some i \<and> q \<in> set (cqs s i)"
  using assms by (auto simp: server_inv_def ops_def cqs_def)

lemma conn_ok_busy: "conn_ok i a c os qs \<Longrightarrow> os \<noteq> [] \<or> qs \<noteq> [] \<Longrightarrow> a"
  by (auto simp: conn_ok_def)

lemma conn_ok_no_accept: "conn_ok i a c os qs \<Longrightarrow> e \<in> set os \<Longrightarrow> sq_op e \<noteq> Op_accept fd"
  by (auto simp: conn_ok_def conn_recv_def conn_send_def data_op_def)

lemma accept_user:
  assumes inv: "server_inv env fd_open s" and e: "e \<in> set (ss_flight s @ w_ring (ss_world s))"
  shows "sq_user e = Some (sv_listen env) \<longleftrightarrow> (\<exists>fd. sq_op e = Op_accept fd)"
proof -
  obtain i where i: "sq_user e = Some i" "e \<in> set (ops s i)" using server_invD(3) [OF inv e] by blast
  show ?thesis
  proof (cases "i = sv_listen env")
    case True
    with i server_invD(1) [OF inv] show ?thesis by (auto simp: listen_ok_def Let_def)
  next
    case False
    with i conn_ok_no_accept [OF server_invD(2) [OF inv False] i(2)] show ?thesis by auto
  qed
qed

lemma completion_keeps_inv:
  assumes inv: "server_inv env fd_open s" and fl: "ss_flight s = xs @ e # ys" and u: "sq_user e = Some i"
    and i: "i \<noteq> sv_listen env" and q: "cq_user q = Some i"
    and ok: "\<And>us vs. ops s i = us @ e # vs \<Longrightarrow> conn_ok i True (ss_conns s i) (us @ e # vs) (cqs s i)
       \<Longrightarrow> conn_ok i True c (us @ vs) (cqs s i @ [q])"
  shows "server_inv env fd_open (s\<lparr>ss_flight := xs @ ys, ss_conns := (ss_conns s)(i := c), ss_cq := ss_cq s @ [q]\<rparr>)"
    (is "server_inv env fd_open ?s")
proof -
  define us vs where "us = filter (\<lambda>x. sq_user x = Some i) xs"
    and "vs = filter (\<lambda>x. sq_user x = Some i) (ys @ w_ring (ss_world s))"
  have o: "ops s i = us @ e # vs" "ops ?s i = us @ vs" "cqs ?s i = cqs s i @ [q]"
    using fl u q by (simp_all add: ops_def cqs_def us_def vs_def)
  then have opn: "fd_open (w_kst (ss_world s)) (int i)" using conn_ok_busy [OF server_invD(2) [OF inv i]] by simp
  with server_invD(2) [OF inv i] o have "conn_ok i True c (us @ vs) (cqs s i @ [q])" by (intro ok) simp_all
  moreover have "\<forall>e \<in> set (ss_flight ?s @ w_ring (ss_world ?s)). sq_user e \<noteq> None" "\<forall>q \<in> set (ss_cq ?s). cq_user q \<noteq> None"
    using inv fl q by (auto simp: server_inv_def)
  ultimately show ?thesis
    using opn o fl u q by (intro server_inv_local [OF inv i]) (auto simp: ops_def cqs_def)
qed

lemma accept_completion_keeps_inv:
  assumes inv: "server_inv env fd_open s" and fl: "ss_flight s = xs @ e # ys" and e: "sq_op e = Op_accept fd"
    and q: "cq_user q = sq_user e"
    and k: "\<And>j. fd_open (w_kst (ss_world s)) j \<Longrightarrow> fd_open k j"
    and acc: "0 \<le> cq_res q \<Longrightarrow> \<not> fd_open (w_kst (ss_world s)) (cq_res q) \<and> fd_open k (cq_res q)"
  shows "server_inv env fd_open (s\<lparr>ss_flight := xs @ ys, ss_world := (ss_world s)\<lparr>w_kst := k\<rparr>, ss_cq := ss_cq s @ [q]\<rparr>)"
    (is "server_inv env fd_open ?s")
proof -
  let ?l = "sv_listen env"
  have u: "sq_user e = Some ?l" using accept_user [OF inv, of e] e fl by auto
  have other: "ops ?s j = ops s j" "cqs ?s j = cqs s j" if "j \<noteq> ?l" for j
    using fl u q that by (auto simp: ops_def cqs_def)
  have l: "listen_ok env fd_open s" by (rule server_invD(1) [OF inv])
  moreover have "e \<in> set (ops s ?l)" using fl u by (simp add: ops_def)
  ultimately have o: "ops s ?l = [e]" "cqs s ?l = []" by (auto simp: listen_ok_def Let_def)
  then have ol: "ops ?s ?l = []" "cqs ?s ?l = [q]" using fl u q by (auto simp: ops_def cqs_def append_eq_Cons_conv)
  have "just_accepted env fd_open ?s (nat (cq_res q))" if r: "0 \<le> cq_res q"
  proof -
    have "fd_open (w_kst (ss_world s)) (int ?l)" using l by (simp add: listen_ok_def Let_def)
    with acc [OF r] r have "nat (cq_res q) \<noteq> ?l" by (metis nat_0_le)
    with server_invD(2) [OF inv this] acc [OF r] r other show ?thesis by (simp add: just_accepted_def conn_ok_def)
  qed
  with l ol k have "listen_ok env fd_open ?s" by (auto simp: listen_ok_def Let_def)
  moreover have "conn_ok j (fd_open k (int j)) (ss_conns s j) (ops ?s j) (cqs ?s j)" if "j \<noteq> ?l" for j
    using server_invD(2) [OF inv that] other [OF that] k by (auto intro: conn_ok_open)
  ultimately show ?thesis using inv fl q u by (auto simp: server_inv_def)
qed

lemma resume_keeps_inv:
  assumes inv: "server_inv env fd_open s" and fk: "fd_kernel (sv_static env) fd_open"
    and cq: "ss_cq s = q # cs" and u: "cq_user q = Some i" and i: "i \<noteq> sv_listen env"
    and run: "resume_connection (env\<lparr>sv_mem := mem\<rparr>) i (cq_res q) (ss_conns s i, ss_world s) = Some (c, w)"
  shows "server_inv env fd_open (s\<lparr>ss_conns := (ss_conns s)(i := c), ss_world := w, ss_cq := cs\<rparr>)"
    (is "server_inv env fd_open ?s")
proof -
  have qs: "cqs s i = q # cqs ?s i" using cq u by (simp add: cqs_def)
  have ok: "conn_ok i (fd_open (w_kst (ss_world s)) (int i)) (ss_conns s i) (ops s i) (q # cqs ?s i)"
    using server_invD(2) [OF inv i] qs by simp
  have opn: "fd_open (w_kst (ss_world s)) (int i)" using conn_ok_busy [OF ok] by simp
  have "resumed fd_open i (ops s i) (cqs ?s i) (ss_world s) (c, w)"
    by (rule resume_ok [OF run]) (use ok opn fk in simp_all)
  then obtain es where es: "w_ring w = w_ring (ss_world s) @ es" "\<forall>e \<in> set es. sq_user e = Some i"
    "conn_ok i (fd_open (w_kst w) (int i)) c (ops s i @ es) (cqs ?s i)"
    "\<And>j. j \<noteq> int i \<Longrightarrow> fd_open (w_kst (ss_world s)) j \<Longrightarrow> fd_open (w_kst w) j"
    by (auto simp: resumed_def)
  have other: "filter (\<lambda>e. sq_user e = Some j) es = []" if "j \<noteq> i" for j
    using es(2) that by (auto simp: filter_empty_conv)
  have mine: "filter (\<lambda>e. sq_user e = Some i) es = es" using es(2) by (simp add: filter_id_conv)
  show ?thesis
    using inv qs es cq u other mine
    by (intro server_inv_local [OF inv i]) (auto simp: ops_def cqs_def server_inv_def)
qed

lemma accept_again_keeps_inv:
  assumes inv: "server_inv env fd_open s" and cq: "ss_cq s = q # cs" and u: "cq_user q = Some (sv_listen env)"
    and r: "cq_res q < 0"
    and run: "accept_again (env\<lparr>sv_mem := mem\<rparr>) (ss_conns s, ss_world s) = Some (Running (conns, w))"
  shows "server_inv env fd_open (s\<lparr>ss_conns := conns, ss_world := w, ss_cq := cs\<rparr>)"
    (is "server_inv env fd_open ?s")
proof -
  let ?l = "sv_listen env"
  from accept_again_spec [OF run] obtain e where e: "w_ring w = w_ring (ss_world s) @ [e]"
    "sq_user e = Some ?l" "sq_op e = Op_accept (int ?l)" "w_kst w = w_kst (ss_world s)"
    "conns = (ss_conns s)(?l := (ss_conns s ?l)\<lparr>cn_action := IO_URING_OP_ACCEPT\<rparr>)" by auto
  have l: "listen_ok env fd_open s" by (rule server_invD(1) [OF inv])
  moreover have "cqs s ?l = q # cqs ?s ?l" using cq u by (simp add: cqs_def)
  ultimately have "ops s ?l = []" "cqs ?s ?l = []" by (auto simp: listen_ok_def Let_def)
  then have "ops ?s ?l = [e]" "cqs ?s ?l = []" using e by (simp_all add: ops_def)
  with l e have "listen_ok env fd_open ?s" by (auto simp: listen_ok_def Let_def)
  moreover have "ops ?s j = ops s j" "cqs ?s j = cqs s j" if "j \<noteq> ?l" for j
    using e cq u that by (auto simp: ops_def cqs_def)
  ultimately show ?thesis using inv e cq by (auto simp: server_inv_def)
qed

lemma accept_connection_keeps_inv:
  assumes inv: "server_inv env fd_open s" and fk: "fd_kernel (sv_static env) fd_open"
    and cq: "ss_cq s = q # cs" and u: "cq_user q = Some (sv_listen env)" and r: "cq_res q = int i"
    and run: "accept_connection co_alloc (env\<lparr>sv_mem := mem\<rparr>) i (ss_conns s, ss_world s)
      = Some (Running (conns, w))"
  shows "server_inv env fd_open (s\<lparr>ss_conns := conns, ss_world := w, ss_cq := cs\<rparr>)"
    (is "server_inv env fd_open ?s")
proof -
  let ?l = "sv_listen env"
  have l: "listen_ok env fd_open s" by (rule server_invD(1) [OF inv])
  moreover have "cqs s ?l = q # cqs ?s ?l" using cq u by (simp add: cqs_def)
  ultimately have lq: "ops s ?l = []" "cqs ?s ?l = []" and acc: "just_accepted env fd_open s i"
    using r by (auto simp: listen_ok_def Let_def)
  then have idle: "i \<noteq> ?l" "conn_idle (ss_conns s i)" "ops s i = []" "cqs s i = []"
    "fd_open (w_kst (ss_world s)) (int i)" by (simp_all add: just_accepted_def)
  with server_invD(2) [OF inv idle(1)] have ok: "conn_ok i True (ss_conns s i) [] []" by simp
  obtain es e where es: "w_ring w = w_ring (ss_world s) @ es @ [e]" "\<forall>x \<in> set es. sq_user x = Some i"
     "sq_user e = Some ?l" "sq_op e = Op_accept (int ?l)"
     "conns = (ss_conns s)(i := conns i, ?l := (ss_conns s ?l)\<lparr>cn_action := IO_URING_OP_ACCEPT\<rparr>)"
     "conn_ok i (fd_open (w_kst w) (int i)) (conns i) es []"
     "\<And>j. j \<noteq> int i \<Longrightarrow> fd_open (w_kst (ss_world s)) j \<Longrightarrow> fd_open (w_kst w) j"
    using accept_connection_spec [OF run ok idle(2), of fd_open] idle(1,5) fk by auto
  have f: "filter (\<lambda>x. sq_user x = Some i) es = es" "\<And>j. j \<noteq> i \<Longrightarrow> filter (\<lambda>x. sq_user x = Some j) es = []"
    using es(2) by (auto simp: filter_empty_conv filter_id_conv)
  have o: "ops ?s ?l = [e]" "ops ?s i = es" "cqs ?s i = []"
    using lq idle es(1,3) f cq u by (auto simp: ops_def cqs_def)
  have conns: "conns ?l = (ss_conns s ?l)\<lparr>cn_action := IO_URING_OP_ACCEPT\<rparr>"
    "\<And>j. j \<noteq> ?l \<Longrightarrow> j \<noteq> i \<Longrightarrow> conns j = ss_conns s j" by (subst es(5), simp)+
  have "fd_open (w_kst (ss_world s)) (int ?l)" using l by (simp add: listen_ok_def Let_def)
  then have "fd_open (w_kst w) (int ?l)" using es(7) idle(1) by simp
  then have "listen_ok env fd_open ?s" using l o(1) lq(2) es(4) conns(1) by (auto simp: listen_ok_def Let_def)
  moreover have "conn_ok j (fd_open (w_kst w) (int j)) (conns j) (ops ?s j) (cqs ?s j)" if "j \<noteq> ?l" for j
  proof (cases "j = i")
    case True
    with es(6) o show ?thesis by simp
  next
    case False
    then have "ops ?s j = ops s j" "cqs ?s j = cqs s j" using es(1,3) f(2) that cq u by (auto simp: ops_def cqs_def)
    with server_invD(2) [OF inv that] False conns(2) [OF that False] es(7) show ?thesis by (auto intro: conn_ok_open)
  qed
  ultimately show ?thesis using inv es(1-3) cq by (auto simp: server_inv_def)
qed

text \<open>The three ways the body of the loop goes on.\<close>

lemma process_cases:
  assumes inv: "server_inv env fd_open s" and cq: "ss_cq s = q # cs"
    and run: "process_cqe co_alloc env' q (ss_conns s, ss_world s) = Some (Running (conns, w))"
  obtains
    (again) "cq_user q = Some (sv_listen env)" "cq_res q < 0"
      "accept_again env' (ss_conns s, ss_world s) = Some (Running (conns, w))"
  | (takeover) i where "cq_user q = Some (sv_listen env)" "cq_res q = int i" "just_accepted env fd_open s i"
      "accept_connection co_alloc env' i (ss_conns s, ss_world s) = Some (Running (conns, w))"
  | (resume) i c where "cq_user q = Some i" "i \<noteq> sv_listen env" "fd_open (w_kst (ss_world s)) (int i)"
      "conn_ok i True (ss_conns s i) (ops s i) (q # cqs (s\<lparr>ss_cq := cs\<rparr>) i)" "conns = (ss_conns s)(i := c)"
      "resume_connection env' i (cq_res q) (ss_conns s i, ss_world s) = Some (c, w)"
proof -
  obtain i where u: "cq_user q = Some i" using run by (auto simp: process_cqe_def split: option.splits)
  then have qi: "q \<in> set (cqs s i)" using cq by (simp add: cqs_def)
  show thesis
  proof (cases "i = sv_listen env")
    case True
    then have act: "cn_action (ss_conns s i) = IO_URING_OP_ACCEPT"
      and acc: "0 \<le> cq_res q \<Longrightarrow> just_accepted env fd_open s (nat (cq_res q))"
      using server_invD(1) [OF inv] qi by (auto simp: listen_ok_def Let_def)
    show thesis
    proof (cases "cq_res q < 0")
      case neg: True
      with run u act True show thesis by (intro again) (auto simp: process_cqe_def split: if_splits)
    next
      case False
      with run u act True acc show thesis by (intro takeover [of "nat (cq_res q)"]) (auto simp: process_cqe_def)
    qed
  next
    case False
    note ok = server_invD(2) [OF inv False]
    have "cqs s i = q # cqs (s\<lparr>ss_cq := cs\<rparr>) i" using cq u by (simp add: cqs_def)
    moreover from this have "fd_open (w_kst (ss_world s)) (int i)" using conn_ok_busy [OF ok] by simp
    moreover have "cn_action (ss_conns s i) \<noteq> IO_URING_OP_ACCEPT" using ok by (simp add: conn_ok_def)
    ultimately show thesis using run u False ok
      by (auto intro!: resume simp: process_cqe_def bind_Some_iff)
  qed
qed

lemma process_keeps_inv:
  assumes inv: "server_inv env fd_open s" and fk: "fd_kernel (sv_static env) fd_open" and cq: "ss_cq s = q # cs"
    and run: "process_cqe co_alloc (env\<lparr>sv_mem := mem\<rparr>) q (ss_conns s, ss_world s) = Some (Running (conns, w))"
  shows "server_inv env fd_open (s\<lparr>ss_conns := conns, ss_world := w, ss_cq := cs\<rparr>)"
  using inv cq run
proof (cases rule: process_cases)
  case again
  with inv cq show ?thesis by (simp add: accept_again_keeps_inv)
next
  case (takeover i)
  with accept_connection_keeps_inv [OF inv fk cq] show ?thesis by blast
next
  case (resume i c)
  with resume_keeps_inv [OF inv fk cq] show ?thesis by simp
qed

lemma server_inv_step:
  assumes "server_step env fd_open s s'" and inv: "server_inv env fd_open s" and fk: "fd_kernel (sv_static env) fd_open"
  shows "server_inv env fd_open s'"
  using assms(1)
proof cases
  case submit
  with inv show ?thesis by (simp add: server_inv_def listen_ok_def just_accepted_def ops_def cqs_def)
next
  case wait
  with inv show ?thesis by (simp add: server_inv_def listen_ok_def just_accepted_def ops_def cqs_def)
next
  case (process c cs co_alloc mem conns w)
  with process_keeps_inv [OF inv fk] show ?thesis by simp
next
  case drained
  with inv show ?thesis by (simp add: server_inv_def listen_ok_def just_accepted_def ops_def cqs_def)
next
  case (accept_failed xs e ys fd r)
  have "s' = s\<lparr>ss_flight := xs @ ys, ss_world := (ss_world s)\<lparr>w_kst := w_kst (ss_world s)\<rparr>,
      ss_cq := ss_cq s @ [\<lparr>cq_user = sq_user e, cq_res = r\<rparr>]\<rparr>" using accept_failed(1) by simp
  with accept_completion_keeps_inv [OF inv accept_failed(2,3), of "\<lparr>cq_user = sq_user e, cq_res = r\<rparr>" "w_kst (ss_world s)"]
    accept_failed(4) show ?thesis by simp
next
  case (accepted xs e ys fd r k)
  with accept_completion_keeps_inv [OF inv accepted(2,3), of "\<lparr>cq_user = sq_user e, cq_res = int r\<rparr>" k]
  show ?thesis by simp
next
  case (recv_failed xs e ys fd len r)
  obtain i where u: "sq_user e = Some i" using server_invD(3) [OF inv, of e] recv_failed(2) by auto
  then have "i \<noteq> sv_listen env" using accept_user [OF inv, of e] recv_failed(2,3) by auto
  from completion_keeps_inv [OF inv recv_failed(2) u this, of "\<lparr>cq_user = sq_user e, cq_res = r\<rparr>" "ss_conns s i"]
  show ?thesis using recv_failed u recv_fails_at [OF _ recv_failed(3)] by auto
next
  case (received xs e ys fd len i bytes)
  then have "i \<noteq> sv_listen env" using accept_user [OF inv, of e] by auto
  from completion_keeps_inv [OF inv received(2,4) this, of "\<lparr>cq_user = Some i, cq_res = int (length bytes)\<rparr>"
      "receive bytes (ss_conns s i)"]
  show ?thesis using received recv_completes_at [OF _ received(3,5)] by auto
next
  case (sent xs e ys r)
  obtain i where u: "sq_user e = Some i" using server_invD(3) [OF inv, of e] sent(2) by auto
  then have "i \<noteq> sv_listen env" using accept_user [OF inv, of e] sent(2,3) by auto
  from completion_keeps_inv [OF inv sent(2) u this, of "\<lparr>cq_user = sq_user e, cq_res = r\<rparr>" "ss_conns s i"]
  show ?thesis using sent u send_completes by (auto simp: data_op_def)
qed

text \<open>The loop is entered with the listening socket open.\<close>

definition server_init ::
  "('k, 'u) server_env \<Rightarrow> ('k \<Rightarrow> int \<Rightarrow> bool) \<Rightarrow> ('k, 'u) server_state \<Rightarrow> bool"
where
  "server_init env fd_open s \<longleftrightarrow> fd_open (w_kst (ss_world s)) (int (sv_listen env))
     \<and> (\<exists>k u. io_uring_listen_start env 0 True k u = Some (Some s))"

lemma server_inv_init: "server_init env fd_open s \<Longrightarrow> server_inv env fd_open s"
  by (auto simp: server_init_def io_uring_listen_start_def push_defs bind_Some_iff server_inv_def listen_ok_def
      Let_def ops_def cqs_def conn_ok_def conn_idle_def zero_conn_def blank_def coro_ok_def split: if_splits)

abbreviation reachable ::
  "('k, 'u) server_env \<Rightarrow> ('k \<Rightarrow> int \<Rightarrow> bool) \<Rightarrow> ('k, 'u) server_state \<Rightarrow> bool"
where
  "reachable env fd_open \<equiv> reach (server_init env fd_open) (server_step env fd_open)"

interpretation server: inductive_invariant "server_init env fd_open" "server_step env fd_open"
  "\<lambda>s. fd_kernel (sv_static env) fd_open \<longrightarrow> server_inv env fd_open s" for env fd_open
  by unfold_locales (auto intro: server_inv_init server_inv_step)

section \<open>Lost connections\<close>

text \<open>What processing a completion leaves alone.\<close>

definition only_changes ::
  "('k \<Rightarrow> int \<Rightarrow> bool) \<Rightarrow> nat \<Rightarrow> nat \<Rightarrow> conns \<times> ('k, 'u) world \<Rightarrow> conns \<times> ('k, 'u) world \<Rightarrow> bool"
where
  "only_changes fd_open l i st st' \<longleftrightarrow> (case (st, st') of ((conns, w), (conns', w')) \<Rightarrow>
     (\<forall>j. j \<noteq> i \<longrightarrow> j \<noteq> l \<longrightarrow> conns' j = conns j)
     \<and> (\<forall>j. j \<noteq> int i \<longrightarrow> fd_open (w_kst w) j \<longrightarrow> fd_open (w_kst w') j)
     \<and> (\<exists>es. w_ring w' = w_ring w @ es \<and> (\<forall>e \<in> set es. sq_user e = Some i \<or> sq_user e = Some l)))"

lemma process_only_changes:
  assumes inv: "server_inv env fd_open s" and fk: "fd_kernel (sv_static env) fd_open" and cq: "ss_cq s = q # cs"
    and run: "process_cqe co_alloc (env\<lparr>sv_mem := mem\<rparr>) q (ss_conns s, ss_world s) = Some (Running (conns, w))"
  shows "\<exists>i. only_changes fd_open (sv_listen env) i (ss_conns s, ss_world s) (conns, w)
     \<and> (cq_user q = Some i \<and> (i = sv_listen env \<longrightarrow> cq_res q < 0) \<or> cq_user q = Some (sv_listen env) \<and> cq_res q = int i)"
  using inv cq run
proof (cases rule: process_cases)
  case again
  from accept_again_spec [OF again(3)] again(1,2) show ?thesis
    by (intro exI [of _ "sv_listen env"]) (auto simp: only_changes_def)
next
  case (takeover r)
  then have ok: "conn_ok r True (ss_conns s r) [] []" using server_invD(2) [OF inv, of r] by (simp add: just_accepted_def)
  from accept_connection_spec [OF takeover(4) ok, of fd_open] takeover(3) fk
  obtain es e where "w_ring w = w_ring (ss_world s) @ es @ [e]" "\<forall>x \<in> set es. sq_user x = Some r"
    "sq_user e = Some (sv_listen env)"
    "conns = (ss_conns s)(r := conns r, sv_listen env := (ss_conns s (sv_listen env))\<lparr>cn_action := IO_URING_OP_ACCEPT\<rparr>)"
    "\<forall>j. j \<noteq> int r \<longrightarrow> fd_open (w_kst (ss_world s)) j \<longrightarrow> fd_open (w_kst w) j"
    by (auto simp: just_accepted_def)
  moreover from this(4) have "\<And>j. j \<noteq> sv_listen env \<Longrightarrow> j \<noteq> r \<Longrightarrow> conns j = ss_conns s j" by (metis fun_upd_other)
  ultimately show ?thesis using takeover(1,2) by (intro exI [of _ r]) (auto simp: only_changes_def)
next
  case (resume i c)
  have "resumed fd_open i (ops s i) (cqs (s\<lparr>ss_cq := cs\<rparr>) i) (ss_world s) (c, w)"
    by (rule resume_ok [OF resume(6,4)]) (use resume(3) fk in simp_all)
  with resume(1,2,5) show ?thesis by (intro exI [of _ i]) (auto simp: only_changes_def resumed_def)
qed

text \<open>A connection that is open and that nothing will ever wake up.\<close>

definition lost ::
  "('k, 'u) server_env \<Rightarrow> ('k \<Rightarrow> int \<Rightarrow> bool) \<Rightarrow> nat \<Rightarrow> ('k, 'u) server_state \<Rightarrow> bool"
where
  "lost env fd_open i s \<longleftrightarrow> i \<noteq> sv_listen env \<and> fd_open (w_kst (ss_world s)) (int i) \<and> ops s i = [] \<and> cqs s i = []
     \<and> (\<forall>q \<in> set (cqs s (sv_listen env)). cq_res q \<noteq> int i)"

lemma lost_process:
  assumes l: "lost env fd_open i s" and cq: "ss_cq s = q # cs" and j: "j \<noteq> i"
    and ch: "only_changes fd_open (sv_listen env) j (ss_conns s, ss_world s) (conns, w)"
  shows "lost env fd_open i (s\<lparr>ss_conns := conns, ss_world := w, ss_cq := cs\<rparr>)"
proof -
  from ch obtain es where es: "w_ring w = w_ring (ss_world s) @ es"
    "\<forall>e \<in> set es. sq_user e = Some j \<or> sq_user e = Some (sv_listen env)" by (auto simp: only_changes_def)
  then have "filter (\<lambda>e. sq_user e = Some i) es = []" using l j by (auto simp: filter_empty_conv lost_def)
  with es l ch j cq show ?thesis by (auto simp: lost_def ops_def cqs_def only_changes_def split: if_splits)
qed

lemma lost_step:
  assumes step: "server_step env fd_open s s'" and inv: "server_inv env fd_open s"
    and fk: "fd_kernel (sv_static env) fd_open" and l: "lost env fd_open i s"
  shows "lost env fd_open i s'"
  using step
proof cases
  case (process c cs co_alloc mem conns w)
  from process_only_changes [OF inv fk process(3,4)] obtain j where
    ch: "only_changes fd_open (sv_listen env) j (ss_conns s, ss_world s) (conns, w)"
    and "cq_user c = Some j \<or> cq_user c = Some (sv_listen env) \<and> cq_res c = int j" by blast
  then have "j \<noteq> i" using l process(3) by (auto simp: lost_def cqs_def)
  from lost_process [OF l process(3) this ch] process(1) show ?thesis by simp
next
  case (accepted xs e ys fd r k)
  then have "sq_user e = Some (sv_listen env)" using accept_user [OF inv, of e] by auto
  with accepted l show ?thesis by (auto simp: lost_def ops_def cqs_def)
next
  case (accept_failed xs e ys fd r)
  then have "sq_user e = Some (sv_listen env)" using accept_user [OF inv, of e] by auto
  with accept_failed l show ?thesis by (auto simp: lost_def ops_def cqs_def)
next
  case (recv_failed xs e ys fd len r)
  moreover have "sq_user e \<noteq> Some (sv_listen env)" using accept_user [OF inv, of e] recv_failed by auto
  ultimately show ?thesis using l by (auto simp: lost_def ops_def cqs_def split: if_splits)
next
  case (received xs e ys fd len j bytes)
  moreover have "sq_user e \<noteq> Some (sv_listen env)" using accept_user [OF inv, of e] received by auto
  ultimately show ?thesis using l by (auto simp: lost_def ops_def cqs_def split: if_splits)
next
  case (sent xs e ys r)
  moreover have "sq_user e \<noteq> Some (sv_listen env)" using accept_user [OF inv, of e] sent by auto
  ultimately show ?thesis using l by (auto simp: lost_def ops_def cqs_def split: if_splits)
qed (use l in \<open>auto simp: lost_def ops_def cqs_def\<close>)

interpretation lost: stable_property "server_init env fd_open" "server_step env fd_open"
  "\<lambda>s. fd_kernel (sv_static env) fd_open \<longrightarrow> server_inv env fd_open s"
  "\<lambda>s. fd_kernel (sv_static env) fd_open \<longrightarrow> lost env fd_open i s" for env fd_open i
  by unfold_locales (auto intro: lost_step)

section \<open>A run\<close>

text \<open>
  A kernel whose state is the set of open descriptors, a server with the one route of the
  library and no files, listening on descriptor 3, and a run in which a client connects as
  descriptor 5. It shows that the hypotheses of the properties can be met.
\<close>

definition demo_kernel :: "int set kernel" where
  "demo_kernel regs k =
     (if regs RAX = Some (Arg_int NR_close)
      then (0, None, case regs RDI of Some (Arg_int fd) \<Rightarrow> k - {fd} | _ \<Rightarrow> k)
      else (- 2, None, k))"

definition demo_env :: "(int set, unit) server_env" where
  "demo_env = \<lparr>sv_watch = False, sv_mem = some_env,
     sv_static = \<lparr>se_kern = demo_kernel, se_magic = (\<lambda>fd k. (None, k)), se_mmap = (\<lambda>fd sz k. (None, k))\<rparr>,
     sv_routes = [route_teapot], sv_slot = (\<lambda>_. True), sv_pipefds = (0, 0), sv_listen = 3, sv_nfds = 16\<rparr>"

definition fd_in :: "int set \<Rightarrow> int \<Rightarrow> bool" where
  "fd_in k j \<longleftrightarrow> 0 \<le> j \<and> j \<in> k"

definition demo_string :: string_t where
  "demo_string = \<lparr>str_capacity = 2 ^ 21, str_len = 0, str_buf = replicate (2 ^ 21) NUL\<rparr>"

definition accept_sqe :: sqe where
  "accept_sqe = \<lparr>sq_op = Op_accept 3, sq_user = Some 3, sq_flags = 0\<rparr>"

definition recv_sqe :: sqe where
  "recv_sqe = \<lparr>sq_op = Op_recv 5 (2 ^ 21), sq_user = Some 5, sq_flags = 0\<rparr>"

definition demo_conn :: conn where
  "demo_conn = \<lparr>cn_fd = 5, cn_action = IO_URING_OP_RECV, cn_cur_steps = 0, cn_total_steps = 0,
     cn_coro = Some Co_created, cn_str = Some demo_string, cn_svr = True\<rparr>"

definition demo_conns :: conns where
  "demo_conns = (\<lambda>_. zero_conn)(3 := zero_conn\<lparr>cn_action := IO_URING_OP_ACCEPT\<rparr>)"

definition demo_start :: "(int set, unit) server_state" where
  "demo_start = \<lparr>ss_phase = Submitting, ss_conns = demo_conns,
     ss_world = \<lparr>w_ring = [accept_sqe], w_kst = {3}, w_data = Map_null, w_user = ()\<rparr>, ss_flight = [], ss_cq = []\<rparr>"

text \<open>The client is connected and its \<open>recv\<close> is submitted.\<close>

definition demo_waiting :: "(int set, unit) server_state" where
  "demo_waiting = \<lparr>ss_phase = Waiting, ss_conns = demo_conns(5 := demo_conn),
     ss_world = \<lparr>w_ring = [], w_kst = {3, 5}, w_data = Map_null, w_user = ()\<rparr>,
     ss_flight = [recv_sqe, accept_sqe], ss_cq = []\<rparr>"

lemma demo_fd_kernel: "fd_kernel (sv_static demo_env) fd_in"
  by (auto simp: fd_kernel_def demo_env_def demo_kernel_def keeps_open_def fd_in_def sys_close_def sys_open_def
      sys_fstat_def syscall_defs NR_defs c_result_def c_result_int_def int_of_rax_def)

lemma demo_string_init: "string_init (\<lambda>_. True) DEFAULT_SVR_BUFLEN = Some (Some demo_string)"
  using string_init_ok [of "\<lambda>_. True" 10 1024] by (simp add: DEFAULT_SVR_BUFLEN_def demo_string_def)

lemma demo_init: "server_init demo_env fd_in demo_start"
  by (simp add: server_init_def demo_start_def fd_in_def demo_env_def io_uring_listen_start_def push_defs
      accept_sqe_def demo_conns_def zero_conn_def)

lemma demo_accept:
  "process_cqe True (demo_env\<lparr>sv_mem := some_env\<rparr>) \<lparr>cq_user = Some 3, cq_res = 5\<rparr>
     (demo_conns, \<lparr>w_ring = [], w_kst = {3, 5}, w_data = Map_null, w_user = ()\<rparr>)
   = Some (Running (demo_conns(5 := demo_conn),
       \<lparr>w_ring = [recv_sqe, accept_sqe], w_kst = {3, 5}, w_data = Map_null, w_user = ()\<rparr>))"
proof -
  have prep: "prepare_connection True some_env 5 zero_conn
      = Some (0, demo_conn\<lparr>cn_action := 0\<rparr>)"
    using demo_string_init
    by (simp add: prepare_connection_def zero_conn_def some_env_def demo_conn_def)
  have conns: "demo_conns 5 = zero_conn" "demo_conns 3 = zero_conn\<lparr>cn_action := IO_URING_OP_ACCEPT\<rparr>"
    by (simp_all add: demo_conns_def)
  have again: "accept_again (demo_env\<lparr>sv_mem := some_env\<rparr>)
      (demo_conns(5 := demo_conn), \<lparr>w_ring = [recv_sqe], w_kst = {3, 5}, w_data = Map_null, w_user = ()\<rparr>)
    = Some (Running (demo_conns(5 := demo_conn),
       \<lparr>w_ring = [recv_sqe, accept_sqe], w_kst = {3, 5}, w_data = Map_null, w_user = ()\<rparr>))"
    by (auto simp: accept_again_def push_defs demo_env_def conns accept_sqe_def fun_eq_iff)
  have "accept_connection True (demo_env\<lparr>sv_mem := some_env\<rparr>) 5
      (demo_conns, \<lparr>w_ring = [], w_kst = {3, 5}, w_data = Map_null, w_user = ()\<rparr>)
    = Some (Running (demo_conns(5 := demo_conn),
       \<lparr>w_ring = [recv_sqe, accept_sqe], w_kst = {3, 5}, w_data = Map_null, w_user = ()\<rparr>))"
  proof -
    have "sv_nfds (demo_env\<lparr>sv_mem := some_env\<rparr>) = 16" "sv_slot (demo_env\<lparr>sv_mem := some_env\<rparr>) = (\<lambda>_. True)"
      "cn_coro zero_conn = None" by (simp_all add: demo_env_def zero_conn_def)
    with again prep conns show ?thesis
      by (simp add: accept_connection_def push_defs recv_sqe_def demo_conn_def demo_string_def)
  qed
  then show ?thesis by (simp add: process_cqe_def conns)
qed

lemma reachable_step: "reachable env fd_open s \<Longrightarrow> server_step env fd_open s s' \<Longrightarrow> reachable env fd_open s'"
  by (rule reach_step)

text \<open>The states of the run, with the connections, the queues and the open descriptors.\<close>

definition demo_state ::
  "phase \<Rightarrow> conns \<Rightarrow> ring \<Rightarrow> int set \<Rightarrow> sqe list \<Rightarrow> cqe list \<Rightarrow> (int set, unit) server_state"
where
  "demo_state p conns ring k fl cq = \<lparr>ss_phase = p, ss_conns = conns,
     ss_world = \<lparr>w_ring = ring, w_kst = k, w_data = Map_null, w_user = ()\<rparr>, ss_flight = fl, ss_cq = cq\<rparr>"

text \<open>From a submitted \<open>accept\<close> to the completion that names descriptor 5.\<close>

lemma demo_accepts:
  assumes "reachable demo_env fd_in (demo_state Submitting conns [accept_sqe] {3} [] [])"
  shows "reachable demo_env fd_in (demo_state Draining conns [] {3, 5} [] [\<lparr>cq_user = Some 3, cq_res = 5\<rparr>])"
proof -
  let ?step = "server_step demo_env fd_in" and ?q = "\<lparr>cq_user = Some 3, cq_res = 5\<rparr>"
  have k: "\<forall>j. fd_in {3, 5} j \<longleftrightarrow> fd_in {3} j \<or> j = int 5" "\<not> fd_in {3} (int 5)" by (auto simp: fd_in_def)
  have s1: "?step (demo_state Submitting conns [accept_sqe] {3} [] []) (demo_state Waiting conns [] {3} [accept_sqe] [])"
    using server_step.submit [of "demo_state Submitting conns [accept_sqe] {3} [] []" demo_env fd_in] by (simp add: demo_state_def)
  have s2: "?step (demo_state Waiting conns [] {3} [accept_sqe] []) (demo_state Waiting conns [] {3, 5} [] [?q])"
    using server_step.accepted [of "demo_state Waiting conns [] {3} [accept_sqe] []" "[]" accept_sqe "[]" 3 fd_in 5 demo_env "{3, 5}"]
      k by (simp add: accept_sqe_def demo_env_def demo_state_def)
  have s3: "?step (demo_state Waiting conns [] {3, 5} [] [?q]) (demo_state Draining conns [] {3, 5} [] [?q])"
    using server_step.wait [of "demo_state Waiting conns [] {3, 5} [] [?q]" demo_env fd_in] by (simp add: demo_state_def)
  show ?thesis by (rule reachable_step [OF reachable_step [OF reachable_step [OF assms s1] s2] s3])
qed

text \<open>Processing that completion and handing over what it queued.\<close>

lemma demo_takes_over:
  assumes "process_cqe True (demo_env\<lparr>sv_mem := mem\<rparr>) \<lparr>cq_user = Some 3, cq_res = 5\<rparr>
      (demo_conns, \<lparr>w_ring = [], w_kst = {3, 5}, w_data = Map_null, w_user = ()\<rparr>)
    = Some (Running (conns, \<lparr>w_ring = ring, w_kst = k, w_data = Map_null, w_user = ()\<rparr>))"
  shows "reachable demo_env fd_in (demo_state Submitting conns ring k [] [])"
proof -
  let ?q = "\<lparr>cq_user = Some 3, cq_res = 5\<rparr>"
  have "demo_start = demo_state Submitting demo_conns [accept_sqe] {3} [] []" by (simp add: demo_start_def demo_state_def)
  then have r: "reachable demo_env fd_in (demo_state Draining demo_conns [] {3, 5} [] [?q])"
    using demo_accepts reach_init [of "server_init demo_env fd_in", OF demo_init] by simp
  have s4: "server_step demo_env fd_in (demo_state Draining demo_conns [] {3, 5} [] [?q]) (demo_state Draining conns ring k [] [])"
    using server_step.process [where s = "demo_state Draining demo_conns [] {3, 5} [] [?q]" and c = ?q and cs = "[]"
        and co_alloc = True and env = demo_env and mem = mem] assms by (simp add: demo_state_def)
  have s5: "server_step demo_env fd_in (demo_state Draining conns ring k [] []) (demo_state Submitting conns ring k [] [])"
    using server_step.drained [of "demo_state Draining conns ring k [] []" demo_env fd_in] by (simp add: demo_state_def)
  show ?thesis by (rule reachable_step [OF reachable_step [OF r s4] s5])
qed

lemma demo_waiting_reachable: "reachable demo_env fd_in demo_waiting"
proof -
  let ?s = "demo_state Submitting (demo_conns(5 := demo_conn)) [recv_sqe, accept_sqe] {3, 5} [] []"
  have "server_step demo_env fd_in ?s demo_waiting"
    using server_step.submit [of ?s demo_env fd_in] by (simp add: demo_waiting_def demo_state_def)
  with demo_takes_over [OF demo_accept] show ?thesis by (rule reachable_step)
qed

text \<open>The run goes on: the client's \<open>recv\<close> completes with \<open>r\<close> bytes or an error, in \<open>buf\<close>.\<close>

definition demo_received :: "phase \<Rightarrow> cbuf \<Rightarrow> int \<Rightarrow> (int set, unit) server_state" where
  "demo_received p bytes r = demo_waiting\<lparr>ss_phase := p, ss_conns := demo_conns(5 := receive bytes demo_conn),
     ss_flight := [accept_sqe], ss_cq := [\<lparr>cq_user = Some 5, cq_res = r\<rparr>]\<rparr>"

lemma demo_received_reachable:
  assumes "length bytes \<le> 2 ^ 21" and "r = int (length bytes) \<or> r < 0 \<and> bytes = []" and "p \<noteq> Submitting"
  shows "reachable demo_env fd_in (demo_received p bytes r)"
proof -
  have rb: "receive [] demo_conn = demo_conn"
    by (simp add: receive_def demo_conn_def)
  have "server_step demo_env fd_in demo_waiting (demo_received Waiting bytes r)"
    using assms(2)
  proof
    assume "r = int (length bytes)"
    then show ?thesis
      using server_step.received [of demo_waiting "[]" recv_sqe "[accept_sqe]" 5 "2 ^ 21" 5 bytes demo_env fd_in] assms(1)
        unat_conn_capacity
      by (simp add: demo_received_def demo_waiting_def recv_sqe_def)
  next
    assume "r < 0 \<and> bytes = []"
    then show ?thesis
      using server_step.recv_failed [of demo_waiting "[]" recv_sqe "[accept_sqe]" 5 "2 ^ 21" r demo_env fd_in]
      by (simp add: demo_received_def demo_waiting_def recv_sqe_def rb)
  qed
  then have w: "reachable demo_env fd_in (demo_received Waiting bytes r)"
    by (rule reachable_step [OF demo_waiting_reachable])
  have "server_step demo_env fd_in (demo_received Waiting bytes r) (demo_received Draining bytes r)"
    using server_step.wait [of "demo_received Waiting bytes r" demo_env fd_in]
    by (simp add: demo_received_def demo_waiting_def)
  with w reachable_step [OF w] assms(3) show ?thesis by (cases p) auto
qed

section \<open>Properties\<close>

text \<open>
  C17. In every state the loop can reach, exactly one \<open>accept\<close> is outstanding: queued,
  submitted or completed and not yet processed, and no other operation is an \<open>accept\<close>.
\<close>

theorem one_accept_pending:
  assumes "fd_kernel (sv_static env) fd_open" and "reachable env fd_open s"
  shows "length (ops s (sv_listen env)) + length (cqs s (sv_listen env)) = 1
     \<and> (\<forall>e \<in> set (ss_flight s @ w_ring (ss_world s)).
          (\<exists>fd. sq_op e = Op_accept fd) \<longleftrightarrow> sq_user e = Some (sv_listen env))"
proof -
  have inv: "server_inv env fd_open s" using server.reach_inv [OF assms(2)] assms(1) by blast
  from server_invD(1) [OF inv] have "length (ops s (sv_listen env)) + length (cqs s (sv_listen env)) = 1"
    by (auto simp: listen_ok_def Let_def)
  with accept_user [OF inv] show ?thesis by blast
qed

theorem one_accept_pending_witness:
  "length (ops demo_waiting 3) + length (cqs demo_waiting 3) = 1"
  using one_accept_pending [OF demo_fd_kernel demo_waiting_reachable] by (simp add: demo_env_def)

text \<open>
  C6. In every reachable state, a connection with outstanding operations has an open
  descriptor, and either it waits for one \<open>recv\<close> with both counters at 0, or it is sending
  and \<open>total_steps - cur_steps\<close> is exactly the number of its outstanding operations.
\<close>

theorem steps_count_pending:
  assumes "fd_kernel (sv_static env) fd_open" and "reachable env fd_open s" and "i \<noteq> sv_listen env"
    and "ops s i \<noteq> [] \<or> cqs s i \<noteq> []"
  shows "fd_open (w_kst (ss_world s)) (int i) \<and> cn_fd (ss_conns s i) = int i
     \<and> (cn_action (ss_conns s i) = IO_URING_OP_RECV \<and> length (ops s i) + length (cqs s i) = 1
           \<and> cn_cur_steps (ss_conns s i) = 0 \<and> cn_total_steps (ss_conns s i) = 0
        \<or> sending (ss_conns s i) \<and> 0 \<le> cn_cur_steps (ss_conns s i) \<and> cn_total_steps (ss_conns s i) \<le> 3
           \<and> cn_total_steps (ss_conns s i) - cn_cur_steps (ss_conns s i) = int (length (ops s i) + length (cqs s i)))"
proof -
  have inv: "server_inv env fd_open s" using server.reach_inv [OF assms(2)] assms(1) by blast
  note ok = server_invD(2) [OF inv assms(3)]
  then have "conn_recv (ss_conns s i) (ops s i) (cqs s i) \<or> conn_send (ss_conns s i) (ops s i) (cqs s i)"
    using assms(4) by (auto simp: conn_ok_def)
  with ok conn_ok_busy [OF ok assms(4)] show ?thesis
    by (auto simp: conn_ok_def conn_recv_def conn_send_def)
qed

theorem steps_count_pending_witness:
  "fd_in (w_kst (ss_world demo_waiting)) 5 \<and> cn_fd (ss_conns demo_waiting 5) = 5"
proof -
  have "ops demo_waiting 5 \<noteq> []" by (simp add: ops_def demo_waiting_def recv_sqe_def)
  with steps_count_pending [OF demo_fd_kernel demo_waiting_reachable, of 5] show ?thesis by (simp add: demo_env_def)
qed

text \<open>
  C7. In every reachable state, a connection whose descriptor is not open has nothing
  outstanding, its counters are 0, its buffer is all zero and its request is cleared: no
  operation is ever left behind on a closed descriptor, and no bytes of one client are
  left for the next one on the same descriptor.
\<close>

theorem closed_connection_clean:
  assumes "fd_kernel (sv_static env) fd_open" and "reachable env fd_open s" and "i \<noteq> sv_listen env"
    and "\<not> fd_open (w_kst (ss_world s)) (int i)"
  shows "ops s i = [] \<and> cqs s i = [] \<and> conn_idle (ss_conns s i)"
proof -
  have inv: "server_inv env fd_open s" using server.reach_inv [OF assms(2)] assms(1) by blast
  from server_invD(2) [OF inv assms(3)] assms(4) show ?thesis by (simp add: conn_ok_def)
qed

theorem closed_connection_clean_witness:
  "ops demo_waiting 7 = [] \<and> cqs demo_waiting 7 = [] \<and> conn_idle (ss_conns demo_waiting 7)"
proof -
  have "\<not> fd_in (w_kst (ss_world demo_waiting)) (int 7)" "(7::nat) \<noteq> sv_listen demo_env"
    by (simp_all add: demo_waiting_def fd_in_def demo_env_def)
  with closed_connection_clean [OF demo_fd_kernel demo_waiting_reachable, of 7] show ?thesis by blast
qed

text \<open>
  C18. In every reachable state, a completed \<open>recv\<close> of fewer bytes than the buffer holds
  finds a buffer on which \<open>http_parse_request\<close> stays inside its block, whatever the client
  sent and whatever the coroutine handled before.
\<close>

theorem received_request_parses:
  assumes "fd_kernel (sv_static env) fd_open" and "reachable env fd_open s" and i: "i \<noteq> sv_listen env"
    and q: "q \<in> set (cqs s i)" and act: "cn_action (ss_conns s i) = IO_URING_OP_RECV"
    and res: "0 < cq_res q" "cq_res q \<noteq> 2 ^ 21"
    and fr: "cn_coro (ss_conns s i) = Some (Co_suspended fr) \<or> handler_start mem i = Some (Some fr)"
  shows "\<exists>str r req buf. cn_str (ss_conns s i) = Some str
     \<and> http_parse_request mem (fr_req fr) (str_buf str) (nat (cq_res q)) = Some (r, req, buf)
     \<and> length buf = length (str_buf str)"
proof -
  have inv: "server_inv env fd_open s" using server.reach_inv [OF assms(2)] assms(1) by blast
  have "\<not> sending (ss_conns s i)" using act by (simp add: sending_def)
  with server_invD(2) [OF inv i] q have "conn_recv (ss_conns s i) (ops s i) (cqs s i)"
    by (auto simp: conn_ok_def conn_send_def)
  with q obtain str where str: "cn_str (ss_conns s i) = Some str" "holds_request str (cq_res q)"
    "coro_ok fresh_request (ss_conns s i)" by (auto simp: conn_recv_def)
  have "fresh_request (fr_req fr)" using fr str(3) handler_start_fresh by (auto simp: coro_ok_def)
  moreover have "cq_res q < 2 ^ 21" using str(2) res by (simp add: holds_request_def)
  ultimately obtain r req buf where "http_parse_request mem (fr_req fr) (str_buf str) (nat (cq_res q)) = Some (r, req, buf)"
    "length buf = 2 ^ 21" using conn_parse_defined [OF str(2)] by blast
  moreover have "length (str_buf str) = 2 ^ 21" using str(2) by (simp add: holds_request_def conn_block_def)
  ultimately show ?thesis using str(1) by auto
qed

lemma demo_handler_start: "\<exists>fr. handler_start some_env 5 = Some (Some fr)"
  using string_init_ok [of "\<lambda>_. True" 10 1024] string_init_ok [of "\<lambda>_. True" 11 2048]
  by (simp add: handler_start_def some_env_def Let_def)

theorem received_request_parses_witness:
  "\<exists>(fr :: frame) r req buf. http_parse_request some_env (fr_req fr)
     (str_buf (the (cn_str (ss_conns (demo_received Draining ''GET'' 3) 5)))) 3 = Some (r, req, buf)"
proof -
  obtain fr where fr: "handler_start some_env 5 = Some (Some fr)" using demo_handler_start by blast
  let ?s = "demo_received Draining ''GET'' 3"
  have r: "reachable demo_env fd_in ?s" by (rule demo_received_reachable) simp_all
  have q: "\<lparr>cq_user = Some 5, cq_res = 3\<rparr> \<in> set (cqs ?s 5)" "(5::nat) \<noteq> sv_listen demo_env"
    "cn_action (ss_conns ?s 5) = IO_URING_OP_RECV"
    by (simp_all add: cqs_def demo_received_def demo_env_def receive_def demo_conn_def)
  from received_request_parses [OF demo_fd_kernel r q(2,1,3), of fr some_env] fr
  obtain str a b c where "cn_str (ss_conns ?s 5) = Some str"
    "http_parse_request some_env (fr_req fr) (str_buf str) 3 = Some (a, b, c)" by auto
  then show ?thesis by (intro exI [of _ fr] exI [of _ a] exI [of _ b] exI [of _ c]) simp
qed

lemma recv_error_process:
  assumes "process_cqe co_alloc env q (conns, w) = Some (Running (conns', w'))" and "cq_user q = Some i"
    and "cn_action (conns i) = IO_URING_OP_RECV" and "cq_res q < 0"
  shows "w' = w"
  using assms
  by (auto simp: process_cqe_def resume_connection_def handler_body_def recv_case_def bind_Some_iff
      split: option.splits co.splits)

text \<open>
  C30. A connection whose \<open>recv\<close> fails is lost: the coroutine yields without queueing
  another operation and without closing, so its descriptor stays open and nothing is
  outstanding for it in any later state, however long the server runs.
\<close>

theorem recv_error_loses_connection:
  assumes fk: "fd_kernel (sv_static env) fd_open" and reach: "reachable env fd_open s"
    and st: "ss_phase s = Draining" "ss_cq s = q # cs" "cq_user q = Some i" "i \<noteq> sv_listen env"
    and err: "cn_action (ss_conns s i) = IO_URING_OP_RECV" "cq_res q < 0"
    and run: "process_cqe co_alloc (env\<lparr>sv_mem := mem\<rparr>) q (ss_conns s, ss_world s) = Some (Running (conns, w))"
    and later: "(server_step env fd_open)\<^sup>*\<^sup>* (s\<lparr>ss_conns := conns, ss_world := w, ss_cq := cs\<rparr>) t"
  shows "fd_open (w_kst (ss_world t)) (int i) \<and> ops t i = [] \<and> cqs t i = []"
proof -
  let ?s = "s\<lparr>ss_conns := conns, ss_world := w, ss_cq := cs\<rparr>"
  have inv: "server_inv env fd_open s" using server.reach_inv [OF reach] fk by blast
  have w: "w = ss_world s" by (rule recv_error_process [OF run st(3) err])
  note ok = server_invD(2) [OF inv st(4)]
  have q: "cqs s i = q # cqs ?s i" using st(2,3) by (simp add: cqs_def)
  then have opn: "fd_open (w_kst (ss_world s)) (int i)" using conn_ok_busy [OF ok] by simp
  have "conn_recv (ss_conns s i) (ops s i) (cqs s i)"
    using ok q err(1) by (auto simp: conn_ok_def conn_send_def sending_def)
  then have nil: "ops s i = []" "cqs ?s i = []" using q by (auto simp: conn_recv_def)
  have "cq_res x \<noteq> int i" if "x \<in> set (cqs ?s (sv_listen env))" for x
  proof
    assume "cq_res x = int i"
    moreover have "x \<in> set (cqs s (sv_listen env))" using that st(2) by (auto simp: cqs_def)
    ultimately have "just_accepted env fd_open s i" using server_invD(1) [OF inv] by (auto simp: listen_ok_def Let_def)
    with q show False by (simp add: just_accepted_def)
  qed
  then have "lost env fd_open i ?s" using nil opn st(4) w by (auto simp: lost_def ops_def)
  moreover have "reachable env fd_open ?s"
    by (rule reachable_step [OF reach]) (rule server_step.process [OF st(1,2) run])
  ultimately have "lost env fd_open i t" using lost.P_forever [OF later] fk by blast
  then show ?thesis by (simp add: lost_def)
qed

theorem recv_error_loses_connection_witness:
  "\<exists>conns. process_cqe True (demo_env\<lparr>sv_mem := some_env\<rparr>) \<lparr>cq_user = Some 5, cq_res = - 104\<rparr>
       (ss_conns (demo_received Draining [] (- 104)), ss_world (demo_received Draining [] (- 104)))
       = Some (Running (conns, ss_world (demo_received Draining [] (- 104))))
     \<and> fd_in (w_kst (ss_world (demo_received Draining [] (- 104)))) 5"
proof -
  let ?s = "demo_received Draining [] (- 104)" and ?q = "\<lparr>cq_user = Some 5, cq_res = - 104\<rparr>"
  obtain fr where fr: "handler_start some_env 5 = Some (Some fr)" using demo_handler_start by blast
  have r: "reachable demo_env fd_in ?s" by (rule demo_received_reachable) simp_all
  have s: "ss_phase ?s = Draining" "ss_cq ?s = [?q]" "cq_user ?q = Some 5" "(5::nat) \<noteq> sv_listen demo_env"
    "cn_action (ss_conns ?s 5) = IO_URING_OP_RECV" "cq_res ?q < 0" "cn_coro (ss_conns ?s 5) = Some Co_created"
    by (simp_all add: demo_received_def demo_env_def receive_def demo_conn_def)
  then obtain conns where run: "process_cqe True (demo_env\<lparr>sv_mem := some_env\<rparr>) ?q (ss_conns ?s, ss_world ?s)
      = Some (Running (conns, ss_world ?s))"
    using fr by (simp add: process_cqe_def resume_connection_def handler_body_def recv_case_def)
  let ?t = "?s\<lparr>ss_conns := conns, ss_world := ss_world ?s, ss_cq := []\<rparr>"
  from recv_error_loses_connection [OF demo_fd_kernel r s(1-6) run, of ?t] run show ?thesis by auto
qed

end
