(* ===== verification/Lifecycle.thy ===== *)
theory Lifecycle
  imports Event_Loop "HOL-Library.Multiset"
begin

text \<open>
  The life of a client's descriptor, as an abstract machine with five kinds of states, and
  the proof that the event loop refines it: seen from one descriptor, every step of the
  program or of the kernel is a step of this machine or changes nothing.
\<close>

section \<open>The abstract machine\<close>

text \<open>
  \<open>Accepted\<close>: the completed \<open>accept\<close> is not yet processed. \<open>Receiving\<close>: one \<open>recv\<close> is
  outstanding. \<open>Sending n\<close>: \<open>n\<close> operations of an answer are outstanding. \<open>Unserved\<close>: the
  descriptor is open and the loop has nothing outstanding for it; a descriptor that was
  open before the server started, a file, or a connection that was given up.
\<close>

datatype life = Closed | Accepted | Receiving | Sending nat | Unserved

inductive life_step :: "life \<Rightarrow> life \<Rightarrow> bool" where
  accepted: "life_step Closed Accepted"
| opened: "life_step Closed Unserved"
| served: "life_step Accepted Receiving"
| refused: "life_step Accepted Closed"
| hung_up: "life_step Receiving Closed"
| answered: "0 < n \<Longrightarrow> n \<le> 3 \<Longrightarrow> life_step Receiving (Sending n)"
| given_up: "life_step Receiving Unserved"
| progress: "0 < n \<Longrightarrow> life_step (Sending (Suc n)) (Sending n)"
| finished: "life_step (Sending (Suc 0)) Closed"

inductive_simps life_step_from [simp]:
  "life_step Closed l" "life_step Accepted l" "life_step Receiving l" "life_step (Sending n) l" "life_step Unserved l"

definition life_init :: "life \<Rightarrow> bool" where
  "life_init l \<longleftrightarrow> l = Closed \<or> l = Unserved"

lemma life_init_simps [simp]: "life_init Closed" "life_init Unserved"
  by (simp_all add: life_init_def)

section \<open>The abstraction\<close>

definition pending :: "('k, 'u) server_state \<Rightarrow> nat \<Rightarrow> nat" where
  "pending s i = length (ops s i) + length (cqs s i)"

definition names :: "cqe list \<Rightarrow> nat \<Rightarrow> bool" where
  "names qs i \<longleftrightarrow> (\<exists>q \<in> set qs. cq_res q = int i)"

definition life :: "bool \<Rightarrow> nat \<Rightarrow> bool \<Rightarrow> u32 \<Rightarrow> life" where
  "life is_open n named action =
     (if \<not> is_open then Closed
      else if n = 0 then if named then Accepted else Unserved
      else if action = IO_URING_OP_RECV then Receiving
      else Sending n)"

definition life_of ::
  "('k, 'u) server_env \<Rightarrow> ('k \<Rightarrow> int \<Rightarrow> bool) \<Rightarrow> nat \<Rightarrow> ('k, 'u) server_state \<Rightarrow> life"
where
  "life_of env fd_open i s =
     life (fd_open (w_kst (ss_world s)) (int i)) (pending s i) (names (cqs s (sv_listen env)) i)
       (cn_action (ss_conns s i))"

section \<open>Every step is a step of the machine\<close>

text \<open>What the invariant says in these terms.\<close>

lemma life_pending:
  assumes "server_inv env fd_open s" and "i \<noteq> sv_listen env"
  shows "\<not> fd_open (w_kst (ss_world s)) (int i) \<Longrightarrow> pending s i = 0"
    and "names (cqs s (sv_listen env)) i \<Longrightarrow> pending s i = 0 \<and> fd_open (w_kst (ss_world s)) (int i)"
  using assms by (auto simp: pending_def names_def server_inv_def conn_ok_def listen_ok_def just_accepted_def Let_def)

text \<open>A step that concerns another descriptor, or none, can only open this one.\<close>

lemma life_unconcerned:
  assumes inv: "server_inv env fd_open s" and i: "i \<noteq> sv_listen env"
    and same: "pending s' i = pending s i" "cn_action (ss_conns s' i) = cn_action (ss_conns s i)"
      "names (cqs s' (sv_listen env)) i = names (cqs s (sv_listen env)) i"
    and kept: "fd_open (w_kst (ss_world s)) (int i) \<Longrightarrow> fd_open (w_kst (ss_world s')) (int i)"
  shows "life_of env fd_open i s' = life_of env fd_open i s \<or> life_step (life_of env fd_open i s) (life_of env fd_open i s')"
  using life_pending [OF inv i] same kept by (auto simp: life_of_def life_def)

lemma life_completion:
  assumes inv: "server_inv env fd_open s" and fl: "ss_flight s = xs @ e # ys"
    and e: "\<not> (\<exists>fd. sq_op e = Op_accept fd)" and q: "cq_user q = sq_user e"
    and act: "\<And>j. cn_action (conns j) = cn_action (ss_conns s j)"
  shows "life_of env fd_open i (s\<lparr>ss_flight := xs @ ys, ss_conns := conns, ss_cq := ss_cq s @ [q]\<rparr>) = life_of env fd_open i s"
proof -
  have "sq_user e \<noteq> Some (sv_listen env)" using accept_user [OF inv, of e] fl e by simp
  with fl q act show ?thesis by (auto simp: life_of_def pending_def ops_def cqs_def)
qed

lemma resume_life:
  assumes run: "resume_connection env i (cq_res q) (c, w) = Some (c', w')" and ok: "conn_ok i True c os (q # qs)"
    and fk: "fd_kernel (sv_static env) fd_open" and opn: "fd_open (w_kst w) (int i)"
  shows "\<exists>es. w_ring w' = w_ring w @ es \<and> (\<forall>e \<in> set es. sq_user e = Some i)
     \<and> (\<forall>j. j \<noteq> int i \<longrightarrow> fd_open (w_kst w) j \<longrightarrow> fd_open (w_kst w') j)
     \<and> life_step (life True (length os + length (q # qs)) n (cn_action c))
         (life (fd_open (w_kst w') (int i)) (length (os @ es) + length qs) False (cn_action c'))"
proof -
  from resume_ok [OF run ok fk opn] obtain es where es: "w_ring w' = w_ring w @ es"
    "\<forall>e \<in> set es. sq_user e = Some i \<and> data_op (sq_op e)" "conn_ok i (fd_open (w_kst w') (int i)) c' (os @ es) qs"
    "\<forall>j. j \<noteq> int i \<longrightarrow> fd_open (w_kst w) j \<longrightarrow> fd_open (w_kst w') j" by (auto simp: resumed_def)
  from ok consider "conn_recv c os (q # qs)" | "conn_send c os (q # qs)" by (auto simp: conn_ok_def)
  then have "life_step (life True (length os + length (q # qs)) n (cn_action c))
         (life (fd_open (w_kst w') (int i)) (length (os @ es) + length qs) False (cn_action c'))"
  proof cases
    case 1
    then have c: "os = []" "qs = []" "cn_action c = IO_URING_OP_RECV" by (auto simp: conn_recv_def)
    have "\<not> conn_recv c' es []" using es(2) by (auto simp: conn_recv_def data_op_def)
    with es(3) c have "es = [] \<or> conn_send c' es []" by (auto simp: conn_ok_def)
    with c conn_ok_busy [OF es(3)] show ?thesis
      by (auto simp: life_def conn_send_def sending_def simp flip: length_greater_0_conv)
  next
    case 2
    then obtain fr where fr: "cn_coro c = Some (Co_suspended fr)" "tables_ok (fr_req fr)" "sending c"
      "\<forall>s. cn_str c = Some s \<longrightarrow> conn_block s" by (auto simp: conn_send_def)
    let ?c = "c\<lparr>cn_cur_steps := cn_cur_steps c + 1\<rparr>"
    have fd: "cn_fd c = int i" using ok 2 by (auto simp: conn_ok_def conn_send_def)
    show ?thesis
    proof (cases "os = [] \<and> qs = []")
      case True
      with run fr(1) send_round [OF 2, of env i "cq_res q" fr w] obtain fr' c1 where r: "reset_case env fr (?c, w) = Some (fr', c1, w')"
        by (auto simp: resume_connection_def bind_Some_iff)
      have "\<not> fd_open (w_kst w') (int i)" using reset_case_spec(6) [OF r _ fr(2) fk] fr(4) fd by simp
      with True fr(3) show ?thesis by (auto simp: life_def sending_def)
    next
      case False
      with run fr(1) send_round [OF 2, of env i "cq_res q" fr w] have "w' = w" "cn_action c' = cn_action c"
        by (auto simp: resume_connection_def bind_Some_iff)
      with False fr(3) es(1) opn show ?thesis by (auto simp: life_def sending_def simp flip: length_greater_0_conv)
    qed
  qed
  with es show ?thesis by blast
qed

lemma life_takeover:
  assumes inv: "server_inv env fd_open s" and fk: "fd_kernel (sv_static env) fd_open" and cq: "ss_cq s = q # cs"
    and q: "cq_user q = Some (sv_listen env)" "cq_res q = int i" and acc: "just_accepted env fd_open s i"
    and run: "accept_connection co_alloc (env\<lparr>sv_mem := mem\<rparr>) i (ss_conns s, ss_world s) = Some (Running (conns, w))"
  shows "life_step (life_of env fd_open i s) (life_of env fd_open i (s\<lparr>ss_conns := conns, ss_world := w, ss_cq := cs\<rparr>))"
    (is "life_step _ (life_of _ _ _ ?s)")
proof -
  let ?l = "sv_listen env"
  from acc have i: "i \<noteq> ?l" "ops s i = []" "cqs s i = []" "conn_idle (ss_conns s i)" "fd_open (w_kst (ss_world s)) (int i)"
    by (simp_all add: just_accepted_def)
  with server_invD(2) [OF inv i(1)] have ok: "conn_ok i True (ss_conns s i) [] []" by simp
  from accept_connection_spec [OF run ok, of fd_open] i fk
  obtain es e where es: "w_ring w = w_ring (ss_world s) @ es @ [e]" "\<forall>x \<in> set es. sq_user x = Some i"
    "sq_user e = Some ?l" "conn_ok i (fd_open (w_kst w) (int i)) (conns i) es []"
    "if es = [] then \<not> fd_open (w_kst w) (int i) else cn_action (conns i) = IO_URING_OP_RECV" by auto
  have "ops ?s i = es" "cqs ?s i = []" using es i cq by (auto simp: ops_def cqs_def filter_id_conv split: if_splits)
  then have "pending ?s i = length es" by (simp add: pending_def)
  moreover have "life_of env fd_open i s = Accepted"
    using i q cq by (auto simp: life_of_def life_def pending_def names_def cqs_def)
  ultimately show ?thesis using es(5) conn_ok_busy [OF es(4)] by (auto simp: life_of_def life_def split: if_splits)
qed

lemma life_resume:
  assumes inv: "server_inv env fd_open s" and fk: "fd_kernel (sv_static env) fd_open" and cq: "ss_cq s = q # cs"
    and q: "cq_user q = Some i" "i \<noteq> sv_listen env" "fd_open (w_kst (ss_world s)) (int i)"
    and ok: "conn_ok i True (ss_conns s i) (ops s i) (q # cqs (s\<lparr>ss_cq := cs\<rparr>) i)"
    and run: "resume_connection (env\<lparr>sv_mem := mem\<rparr>) i (cq_res q) (ss_conns s i, ss_world s) = Some (c, w)"
  shows "life_step (life_of env fd_open i s)
     (life_of env fd_open i (s\<lparr>ss_conns := (ss_conns s)(i := c), ss_world := w, ss_cq := cs\<rparr>))"
    (is "life_step _ (life_of _ _ _ ?s)")
proof -
  let ?l = "sv_listen env"
  have fk': "fd_kernel (sv_static (env\<lparr>sv_mem := mem\<rparr>)) fd_open" using fk by simp
  from resume_life [OF run ok fk' q(3), of False] obtain es where es: "w_ring w = w_ring (ss_world s) @ es"
    "\<forall>e \<in> set es. sq_user e = Some i"
    "life_step (life True (length (ops s i) + length (q # cqs (s\<lparr>ss_cq := cs\<rparr>) i)) False (cn_action (ss_conns s i)))
       (life (fd_open (w_kst w) (int i)) (length (ops s i @ es) + length (cqs (s\<lparr>ss_cq := cs\<rparr>) i)) False (cn_action c))"
    by auto
  have c: "cqs s i = q # cqs ?s i" "cqs (s\<lparr>ss_cq := cs\<rparr>) i = cqs ?s i" "cqs ?s ?l = cqs s ?l" "ops ?s i = ops s i @ es"
    using cq q es by (auto simp: cqs_def ops_def filter_id_conv)
  have "\<not> names (cqs s ?l) i" using life_pending(2) [OF inv q(2)] c(1) by (auto simp: pending_def)
  with es(3) c q(3) show ?thesis by (simp add: life_of_def pending_def)
qed

lemma process_life:
  assumes inv: "server_inv env fd_open s" and fk: "fd_kernel (sv_static env) fd_open" and i: "i \<noteq> sv_listen env"
    and cq: "ss_cq s = q # cs"
    and run: "process_cqe co_alloc (env\<lparr>sv_mem := mem\<rparr>) q (ss_conns s, ss_world s) = Some (Running (conns, w))"
  defines "s' \<equiv> s\<lparr>ss_conns := conns, ss_world := w, ss_cq := cs\<rparr>"
  shows "life_of env fd_open i s' = life_of env fd_open i s \<or> life_step (life_of env fd_open i s) (life_of env fd_open i s')"
proof -
  let ?l = "sv_listen env"
  from process_only_changes [OF inv fk cq run] obtain j where
    ch: "only_changes fd_open ?l j (ss_conns s, ss_world s) (conns, w)"
    and j: "cq_user q = Some j \<and> (j = ?l \<longrightarrow> cq_res q < 0) \<or> cq_user q = Some ?l \<and> cq_res q = int j" by blast
  show ?thesis
  proof (cases "j = i")
    case False
    from ch obtain es where es: "w_ring w = w_ring (ss_world s) @ es" "\<forall>e \<in> set es. sq_user e = Some j \<or> sq_user e = Some ?l"
      by (auto simp: only_changes_def)
    then have "filter (\<lambda>e. sq_user e = Some i) es = []" using False i by (auto simp: filter_empty_conv)
    moreover have "cq_user q \<noteq> Some i" using j False i by auto
    ultimately have "pending s' i = pending s i" using es cq by (simp add: s'_def pending_def ops_def cqs_def)
    moreover have "names (cqs s' ?l) i = names (cqs s ?l) i"
      using j False cq by (auto simp: s'_def names_def cqs_def)
    ultimately show ?thesis using ch False i
      by (intro life_unconcerned [OF inv i]) (auto simp: s'_def only_changes_def)
  next
    case True
    show ?thesis
      using inv cq run
    proof (cases rule: process_cases)
      case again
      with True j i show ?thesis by simp
    next
      case (takeover r)
      with True j i have r: "r = i" by auto
      with takeover life_takeover [OF inv fk cq] show ?thesis by (simp add: s'_def)
    next
      case (resume r c)
      with True j have "r = i" by auto
      with resume life_resume [OF inv fk cq] show ?thesis by (simp add: s'_def)
    qed
  qed
qed


lemma accept_completion_names:
  assumes inv: "server_inv env fd_open s" and fl: "ss_flight s = xs @ e # ys" and e: "sq_op e = Op_accept fd"
  shows "sq_user e = Some (sv_listen env)" and "cqs s (sv_listen env) = []"
proof -
  show u: "sq_user e = Some (sv_listen env)" using accept_user [OF inv, of e] fl e by auto
  then have "e \<in> set (ops s (sv_listen env))" using fl by (simp add: ops_def)
  with server_invD(1) [OF inv] show "cqs s (sv_listen env) = []" by (auto simp: listen_ok_def Let_def)
qed

lemma life_of_step:
  assumes step: "server_step env fd_open s s'" and inv: "server_inv env fd_open s"
    and fk: "fd_kernel (sv_static env) fd_open" and i: "i \<noteq> sv_listen env"
  shows "life_of env fd_open i s' = life_of env fd_open i s \<or> life_step (life_of env fd_open i s) (life_of env fd_open i s')"
  using step
proof cases
  case (process c cs co_alloc mem conns w)
  with process_life [OF inv fk i] show ?thesis by simp
next
  case (accept_failed xs e ys fd r)
  with accept_completion_names [OF inv accept_failed(2,3)] i show ?thesis
    by (auto simp: life_of_def pending_def ops_def cqs_def names_def)
next
  case (accepted xs e ys fd r k)
  note n = accept_completion_names [OF inv accepted(2,3)]
  show ?thesis
  proof (cases "r = i")
    case True
    with life_pending(1) [OF inv i] accepted n i show ?thesis
      by (auto simp: life_of_def life_def pending_def ops_def cqs_def names_def)
  next
    case False
    with accepted n i show ?thesis by (auto simp: life_of_def pending_def ops_def cqs_def names_def)
  qed
next
  case (recv_failed xs e ys fd len r)
  with life_completion [OF inv recv_failed(2), of "\<lparr>cq_user = sq_user e, cq_res = r\<rparr>" "ss_conns s"] show ?thesis by simp
next
  case (received xs e ys fd len j bytes)
  with life_completion [OF inv received(2), of "\<lparr>cq_user = Some j, cq_res = int (length bytes)\<rparr>"
      "(ss_conns s)(j := receive bytes (ss_conns s j))"]
  show ?thesis by (simp add: receive_def split: option.splits)
next
  case (sent xs e ys r)
  then have "\<not> (\<exists>fd. sq_op e = Op_accept fd)" by auto
  with sent life_completion [OF inv sent(2), of "\<lparr>cq_user = sq_user e, cq_res = r\<rparr>" "ss_conns s"] show ?thesis by simp
qed (auto simp: life_of_def pending_def ops_def cqs_def)

lemma life_of_init:
  assumes "server_init env fd_open s" and "i \<noteq> sv_listen env"
  shows "life_init (life_of env fd_open i s)"
  using assms
  by (auto simp: server_init_def io_uring_listen_start_def push_defs bind_Some_iff life_init_def life_of_def life_def
      pending_def ops_def cqs_def names_def split: if_splits)

text \<open>The hypotheses on the kernel and the descriptor are part of the invariant.\<close>

interpretation lifecycle: simulation "server_init env fd_open" "server_step env fd_open"
  "\<lambda>s. fd_kernel (sv_static env) fd_open \<longrightarrow> server_inv env fd_open s" life_init life_step
  "\<lambda>s. if fd_kernel (sv_static env) fd_open \<and> i \<noteq> sv_listen env then life_of env fd_open i s else Closed"
  for env fd_open i
  by unfold_locales (auto simp: life_of_step life_of_init)


lemma sending_step:
  assumes "reachable env fd_open s" and "server_step env fd_open s s'" and "fd_kernel (sv_static env) fd_open"
    and "i \<noteq> sv_listen env" and "life_of env fd_open i s = Sending n"
  shows "life_of env fd_open i s' = Sending n \<or> life_of env fd_open i s' = Closed
     \<or> (0 < n - 1 \<and> life_of env fd_open i s' = Sending (n - 1))"
proof -
  have "server_inv env fd_open s" using server.reach_inv [OF assms(1)] assms(3) by blast
  from life_of_step [OF assms(2) this assms(3,4)] assms(5) show ?thesis by auto
qed

text \<open>While an answer is under way, no operation is added to it.\<close>

definition no_new_ops :: "('k, 'u) server_state \<Rightarrow> ('k, 'u) server_state \<Rightarrow> nat \<Rightarrow> bool" where
  "no_new_ops s s' i \<longleftrightarrow> mset (ops s' i) \<subseteq># mset (ops s i)
     \<and> cn_total_steps (ss_conns s' i) = cn_total_steps (ss_conns s i)"

lemma life_sendingD:
  assumes "server_inv env fd_open s" and "i \<noteq> sv_listen env" and "life_of env fd_open i s = Sending n"
  shows "conn_send (ss_conns s i) (ops s i) (cqs s i)" and "pending s i = n" and "0 < n"
    and "fd_open (w_kst (ss_world s)) (int i)"
  using server_invD(2) [OF assms(1,2)] assms(3)
  by (auto simp: life_of_def life_def conn_ok_def conn_recv_def pending_def split: if_splits)

lemma process_no_new_ops:
  assumes inv: "server_inv env fd_open s" and fk: "fd_kernel (sv_static env) fd_open" and i: "i \<noteq> sv_listen env"
    and cq: "ss_cq s = q # cs"
    and run: "process_cqe co_alloc (env\<lparr>sv_mem := mem\<rparr>) q (ss_conns s, ss_world s) = Some (Running (conns, w))"
  defines "s' \<equiv> s\<lparr>ss_conns := conns, ss_world := w, ss_cq := cs\<rparr>"
  assumes snd: "life_of env fd_open i s = Sending n" and still: "life_of env fd_open i s' \<noteq> Closed"
  shows "no_new_ops s s' i"
proof -
  let ?l = "sv_listen env"
  note c = life_sendingD [OF inv i snd]
  from process_only_changes [OF inv fk cq run] obtain j where
    ch: "only_changes fd_open ?l j (ss_conns s, ss_world s) (conns, w)"
    and j: "cq_user q = Some j \<and> (j = ?l \<longrightarrow> cq_res q < 0) \<or> cq_user q = Some ?l \<and> cq_res q = int j" by blast
  show ?thesis
  proof (cases "j = i")
    case False
    from ch obtain es where es: "w_ring w = w_ring (ss_world s) @ es" "\<forall>e \<in> set es. sq_user e = Some j \<or> sq_user e = Some ?l"
      by (auto simp: only_changes_def)
    then have "filter (\<lambda>e. sq_user e = Some i) es = []" using False i by (auto simp: filter_empty_conv)
    then have "ops s' i = ops s i" using es by (simp add: s'_def ops_def)
    moreover have "conns i = ss_conns s i" using ch False i by (auto simp: only_changes_def)
    ultimately show ?thesis by (simp add: no_new_ops_def s'_def)
  next
    case True
    show ?thesis
      using inv cq run
    proof (cases rule: process_cases)
      case again
      with True j i show ?thesis by simp
    next
      case (takeover r)
      with True j i have "r = i" by auto
      with takeover c(2,3) show ?thesis by (simp add: just_accepted_def pending_def)
    next
      case (resume r d)
      with True j have r: "r = i" by auto
      let ?qs = "cqs (s\<lparr>ss_cq := cs\<rparr>) i"
      have q: "cqs s i = q # ?qs" using cq resume(1) r by (simp add: cqs_def)
      with c(1) have cs: "conn_send (ss_conns s i) (ops s i) (q # ?qs)" by simp
      obtain fr where fr: "cn_coro (ss_conns s i) = Some (Co_suspended fr)" "tables_ok (fr_req fr)"
        "\<forall>x. cn_str (ss_conns s i) = Some x \<longrightarrow> conn_block x" "sending (ss_conns s i)"
        using cs by (auto simp: conn_send_def)
      note round = send_round [OF cs, of "env\<lparr>sv_mem := mem\<rparr>" i "cq_res q" fr "ss_world s"]
      show ?thesis
      proof (cases "ops s i = [] \<and> ?qs = []")
        case True
        let ?c = "(ss_conns s i)\<lparr>cn_cur_steps := cn_cur_steps (ss_conns s i) + 1\<rparr>"
        from True resume(6) r fr(1) round obtain fr' c1 where
          rc: "reset_case (env\<lparr>sv_mem := mem\<rparr>) fr (?c, ss_world s) = Some (fr', c1, w)"
          by (auto simp: resume_connection_def bind_Some_iff)
        have fd: "cn_fd (ss_conns s i) = int i" using resume(4) r cs by (auto simp: conn_ok_def conn_send_def)
        have fk': "fd_kernel (sv_static (env\<lparr>sv_mem := mem\<rparr>)) fd_open" using fk by simp
        have "\<not> fd_open (w_kst w) (int i)" using reset_case_spec(6) [OF rc _ fr(2) fk'] fr(3) fd by simp
        with still show ?thesis by (simp add: s'_def life_of_def life_def)
      next
        case False
        with resume(6) r fr(1) round have "w = ss_world s" "cn_total_steps d = cn_total_steps (ss_conns s i)"
          by (auto simp: resume_connection_def bind_Some_iff)
        with resume(5) r show ?thesis by (simp add: no_new_ops_def s'_def ops_def)
      qed
    qed
  qed
qed

lemma sending_no_new_ops:
  assumes step: "server_step env fd_open s s'" and inv: "server_inv env fd_open s"
    and fk: "fd_kernel (sv_static env) fd_open" and i: "i \<noteq> sv_listen env"
    and snd: "life_of env fd_open i s = Sending n" and still: "life_of env fd_open i s' \<noteq> Closed"
  shows "no_new_ops s s' i"
  using step
proof cases
  case (process c cs co_alloc mem conns w)
  from process_no_new_ops [OF inv fk i process(3,4) snd] still process(1) show ?thesis by simp
qed (auto simp: no_new_ops_def ops_def receive_def split: option.splits)

section \<open>Properties\<close>

text \<open>
  C3. The loop refines the life cycle of a descriptor. Seen from any descriptor but the
  listening one, a run of the server from a state it can reach is a run of the abstract
  machine: accepted, then one \<open>recv\<close>, then one to three operations of an answer whose
  number only goes down, then closed; a failed preparation and an orderly end of the client
  close at once; and no step leaves \<open>Unserved\<close>.
\<close>

theorem connection_lifecycle:
  assumes "fd_kernel (sv_static env) fd_open" and "reachable env fd_open s" and "i \<noteq> sv_listen env"
    and "(server_step env fd_open)\<^sup>*\<^sup>* s t"
  shows "reach life_init life_step (life_of env fd_open i s)
     \<and> life_step\<^sup>*\<^sup>* (life_of env fd_open i s) (life_of env fd_open i t)"
  using lifecycle.sim_reach [OF assms(2), of i] lifecycle.sim_run [OF assms(4,2), of i] assms(1,3) by simp

theorem connection_lifecycle_witness:
  "life_of demo_env fd_in 5 demo_start = Closed \<and> life_of demo_env fd_in 5 demo_waiting = Receiving
     \<and> life_step\<^sup>*\<^sup>* Receiving (life_of demo_env fd_in 5 (demo_received Waiting ''GET'' 3))"
proof -
  have r: "reachable demo_env fd_in demo_waiting" by (rule demo_waiting_reachable)
  have l: "life_of demo_env fd_in 5 demo_start = Closed" "life_of demo_env fd_in 5 demo_waiting = Receiving"
    by (simp_all add: life_of_def life_def demo_start_def demo_waiting_def demo_env_def fd_in_def pending_def ops_def
        cqs_def recv_sqe_def accept_sqe_def demo_conn_def)
  have "server_step demo_env fd_in demo_waiting (demo_received Waiting ''GET'' 3)"
    using server_step.received [of demo_waiting "[]" recv_sqe "[accept_sqe]" 5 "2 ^ 21" 5 "''GET''" demo_env fd_in]
      unat_conn_capacity by (simp add: demo_received_def demo_waiting_def recv_sqe_def)
  then have "(server_step demo_env fd_in)\<^sup>*\<^sup>* demo_waiting (demo_received Waiting ''GET'' 3)" by simp
  with connection_lifecycle [OF demo_fd_kernel r, of 5] l show ?thesis by (simp add: demo_env_def)
qed

text \<open>
  C16. A connection that is being answered stays so until its descriptor is closed: as long as
  it is not closed, the number of operations the answer consists of (\<open>total_steps\<close>) does not
  change, every operation that is no longer outstanding has been counted in \<open>cur_steps\<close>, and
  no step adds an operation to those in the queue or with the kernel: no second answer is
  begun and nothing is queued again.
\<close>

theorem sending_until_closed:
  assumes fk: "fd_kernel (sv_static env) fd_open" and s: "reachable env fd_open s" and i: "i \<noteq> sv_listen env"
    and snd: "life_of env fd_open i s = Sending n" and run: "(server_step env fd_open)\<^sup>*\<^sup>* s t"
  shows "(\<exists>m \<le> n. life_of env fd_open i t = Sending m
        \<and> cn_total_steps (ss_conns t i) = cn_total_steps (ss_conns s i)
        \<and> cn_cur_steps (ss_conns t i) = cn_cur_steps (ss_conns s i) + int (n - m)
        \<and> mset (ops t i) \<subseteq># mset (ops s i)
        \<and> (\<forall>t'. server_step env fd_open t t' \<longrightarrow> mset (ops t' i) \<subseteq># mset (ops t i)))
     \<or> (\<exists>u. (server_step env fd_open)\<^sup>*\<^sup>* s u \<and> (server_step env fd_open)\<^sup>*\<^sup>* u t \<and> life_of env fd_open i u = Closed)"
proof -
  have inv: "server_inv env fd_open u" if "(server_step env fd_open)\<^sup>*\<^sup>* s u" for u
    using server.reach_inv [OF reach_steps [OF that s]] fk by blast
  have steps: "cn_total_steps (ss_conns u i) = cn_cur_steps (ss_conns u i) + int m"
    if "(server_step env fd_open)\<^sup>*\<^sup>* s u" "life_of env fd_open i u = Sending m" for u m
    using life_sendingD(1,2) [OF inv [OF that(1)] i that(2)] by (auto simp: conn_send_def pending_def)
  from run have "(\<exists>m \<le> n. life_of env fd_open i t = Sending m \<and> no_new_ops s t i)
     \<or> (\<exists>u. (server_step env fd_open)\<^sup>*\<^sup>* s u \<and> (server_step env fd_open)\<^sup>*\<^sup>* u t \<and> life_of env fd_open i u = Closed)"
  proof (induction rule: rtranclp_induct)
    case base
    with snd show ?case by (auto simp: no_new_ops_def)
  next
    case (step t t')
    have r: "reachable env fd_open t" by (rule reach_steps [OF step(1) s])
    have t': "(server_step env fd_open)\<^sup>*\<^sup>* s t'" using step(1,2) by simp
    from step.IH show ?case
    proof
      assume "\<exists>m \<le> n. life_of env fd_open i t = Sending m \<and> no_new_ops s t i"
      then obtain m where m: "m \<le> n" "life_of env fd_open i t = Sending m" "no_new_ops s t i" by blast
      show ?thesis
      proof (cases "life_of env fd_open i t' = Closed")
        case True
        with t' show ?thesis by blast
      next
        case False
        with sending_no_new_ops [OF step(2) inv [OF step(1)] fk i m(2)] m(3)
        have "no_new_ops s t' i" by (auto simp: no_new_ops_def intro: subset_mset.order_trans)
        with False sending_step [OF r step(2) fk i m(2)] m(1) show ?thesis by (meson diff_le_self le_trans)
      qed
    qed (use step(2) in \<open>meson rtranclp.rtrancl_into_rtrancl\<close>)
  qed
  then show ?thesis
  proof
    assume "\<exists>m \<le> n. life_of env fd_open i t = Sending m \<and> no_new_ops s t i"
    then obtain m where m: "m \<le> n" "life_of env fd_open i t = Sending m" "no_new_ops s t i" by blast
    moreover have "mset (ops t' i) \<subseteq># mset (ops t i)" if t': "server_step env fd_open t t'" for t'
    proof (cases "life_of env fd_open i t' = Closed")
      case True
      have "server_inv env fd_open t'" by (rule inv) (use run t' in simp)
      with True life_pending(1) [OF this i] have "ops t' i = []" by (auto simp: life_of_def life_def pending_def split: if_splits)
      then show ?thesis by simp
    next
      case False
      with sending_no_new_ops [OF t' inv [OF run] fk i m(2)] show ?thesis by (simp add: no_new_ops_def)
    qed
    ultimately show ?thesis using steps [OF run m(2)] steps [OF rtranclp.rtrancl_refl snd] by (auto simp: no_new_ops_def)
  qed (rule disjI2)
qed


text \<open>The client fills the whole buffer and is answered with status 413.\<close>

definition demo_sending :: "phase \<Rightarrow> conn \<Rightarrow> (int set, unit) server_state" where
  "demo_sending p c = demo_waiting\<lparr>ss_phase := p, ss_conns := demo_conns(5 := c),
     ss_world := (ss_world demo_waiting)\<lparr>w_ring :=
       [\<lparr>sq_op = Op_send 5 (RESPONSE_413 @ [NUL]) (of_nat (length RESPONSE_413)) 0, sq_user = Some 5, sq_flags = 0\<rparr>]\<rparr>,
     ss_flight := [accept_sqe], ss_cq := []\<rparr>"

lemma demo_sending_reachable:
  "\<exists>c. cn_action c = IO_URING_OP_SEND \<and> reachable demo_env fd_in (demo_sending Draining c)"
proof -
  obtain bytes :: cbuf where len: "length bytes = 2 ^ 21" using Ex_list_of_length by blast
  let ?s = "demo_received Draining bytes (2 ^ 21)" and ?q = "\<lparr>cq_user = Some 5, cq_res = 2 ^ 21\<rparr>"
  obtain fr where fr: "handler_start some_env 5 = Some (Some fr)" using demo_handler_start by blast
  define c where "c = (receive bytes demo_conn)\<lparr>cn_action := IO_URING_OP_SEND, cn_total_steps := 1,
     cn_coro := Some (Co_suspended fr)\<rparr>"
  have r: "reachable demo_env fd_in ?s" by (rule demo_received_reachable) (simp_all add: len)
  have rc: "receive bytes demo_conn = demo_conn\<lparr>cn_str := Some (demo_string\<lparr>str_buf := bytes\<rparr>)\<rparr>"
    by (simp add: receive_def demo_conn_def demo_string_def len)
  have "resume_connection (demo_env\<lparr>sv_mem := some_env\<rparr>) 5 (2 ^ 21) (receive bytes demo_conn, ss_world ?s)
      = Some (c, ss_world (demo_sending Draining c))"
    using fr unfolding rc c_def
    by (simp add: resume_connection_def handler_body_def recv_case_def demo_conn_def demo_string_def send_text_def push_defs
        demo_env_def demo_sending_def demo_received_def demo_waiting_def to_int_id)
  moreover have "cn_action (receive bytes demo_conn) = IO_URING_OP_RECV" unfolding rc by (simp add: demo_conn_def)
  ultimately have "process_cqe True (demo_env\<lparr>sv_mem := some_env\<rparr>) ?q (ss_conns ?s, ss_world ?s)
      = Some (Running (demo_conns(5 := c), ss_world (demo_sending Draining c)))"
    by (simp add: process_cqe_def demo_received_def)
  with server_step.process [where s = ?s and c = ?q and cs = "[]" and co_alloc = True and env = demo_env and mem = some_env
      and fd_open = fd_in]
  have "server_step demo_env fd_in ?s (demo_sending Draining c)"
    by (simp add: demo_received_def demo_sending_def demo_waiting_def)
  from reachable_step [OF r this] show ?thesis by (intro exI [of _ c]) (simp add: c_def)
qed

theorem sending_until_closed_witness:
  "\<exists>c. life_of demo_env fd_in 5 (demo_sending Draining c) = Sending 1
     \<and> ((\<exists>m \<le> 1. life_of demo_env fd_in 5 (demo_sending Submitting c) = Sending m
            \<and> cn_cur_steps (ss_conns (demo_sending Submitting c) 5) = cn_cur_steps c + int (1 - m))
        \<or> (\<exists>u. (server_step demo_env fd_in)\<^sup>*\<^sup>* u (demo_sending Submitting c) \<and> life_of demo_env fd_in 5 u = Closed))"
proof -
  obtain c where c: "cn_action c = IO_URING_OP_SEND" "reachable demo_env fd_in (demo_sending Draining c)"
    using demo_sending_reachable by blast
  have l: "life_of demo_env fd_in 5 (demo_sending Draining c) = Sending 1" "(5::nat) \<noteq> sv_listen demo_env"
    using c(1) by (simp_all add: life_of_def life_def demo_sending_def demo_waiting_def demo_env_def fd_in_def pending_def
        ops_def cqs_def accept_sqe_def)
  have "server_step demo_env fd_in (demo_sending Draining c) (demo_sending Submitting c)"
    using server_step.drained [of "demo_sending Draining c" demo_env fd_in] by (simp add: demo_sending_def demo_waiting_def)
  then have "(server_step demo_env fd_in)\<^sup>*\<^sup>* (demo_sending Draining c) (demo_sending Submitting c)" by simp
  moreover have "ss_conns (demo_sending Draining c) 5 = c" by (simp add: demo_sending_def)
  ultimately show ?thesis using sending_until_closed [OF demo_fd_kernel c(2) l(2,1), of "demo_sending Submitting c"] l(1)
    by auto
qed

end
