(* ===== verification/Progress.thy ===== *)
theory Progress
  imports Lifecycle
begin

text \<open>
  That the loop goes on: a second invariant, on the strings that a coroutine keeps across
  its yields and on the coroutines that have ended, and from it that processing a
  completion is defined in every reachable state, with exactly two exceptions.
\<close>

section \<open>Strings with the block they claim to have\<close>

definition cap_ok :: "string_t option \<Rightarrow> bool" where
  "cap_ok str \<longleftrightarrow> (\<forall>s. str = Some s \<longrightarrow> length (str_buf s) = unat (str_capacity s))"

lemma cap_ok_None [simp]: "cap_ok None"
  by (simp add: cap_ok_def)

lemma strncat_length: "strncat a b n = Some c \<Longrightarrow> length c = length a"
  by (auto simp: strncat_def bind_Some_iff Let_def split: if_splits)

lemma string_init_cap: "string_init alloc n = Some str \<Longrightarrow> cap_ok str"
  by (auto simp: cap_ok_def string_init_def Let_def bind_Some_iff split: if_splits)

lemma string_append_cap:
  assumes "string_append alloc fill str b n = Some (r, str')" and "cap_ok str"
  shows "cap_ok str'"
  using assms
  by (auto simp: string_append_def cap_ok_def bind_Some_iff dest!: strncat_length split: option.splits if_splits)

lemma string_reset_cap: "cap_ok str \<Longrightarrow> \<exists>str'. string_reset str = Some str' \<and> cap_ok str'"
  by (auto simp: cap_ok_def string_reset_def split: option.splits)

lemma emit_cap: "emit env st t = Some st' \<Longrightarrow> cap_ok (snd st) \<Longrightarrow> cap_ok (snd st')"
  by (auto simp: emit_def bind_Some_iff dest: string_append_cap)

lemma append_final_cap: "append_final env f b n = Some f' \<Longrightarrow> cap_ok f \<Longrightarrow> cap_ok f'"
  by (auto simp: append_final_def dest: string_append_cap)

lemma compose_headers_cap: "compose_headers env mem m i st = Some st' \<Longrightarrow> cap_ok (snd st) \<Longrightarrow> cap_ok (snd st')"
proof (induction env mem m i st rule: compose_headers.induct)
  case (1 env mem m i st)
  from "1.prems" show ?case
    by (subst (asm) compose_headers.simps)
      (auto split: if_splits option.splits intro: "1.IH" dest: emit_cap)
qed

lemma compose_response_cap:
  assumes "http_compose_response env mem req res final = Some (r, final')" and "cap_ok final"
  shows "cap_ok final'"
  using assms unfolding http_compose_response_def
  by (auto simp: bind_Some_iff Let_def split: option.splits if_splits
      dest!: append_final_cap emit_cap compose_headers_cap)

section \<open>Frames\<close>

text \<open>
  What is asked of the handlers of the application: a handler that is given a response whose
  string has its block leaves it so, as the macros for handlers do.
\<close>

definition handlers_ok :: "'u handler router list \<Rightarrow> bool" where
  "handlers_ok routes \<longleftrightarrow> (\<forall>rt \<in> set routes. \<forall>f mem req res u r res' u'. rt_fp rt = Route_fn f \<longrightarrow>
     cap_ok (rs_str res) \<longrightarrow> f mem req res u = Some (r, res', u') \<longrightarrow> cap_ok (rs_str res'))"

definition frame_caps :: "frame \<Rightarrow> bool" where
  "frame_caps fr \<longleftrightarrow> cap_ok (rs_str (fr_res fr)) \<and> cap_ok (fr_fresstr fr)"

definition coro_caps :: "conn \<Rightarrow> bool" where
  "coro_caps c \<longleftrightarrow> (\<forall>fr. cn_coro c = Some (Co_suspended fr) \<longrightarrow> frame_caps fr)"

lemma handler_start_caps: "handler_start env i = Some (Some fr) \<Longrightarrow> frame_caps fr"
  by (auto simp: handler_start_def frame_caps_def bind_Some_iff Let_def split: if_splits dest: string_init_cap)

lemma static_router_str:
  assumes "global_static_router watch env se res path data k = Some (r, res', data', k')"
  shows "rs_str res' = rs_str res"
  using assms
  by (auto simp: global_static_router_def store_buf_def SET_RES_MIME_def bind_Some_iff Let_def split: if_splits option.splits prod.splits)

lemma call_handler_cap:
  assumes "call_handler env mem rt req res w = Some (e, res', w')" and "rt \<in> set (sv_routes env)"
    and "handlers_ok (sv_routes env)" and "cap_ok (rs_str res)"
  shows "cap_ok (rs_str res')"
proof (cases "rt_fp rt")
  case Global_static
  with assms(1,4) show ?thesis
    by (auto simp: call_handler_def bind_Some_iff dest: static_router_str split: option.splits)
next
  case (Route_fn f)
  with assms(1) obtain u where "f mem req res (w_user w) = Some (e, res', u)"
    by (auto simp: call_handler_def bind_Some_iff split: option.splits)
  with Route_fn assms(2-4) show ?thesis unfolding handlers_ok_def by blast
qed

lemma answer_request_caps:
  assumes run: "answer_request env i fr mem st = Some (fr', st')" and hk: "handlers_ok (sv_routes env)" and fr: "frame_caps fr"
  shows "frame_caps fr'"
proof -
  obtain path where path: "rq_path (fr_req fr) \<bind> deref mem = Some path"
    using run by (auto simp: answer_request_def bind_Some_iff)
  show ?thesis
  proof (cases "find_router (sv_routes env) path (rq_method (fr_req fr))")
    case None
    with run path fr show ?thesis by (auto simp: answer_request_def bind_Some_iff)
  next
    case (Some rt)
    with run path obtain e res w where ch: "call_handler env mem rt (fr_req fr) (fr_res fr) (snd st) = Some (e, res, w)"
      by (auto simp: answer_request_def bind_Some_iff)
    have "cap_ok (rs_str res)"
      using call_handler_cap [OF ch _ hk] find_router_SomeD [OF Some] fr by (simp add: frame_caps_def)
    with run path Some ch fr show ?thesis
      by (auto simp: answer_request_def bind_Some_iff Let_def frame_caps_def split: if_splits dest: compose_response_cap)
  qed
qed

lemma frame_caps_request [simp]: "frame_caps (fr\<lparr>fr_req := x\<rparr>) = frame_caps fr"
  by (simp add: frame_caps_def)

lemma recv_case_caps:
  assumes run: "recv_case env i v fr st = Some (l, fr', st')" and hk: "handlers_ok (sv_routes env)" and fr: "frame_caps fr"
  shows "frame_caps fr'"
proof -
  consider "v \<le> 0" | str where "0 < v" "cn_str (fst st) = Some str"
    using run by (cases "v \<le> 0") (auto simp: recv_case_def bind_Some_iff)
  then show ?thesis
  proof cases
    case 1
    with run fr show ?thesis by (auto simp: recv_case_def split: if_splits)
  next
    case (2 str)
    show ?thesis
    proof (cases "v = sint (str_capacity str)")
      case True
      with run fr 2 show ?thesis by (auto simp: recv_case_def bind_Some_iff)
    next
      case False
      with run 2 obtain ok req mem where "http_parse_request (sv_mem env) (fr_req fr) (str_buf str) (nat v) = Some (ok, req, mem)"
        by (auto simp: recv_case_def bind_Some_iff)
      with False run 2 fr answer_request_caps [OF _ hk, of i "fr\<lparr>fr_req := req\<rparr>" mem] show ?thesis
        by (auto simp: recv_case_def bind_Some_iff Let_def split: if_splits)
    qed
  qed
qed

lemma reset_case_caps:
  assumes "reset_case env fr st = Some (fr', st')" and "frame_caps fr"
  shows "frame_caps fr'"
proof -
  obtain a b where "string_reset (rs_str (fr_res fr)) = Some a" "cap_ok a" "string_reset (fr_fresstr fr) = Some b" "cap_ok b"
    using assms(2) string_reset_cap unfolding frame_caps_def by blast
  with assms(1) show ?thesis
    by (auto simp: reset_case_def frame_caps_def Let_def bind_Some_iff split: prod.splits)
qed

lemma handler_body_caps:
  assumes "handler_body env i v fr st = Some (fr', st')" and "handlers_ok (sv_routes env)" and "frame_caps fr"
  shows "frame_caps fr'"
  using assms
  by (auto simp: handler_body_def bind_Some_iff Let_def split: if_splits dest: recv_case_caps reset_case_caps)

lemma resume_caps:
  assumes run: "resume_connection env i v (c, w) = Some (c', w')" and hk: "handlers_ok (sv_routes env)" and c: "coro_caps c"
  shows "coro_caps c' \<and> (cn_coro c' = Some Co_stopped \<longrightarrow> cn_coro c = Some Co_created \<and> w' = w)"
proof -
  from run consider "c' = c\<lparr>cn_coro := Some Co_stopped\<rparr>" "w' = w" "cn_coro c = Some Co_created"
    | fr fr' c1 where "handler_body env i v fr (c, w) = Some (fr', c1, w')" "c' = c1\<lparr>cn_coro := Some (Co_suspended fr')\<rparr>"
      "cn_coro c = Some (Co_suspended fr) \<or> handler_start (sv_mem env) i = Some (Some fr)"
    by (auto simp: resume_connection_def bind_Some_iff split: option.splits co.splits)
  then show ?thesis
  proof cases
    case 1
    then show ?thesis by (simp add: coro_caps_def)
  next
    case (2 fr fr' c1)
    have "frame_caps fr" using 2(3) c handler_start_caps unfolding coro_caps_def by blast
    with handler_body_caps [OF 2(1) hk] 2(2) show ?thesis by (simp add: coro_caps_def)
  qed
qed

section \<open>The second invariant\<close>

text \<open>
  Only a connection that is no longer served can have a coroutine that has ended; a
  descriptor that \<open>accept\<close> returned is one of the connections of the server.
\<close>

definition frames_inv ::
  "('k, 'u) server_env \<Rightarrow> ('k \<Rightarrow> int \<Rightarrow> bool) \<Rightarrow> ('k, 'u) server_state \<Rightarrow> bool"
where
  "frames_inv env fd_open s \<longleftrightarrow>
     (\<forall>i. i \<noteq> sv_listen env \<longrightarrow> coro_caps (ss_conns s i)
        \<and> (life_of env fd_open i s \<noteq> Unserved \<longrightarrow> cn_coro (ss_conns s i) \<noteq> Some Co_stopped))
   \<and> (\<forall>q \<in> set (cqs s (sv_listen env)). 0 \<le> cq_res q \<longrightarrow> nat (cq_res q) < sv_nfds env)"

lemma unserved_before: "l' = l \<or> life_step l l' \<Longrightarrow> l' \<noteq> Unserved \<Longrightarrow> l \<noteq> Unserved"
  by auto

lemma accept_coro:
  assumes "accept_connection co_alloc env i (conns, w) = Some (Running (conns', w'))" and "j \<noteq> sv_listen env"
  shows "cn_coro (conns' j) \<in> {cn_coro (conns j), None, Some Co_created}"
proof -
  obtain r c where p: "(if cn_coro (conns i) = None then prepare_connection co_alloc (sv_mem env) (int i) (conns i)
      else Some (0, conns i)) = Some (r, c)"
    using assms(1) by (auto simp: accept_connection_def bind_Some_iff split: if_splits)
  then have "cn_coro c \<in> {cn_coro (conns i), None, Some Co_created}"
    by (auto simp: prepare_connection_def Let_def bind_Some_iff split: if_splits)
  with assms p show ?thesis
    by (auto simp: accept_connection_def bind_Some_iff push_defs split: if_splits prod.splits dest!: accept_again_spec)
qed

lemma resume_keeps_frames:
  assumes inv: "server_inv env fd_open s" and fr: "frames_inv env fd_open s" and hk: "handlers_ok (sv_routes env)"
    and cq: "ss_cq s = q # cs" and i: "i \<noteq> sv_listen env" "cq_user q = Some i"
    and ok: "conn_ok i True (ss_conns s i) (ops s i) (q # cqs (s\<lparr>ss_cq := cs\<rparr>) i)"
    and run: "resume_connection (env\<lparr>sv_mem := mem\<rparr>) i (cq_res q) (ss_conns s i, ss_world s) = Some (c, w)"
    and opn: "fd_open (w_kst (ss_world s)) (int i)"
  shows "coro_caps c \<and> (life_of env fd_open i (s\<lparr>ss_conns := (ss_conns s)(i := c), ss_world := w, ss_cq := cs\<rparr>) \<noteq> Unserved
     \<longrightarrow> cn_coro c \<noteq> Some Co_stopped)"
    (is "_ \<and> (life_of _ _ _ ?s \<noteq> _ \<longrightarrow> _)")
proof -
  have "coro_caps (ss_conns s i)" using fr i(1) by (simp add: frames_inv_def)
  with resume_caps [OF run] hk have caps: "coro_caps c"
    and st: "cn_coro c = Some Co_stopped \<Longrightarrow> cn_coro (ss_conns s i) = Some Co_created \<and> w = ss_world s" by auto
  have "life_of env fd_open i ?s = Unserved" if "cn_coro c = Some Co_stopped"
  proof -
    from st [OF that] ok have "conn_recv (ss_conns s i) (ops s i) (q # cqs (s\<lparr>ss_cq := cs\<rparr>) i)"
      by (auto simp: conn_ok_def conn_send_def)
    then have nil: "ops s i = []" "cqs (s\<lparr>ss_cq := cs\<rparr>) i = []" by (auto simp: conn_recv_def)
    have "ops ?s i = []" "cqs ?s i = []" "cqs ?s (sv_listen env) = cqs s (sv_listen env)"
      using nil st [OF that] cq i by (auto simp: ops_def cqs_def)
    moreover have "\<not> names (cqs s (sv_listen env)) i"
      using life_pending(2) [OF inv i(1)] cq i(2) by (auto simp: pending_def cqs_def)
    ultimately show ?thesis using opn st [OF that] by (simp add: life_of_def life_def pending_def)
  qed
  with caps show ?thesis by blast
qed


lemma process_keeps_frames:
  assumes inv: "server_inv env fd_open s" and fk: "fd_kernel (sv_static env) fd_open" and fr: "frames_inv env fd_open s"
    and hk: "handlers_ok (sv_routes env)" and cq: "ss_cq s = q # cs" and j: "j \<noteq> sv_listen env"
    and run: "process_cqe co_alloc (env\<lparr>sv_mem := mem\<rparr>) q (ss_conns s, ss_world s) = Some (Running (conns, w))"
    and s': "s' = s\<lparr>ss_conns := conns, ss_world := w, ss_cq := cs\<rparr>"
  shows "coro_caps (conns j) \<and> (life_of env fd_open j s' \<noteq> Unserved \<longrightarrow> cn_coro (conns j) \<noteq> Some Co_stopped)"
proof -
  have old: "coro_caps (ss_conns s j)" "life_of env fd_open j s \<noteq> Unserved \<Longrightarrow> cn_coro (ss_conns s j) \<noteq> Some Co_stopped"
    using fr j by (simp_all add: frames_inv_def)
  have same: ?thesis if "cn_coro (conns j) \<in> {cn_coro (ss_conns s j), None, Some Co_created}"
    using that old unserved_before [OF process_life [OF inv fk j cq run]] by (auto simp: s' coro_caps_def)
  show ?thesis
    using inv cq run
  proof (cases rule: process_cases)
    case again
    from accept_again_spec [OF again(3)] j show ?thesis by (intro same) auto
  next
    case (takeover r)
    from accept_coro [OF takeover(4), of j] j show ?thesis by (intro same) simp
  next
    case (resume r c)
    show ?thesis
    proof (cases "r = j")
      case True
      with resume_keeps_frames [OF inv fr hk cq resume(2,1,4,6,3)] resume(5) show ?thesis by (simp add: s')
    next
      case False
      with resume(5) show ?thesis by (intro same) simp
    qed
  qed
qed

lemma frames_inv_step:
  assumes step: "server_step env fd_open s s'" and inv: "server_inv env fd_open s"
    and fk: "fd_kernel (sv_static env) fd_open" and hk: "handlers_ok (sv_routes env)" and fr: "frames_inv env fd_open s"
  shows "frames_inv env fd_open s'"
proof -
  let ?l = "sv_listen env"
  have keep: "coro_caps (ss_conns s' j) \<and> (life_of env fd_open j s' \<noteq> Unserved \<longrightarrow> cn_coro (ss_conns s' j) \<noteq> Some Co_stopped)"
    if "j \<noteq> ?l" "cn_coro (ss_conns s' j) = cn_coro (ss_conns s j)" for j
    using that fr unserved_before [OF life_of_step [OF step inv fk that(1)]] by (auto simp: frames_inv_def coro_caps_def)
  have res: "\<forall>q \<in> set (cqs s ?l). 0 \<le> cq_res q \<longrightarrow> nat (cq_res q) < sv_nfds env" using fr by (simp add: frames_inv_def)
  have "coro_caps (ss_conns s' j) \<and> (life_of env fd_open j s' \<noteq> Unserved \<longrightarrow> cn_coro (ss_conns s' j) \<noteq> Some Co_stopped)"
    if j: "j \<noteq> ?l" for j
    using step
  proof cases
    case (process c cs co_alloc mem conns w)
    with process_keeps_frames [OF inv fk fr hk process(3) j process(4) process(1)] show ?thesis by simp
  next
    case (received xs e ys fd len i bytes)
    then show ?thesis by (intro keep [OF j]) (simp add: receive_def split: option.splits)
  qed (intro keep [OF j], simp)+
  moreover have "\<forall>q \<in> set (cqs s' ?l). 0 \<le> cq_res q \<longrightarrow> nat (cq_res q) < sv_nfds env"
    using step
  proof cases
    case (recv_failed xs e ys fd len r)
    then show ?thesis using res by (auto simp: cqs_def)
  next
    case (received xs e ys fd len i bytes)
    then have "i \<noteq> ?l" using accept_user [OF inv, of e] by auto
    with received show ?thesis using res by (auto simp: cqs_def)
  next
    case (sent xs e ys r)
    then have "sq_user e \<noteq> Some ?l" using accept_user [OF inv, of e] by auto
    with sent show ?thesis using res by (auto simp: cqs_def)
  qed (use res in \<open>auto simp: cqs_def split: if_splits\<close>)
  ultimately show ?thesis by (simp add: frames_inv_def)
qed

lemma frames_inv_init: "server_init env fd_open s \<Longrightarrow> frames_inv env fd_open s"
  by (auto simp: server_init_def io_uring_listen_start_def push_defs bind_Some_iff frames_inv_def coro_caps_def zero_conn_def
      cqs_def split: if_splits)

interpretation frames: inductive_invariant "server_init env fd_open" "server_step env fd_open"
  "\<lambda>s. fd_kernel (sv_static env) fd_open \<longrightarrow> handlers_ok (sv_routes env) \<longrightarrow>
     server_inv env fd_open s \<and> frames_inv env fd_open s" for env fd_open
  by unfold_locales (auto intro: server_inv_init server_inv_step frames_inv_init frames_inv_step)


section \<open>Processing is defined\<close>

lemma string_init_total: "\<exists>str. string_init alloc 1024 = Some str" "\<exists>str. string_init alloc 2048 = Some str"
  using clz_capacity_eq [of 10 1024] clz_capacity_eq [of 11 2048] by (simp_all add: string_init_def Let_def)

lemma handler_start_total: "\<exists>x. handler_start env i = Some x"
  using string_init_total [of "me_alloc env"] by (auto simp: handler_start_def Let_def)

lemma reset_total:
  assumes "frame_caps fr" and "cn_str c = Some s" "conn_block s"
  shows "\<exists>x. reset_case env fr (c, w) = Some x"
proof -
  obtain a b where "string_reset (rs_str (fr_res fr)) = Some a" "string_reset (fr_fresstr fr) = Some b"
    using assms(1) string_reset_cap unfolding frame_caps_def by blast
  moreover obtain d where "string_reset (Some s) = Some d" using string_reset_conn [of "Some s"] assms(3) by auto
  ultimately show ?thesis using assms(2) by (simp add: reset_case_def Let_def split: prod.splits)
qed

lemma resume_total:
  assumes ok: "conn_ok i True c os (q # qs)" and caps: "coro_caps c" "cn_coro c \<noteq> Some Co_stopped"
    and q: "cn_action c \<noteq> IO_URING_OP_RECV \<or> cq_res q \<le> 0"
  shows "\<exists>x. resume_connection env i (cq_res q) (c, w) = Some x"
proof -
  have st: "conn_recv c os (q # qs) \<or> conn_send c os (q # qs)" and "cn_coro c \<noteq> None"
    using ok by (auto simp: conn_ok_def conn_recv_def conn_send_def)
  then obtain co where co: "cn_coro c = Some co" by blast
  obtain str where str: "cn_str c = Some str" "conn_block str"
    using st by (auto simp: conn_recv_def conn_send_def holds_request_def blank_def)
  have body: "\<exists>x. handler_body env i (cq_res q) fr (c, w) = Some x" if fr: "frame_caps fr" for fr
    using st
  proof
    assume "conn_recv c os (q # qs)"
    then have "cn_action c = IO_URING_OP_RECV" by (simp add: conn_recv_def)
    with q show ?thesis using reset_total [OF fr str, of env w]
      by (cases "cq_res q = 0") (auto simp: handler_body_def recv_case_def)
  next
    assume "conn_send c os (q # qs)"
    from send_round [OF this, of env i "cq_res q" fr w]
      reset_total [OF fr, of "c\<lparr>cn_cur_steps := cn_cur_steps c + 1\<rparr>" str env w] str show ?thesis by auto
  qed
  show ?thesis
  proof (cases co)
    case Co_created
    with handler_start_total [of "sv_mem env" i] obtain x where x: "handler_start (sv_mem env) i = Some x" by blast
    show ?thesis
    proof (cases x)
      case (Some fr)
      from body [OF handler_start_caps] x Some Co_created co show ?thesis by (fastforce simp: resume_connection_def)
    qed (use x Co_created co in \<open>simp add: resume_connection_def\<close>)
  next
    case (Co_suspended fr)
    with caps(1) co body [of fr] show ?thesis by (auto simp: resume_connection_def coro_caps_def)
  qed (use caps(2) co in simp)
qed

lemma accept_again_total: "sv_slot env (w_ring (snd st)) \<Longrightarrow> \<exists>x. accept_again env st = Some (Running x)"
  by (auto simp: accept_again_def push_defs split: prod.splits)

lemma prepare_total:
  "\<exists>r c. prepare_connection co_alloc env fd conn = Some (r, c) \<and> (0 \<le> r \<longrightarrow> cn_str c \<noteq> None)"
  using string_init_total(1) [of "me_alloc env"]
  by (auto simp: prepare_connection_def Let_def DEFAULT_SVR_BUFLEN_def)

lemma accept_total:
  assumes slot: "room_for_two env (w_ring w)" and i: "i < sv_nfds env" and c: "cn_coro (conns i) = None \<or> cn_str (conns i) \<noteq> None"
  shows "\<exists>x. accept_connection co_alloc env i (conns, w) = Some (Running x)"
proof -
  obtain r c where p: "(if cn_coro (conns i) = None then prepare_connection co_alloc (sv_mem env) (int i) (conns i)
      else Some (0, conns i)) = Some (r, c)" "0 \<le> r \<longrightarrow> cn_str c \<noteq> None"
    using c prepare_total [of co_alloc "sv_mem env" "int i" "conns i"] by (cases "cn_coro (conns i) = None") auto
  show ?thesis
  proof (cases "r < 0")
    case True
    have "\<exists>x. accept_again env (c, w\<lparr>w_kst := k\<rparr>) = Some (Running x)" for c k
      using slot by (intro accept_again_total) (simp add: room_for_two_def)
    with True p i show ?thesis by (simp add: accept_connection_def split: prod.splits)
  next
    case False
    have "\<exists>x. accept_again env (c, w\<lparr>w_ring := w_ring w @ [e]\<rparr>) = Some (Running x)" for c e
      using slot by (intro accept_again_total) (simp add: room_for_two_def)
    with False p i slot show ?thesis by (auto simp: accept_connection_def push_defs room_for_two_def)
  qed
qed

section \<open>Properties\<close>

text \<open>
  C15. The loop goes on. In every reachable state in which a completion is to be processed,
  processing it is defined, and the process does not exit unless \<open>accept\<close> failed with an
  error other than \<open>EAGAIN\<close>. There are three exceptions: a completed accept when the
  submission queue has no room for the two entries it may need (with \<open>QD\<close> entries in all, when
  more than \<open>QD - 2\<close> are queued: \<open>io_uring_get_sqe\<close> then returns NULL and the code does not test
  it), a received request, which the handlers and the composition of the response may spoil,
  and a client on a descriptor whose connection once could not be prepared for lack of
  memory.
\<close>

theorem loop_progress:
  assumes fk: "fd_kernel (sv_static env) fd_open" and hk: "handlers_ok (sv_routes env)" and s: "reachable env fd_open s"
    and cq: "ss_cq s = q # cs" "cq_user q = Some i"
    and room: "i = sv_listen env \<Longrightarrow> room_for_two env (w_ring (ss_world s))"
    and no_request: "i \<noteq> sv_listen env \<Longrightarrow> cn_action (ss_conns s i) = IO_URING_OP_RECV \<Longrightarrow> cq_res q \<le> 0"
    and prepared: "i = sv_listen env \<Longrightarrow> 0 \<le> cq_res q \<Longrightarrow>
      cn_coro (ss_conns s (nat (cq_res q))) = None \<or> cn_str (ss_conns s (nat (cq_res q))) \<noteq> None"
  shows "\<exists>x. process_cqe co_alloc (env\<lparr>sv_mem := mem\<rparr>) q (ss_conns s, ss_world s) = Some x
     \<and> ((\<exists>code. x = Exited code) \<longleftrightarrow> i = sv_listen env \<and> cq_res q < 0 \<and> cq_res q \<noteq> - EAGAIN)"
proof -
  let ?env = "env\<lparr>sv_mem := mem\<rparr>"
  have inv: "server_inv env fd_open s" and fr: "frames_inv env fd_open s" using frames.reach_inv [OF s] fk hk by blast+
  show ?thesis
  proof (cases "i = sv_listen env")
    case True
    have room': "room_for_two ?env (w_ring (ss_world s))" using room [OF True] by (simp add: room_for_two_def)
    have act: "cn_action (ss_conns s i) = IO_URING_OP_ACCEPT" using server_invD(1) [OF inv] True by (simp add: listen_ok_def Let_def)
    have lt: "nat (cq_res q) < sv_nfds env" if "0 \<le> cq_res q"
      using fr that cq True by (simp add: frames_inv_def cqs_def)
    show ?thesis
    proof (cases "cq_res q < 0")
      case neg: True
      obtain x where "accept_again ?env (ss_conns s, ss_world s) = Some (Running x)" using accept_again_total [of ?env "(ss_conns s, ss_world s)"] room' by (auto simp: room_for_two_def)
      with act cq(2) True neg show ?thesis by (simp add: process_cqe_def)
    next
      case False
      then have "\<exists>x. accept_connection co_alloc ?env (nat (cq_res q)) (ss_conns s, ss_world s) = Some (Running x)"
        using lt prepared [OF True] by (intro accept_total [OF room']) simp_all
      with act cq(2) False show ?thesis by (auto simp: process_cqe_def)
    qed
  next
    case False
    note ok = server_invD(2) [OF inv False]
    have q: "cqs s i = q # cqs (s\<lparr>ss_cq := cs\<rparr>) i" using cq by (simp add: cqs_def)
    then have opn: "fd_open (w_kst (ss_world s)) (int i)" using conn_ok_busy [OF ok] by simp
    have "life_of env fd_open i s \<noteq> Unserved" using q opn by (auto simp: life_of_def life_def pending_def)
    then have "coro_caps (ss_conns s i)" "cn_coro (ss_conns s i) \<noteq> Some Co_stopped" using fr False by (auto simp: frames_inv_def)
    moreover have "conn_ok i True (ss_conns s i) (ops s i) (q # cqs (s\<lparr>ss_cq := cs\<rparr>) i)" using ok q opn by simp
    ultimately obtain x where "resume_connection ?env i (cq_res q) (ss_conns s i, ss_world s) = Some x"
      using resume_total no_request [OF False] by blast
    moreover have "cn_action (ss_conns s i) \<noteq> IO_URING_OP_ACCEPT" using ok by (simp add: conn_ok_def)
    ultimately show ?thesis using cq(2) False by (auto simp: process_cqe_def split: prod.splits)
  qed
qed


lemma demo_handlers_ok: "handlers_ok (sv_routes demo_env)"
  by (simp add: handlers_ok_def demo_env_def route_teapot_def ROUTER_def)

theorem loop_progress_witness:
  "\<exists>x. process_cqe True (demo_env\<lparr>sv_mem := some_env\<rparr>) \<lparr>cq_user = Some 5, cq_res = - 104\<rparr>
       (ss_conns (demo_received Draining [] (- 104)), ss_world (demo_received Draining [] (- 104))) = Some (Running x)"
proof -
  let ?s = "demo_received Draining [] (- 104)" and ?q = "\<lparr>cq_user = Some 5, cq_res = - 104\<rparr>"
  have r: "reachable demo_env fd_in ?s" by (rule demo_received_reachable) simp_all
  have s: "ss_cq ?s = [?q]" "cq_user ?q = Some 5" "cq_res ?q = - 104" "5 \<noteq> sv_listen demo_env"
    by (simp_all add: demo_env_def demo_received_def)
  obtain x where x: "process_cqe True (demo_env\<lparr>sv_mem := some_env\<rparr>) ?q (ss_conns ?s, ss_world ?s) = Some x"
    "(\<exists>code. x = Exited code) \<longleftrightarrow> 5 = sv_listen demo_env \<and> cq_res ?q < 0 \<and> cq_res ?q \<noteq> - EAGAIN"
    using loop_progress [OF demo_fd_kernel demo_handlers_ok r s(1,2), of True some_env] s(3,4) by auto
  with s(4) obtain y where "x = Running y" by (cases x) auto
  with x(1) show ?thesis by blast
qed

section \<open>A failed preparation\<close>

text \<open>
  The run in which the first client finds no memory for its buffer: the connection is closed
  with its coroutine set and its string not.
\<close>

definition half_conn :: conn where
  "half_conn = zero_conn\<lparr>cn_coro := Some Co_created\<rparr>"

definition no_memory :: mem_env where
  "no_memory = some_env\<lparr>me_alloc := (\<lambda>_. False)\<rparr>"

lemma half_accept:
  "process_cqe True (demo_env\<lparr>sv_mem := no_memory\<rparr>) \<lparr>cq_user = Some 3, cq_res = 5\<rparr>
     (demo_conns, \<lparr>w_ring = [], w_kst = {3, 5}, w_data = Map_null, w_user = ()\<rparr>)
   = Some (Running (demo_conns(5 := half_conn), \<lparr>w_ring = [accept_sqe], w_kst = {3}, w_data = Map_null, w_user = ()\<rparr>))"
proof -
  have p: "prepare_connection True no_memory 5 zero_conn = Some (- 1, half_conn)"
    by (simp add: prepare_connection_def zero_conn_def half_conn_def no_memory_def string_init_def Let_def)
  have c: "sys_close demo_kernel 5 {3, 5} = (0, {3})"
    by (auto simp: sys_close_def demo_kernel_def syscall_defs NR_defs c_result_int_def int_of_rax_def)
  have conns: "demo_conns 5 = zero_conn" "demo_conns 3 = zero_conn\<lparr>cn_action := IO_URING_OP_ACCEPT\<rparr>"
    "demo_conns(5 := half_conn, 3 := (zero_conn\<lparr>cn_action := IO_URING_OP_ACCEPT\<rparr>)\<lparr>cn_action := IO_URING_OP_ACCEPT\<rparr>)
      = demo_conns(5 := half_conn)"
    by (auto simp: demo_conns_def fun_eq_iff)
  show ?thesis
    using p c conns
    by (simp add: process_cqe_def accept_connection_def accept_again_def push_defs demo_env_def accept_sqe_def zero_conn_def
        fun_upd_other del: fun_upd_apply)
qed

text \<open>
  C37. A client can bring the server down after a shortage of memory: there is a reachable
  state in which a descriptor is accepted again whose connection could not be prepared the
  first time: the completion is that of the accept, its result the descriptor 5, whose
  connection has a coroutine and NULL for its buffer. Processing it is undefined, whatever
  memory there is by then.
\<close>

theorem failed_preparation_faults:
  "\<exists>s q. reachable demo_env fd_in s \<and> ss_phase s = Draining \<and> ss_cq s = [q]
     \<and> cq_user q = Some (sv_listen demo_env) \<and> cq_res q = 5
     \<and> cn_coro (ss_conns s 5) \<noteq> None \<and> cn_str (ss_conns s 5) = None
     \<and> (\<forall>a mem. process_cqe a (demo_env\<lparr>sv_mem := mem\<rparr>) q (ss_conns s, ss_world s) = None)"
proof -
  let ?conns = "demo_conns(5 := half_conn)" and ?q = "\<lparr>cq_user = Some 3, cq_res = 5\<rparr>"
  have "reachable demo_env fd_in (demo_state Draining ?conns [] {3, 5} [] [?q])"
    by (rule demo_accepts) (rule demo_takes_over [OF half_accept])
  moreover have "process_cqe a (demo_env\<lparr>sv_mem := mem\<rparr>) ?q (?conns, w) = None" for a mem w
    by (simp add: process_cqe_def demo_conns_def accept_connection_def half_conn_def zero_conn_def)
  ultimately show ?thesis
    by (intro exI [of _ "demo_state Draining ?conns [] {3, 5} [] [?q]"] exI [of _ ?q])
      (simp add: demo_state_def demo_env_def demo_conns_def half_conn_def zero_conn_def)
qed

end
