(* ===== verification/Socket.thy ===== *)
theory Socket
  imports Syscalls
begin

text \<open>
  The listening socket (\<open>lib/socket.c\<close>). The contents of
  \<open>/proc/sys/net/core/somaxconn\<close> (\<^term>\<open>None\<close> if \<open>fopen\<close> has no memory for a stream) and the
  address parser \<open>inet_aton\<close> are parameters, as is the kernel; \<open>fopen\<close> opens a descriptor of
  the kernel, which only \<open>fclose\<close> would close. A kernel that keeps a log of the calls and
  their results shows which descriptors a function leaves open.
\<close>

section \<open>Model\<close>

subsection \<open>get\_somaxconn\<close>

definition is_space :: "char \<Rightarrow> bool" where
  "is_space c \<longleftrightarrow> c \<in> {CHR '' '', CHR 0x09, LF, CHR 0x0B, CHR 0x0C, CR}"

definition is_digit :: "char \<Rightarrow> bool" where
  "is_digit c \<longleftrightarrow> c \<in> set ''0123456789''"

definition digit_value :: "char \<Rightarrow> nat" where
  "digit_value c = of_char c - of_char CHR ''0''"

definition number :: "string \<Rightarrow> nat" where
  "number ds = foldl (\<lambda>n c. 10 * n + digit_value c) 0 ds"

text \<open>
  \<open>fscanf(file, "%lu", &v)\<close>: the result of the call and the value stored. \<open>EOF\<close> if only
  white space is left, 0 if no number follows; a value above \<open>ULONG_MAX\<close> is stored as
  \<open>ULONG_MAX\<close>, and a minus sign negates.
\<close>

definition scan_lu :: "string \<Rightarrow> int \<times> u64 option" where
  "scan_lu s =
     (let s = dropWhile is_space s;
          neg = (s \<noteq> [] \<and> hd s = CHR ''-'');
          s' = (if s \<noteq> [] \<and> (hd s = CHR ''-'' \<or> hd s = CHR ''+'') then tl s else s);
          ds = takeWhile is_digit s'
      in if s = [] then (- 1, None)
         else if ds = [] then (0, None)
         else if 2 ^ 64 \<le> number ds then (1, Some (- 1))
         else (1, Some (if neg then - of_nat (number ds) else of_nat (number ds))))"

text \<open>
  \<open>fopen(path, "r")\<close>: NULL if there is no memory for the stream or the kernel does not open
  the file; otherwise the text that reading the stream's descriptor gives. A read that fails
  is the end of the file.
\<close>

definition fopen_r :: "'k kernel \<Rightarrow> string option \<Rightarrow> string \<Rightarrow> 'k \<Rightarrow> string option \<times> 'k" where
  "fopen_r kern contents path k =
     (case contents of None \<Rightarrow> (None, k)
      | Some s \<Rightarrow> let (fd, k) = sys_open kern path 0 k in if fd < 0 then (None, k) else (Some s, k))"

definition get_somaxconn :: "'k kernel \<Rightarrow> string option \<Rightarrow> 'k \<Rightarrow> u64 \<times> 'k" where
  "get_somaxconn kern proc_file k =
     (let somaxconn = 0; (strm, k) = fopen_r kern proc_file ''/proc/sys/net/core/somaxconn'' k
      in case strm of None \<Rightarrow> (somaxconn, k)
         | Some s \<Rightarrow> (case snd (scan_lu s) of Some v \<Rightarrow> (v, k) | None \<Rightarrow> (somaxconn, k)))"

subsection \<open>create\_listening\_socket\<close>

definition AF_INET :: u16 where "AF_INET = 2"
definition SOCK_STREAM :: int where "SOCK_STREAM = 1"
definition SOCK_NONBLOCK :: int where "SOCK_NONBLOCK = 0x800"
definition SOCK_CLOEXEC :: int where "SOCK_CLOEXEC = 0x80000"
definition sizeof_sockaddr_in :: u32 where "sizeof_sockaddr_in = 16"

text \<open>\<open>htons\<close> on a little-endian machine.\<close>

definition htons :: "u16 \<Rightarrow> u16" where
  "htons p = push_bit 8 p OR drop_bit 8 p"

text \<open>The code at \<open>CLEANUP\<close>.\<close>

definition cleanup_socket :: "'k kernel \<Rightarrow> int \<Rightarrow> 'k \<Rightarrow> int \<times> 'k" where
  "cleanup_socket kern fd k = (- 1, snd (sys_close kern fd k))"

definition create_listening_socket ::
  "'k kernel \<Rightarrow> (string \<Rightarrow> u32 option) \<Rightarrow> string option \<Rightarrow> string \<Rightarrow> u16 \<Rightarrow> 'k \<Rightarrow> int \<times> 'k"
where
  "create_listening_socket kern inet_aton proc_file addr port k =
     (let (fd, k) = sys_socket kern (uint AF_INET) (SOCK_STREAM OR SOCK_NONBLOCK OR SOCK_CLOEXEC) 0 k
      in if fd < 0 then (- 1, k)
         else case inet_aton addr of
           None \<Rightarrow> cleanup_socket kern fd k
         | Some a \<Rightarrow>
             let (r, k) = sys_bind kern fd (Obj_sockaddr_in AF_INET (htons port) a) sizeof_sockaddr_in k
             in if r = - 1 then cleanup_socket kern fd k
                else let (n, k) = get_somaxconn kern proc_file k; backlog = to_int (uint n)
                  in if backlog = 0 then cleanup_socket kern fd k
                     else let (r, k) = sys_listen kern fd backlog k
                       in if r = - 1 then cleanup_socket kern fd k else (fd, k))"

section \<open>Descriptors left open\<close>

text \<open>A kernel that logs the registers of each call and its result.\<close>

type_synonym syslog = "((reg \<Rightarrow> sysarg option) \<times> u64 \<times> cobj option) list"

definition logged :: "'k kernel \<Rightarrow> ('k \<times> syslog) kernel" where
  "logged kern = (\<lambda>regs (k, log). case kern regs k of (r, obj, k') \<Rightarrow> (r, obj, (k', log @ [(regs, r, obj)])))"

text \<open>
  The descriptors that the calls of a log have opened and not closed: \<open>socket\<close> and \<open>open\<close>
  open their result, \<open>pipe2\<close> the two it stores, unless they fail; \<open>close\<close> closes its argument, also
  when it reports an error.
\<close>

fun fd_effect :: "(reg \<Rightarrow> sysarg option) \<times> u64 \<times> cobj option \<Rightarrow> int set \<Rightarrow> int set" where
  "fd_effect (regs, r, obj) fds =
     (if regs RAX \<in> {Some (Arg_int NR_socket), Some (Arg_int NR_open)} \<and> 0 \<le> int_of_rax r then insert (int_of_rax r) fds
      else if regs RAX = Some (Arg_int NR_pipe2) \<and> 0 \<le> int_of_rax r
        then (case obj of Some (Obj_fds a b) \<Rightarrow> {a, b} \<union> fds | _ \<Rightarrow> fds)
      else case (regs RAX, regs RDI) of
          (Some (Arg_int n), Some (Arg_int fd)) \<Rightarrow> if n = NR_close then fds - {fd} else fds
        | _ \<Rightarrow> fds)"

definition open_fds :: "syslog \<Rightarrow> int set \<Rightarrow> int set" where
  "open_fds log = fold fd_effect log"

text \<open>The descriptors that the calls with number \<open>nr\<close> of a log have opened, closed or not.\<close>

definition opened :: "int \<Rightarrow> syslog \<Rightarrow> int set" where
  "opened nr log = set (map (\<lambda>(regs, r, obj). int_of_rax r)
     (filter (\<lambda>(regs, r, obj). regs RAX = Some (Arg_int nr) \<and> 0 \<le> int_of_rax r) log))"

lemma opened_simps [simp]:
  "opened nr [] = {}" "opened nr (l1 @ l2) = opened nr l1 \<union> opened nr l2"
  "opened nr ((regs, r, obj) # log) = (if regs RAX = Some (Arg_int nr) \<and> 0 \<le> int_of_rax r
     then insert (int_of_rax r) (opened nr log) else opened nr log)"
  by (auto simp: opened_def)

lemma open_fds_simps [simp]:
  "open_fds [] fds = fds" "open_fds (c # log) fds = open_fds log (fd_effect c fds)"
  "open_fds (l1 @ l2) fds = open_fds l2 (open_fds l1 fds)"
  by (simp_all add: open_fds_def)

text \<open>The wrappers on a logging kernel.\<close>

lemma logged_call:
  "kern regs k = (r, obj, k') \<Longrightarrow> logged kern regs (k, log) = (r, obj, k', log @ [(regs, r, obj)])"
  by (simp add: logged_def)

lemma logged_socket:
  obtains r obj k' where "sys_socket (logged kern) d t p (k, log) = (int_of_rax r, k', log @
      [([RAX \<mapsto> Arg_int NR_socket, RDI \<mapsto> Arg_int d, RSI \<mapsto> Arg_int t, RDX \<mapsto> Arg_int p], r, obj)])"
  by (cases "kern [RAX \<mapsto> Arg_int NR_socket, RDI \<mapsto> Arg_int d, RSI \<mapsto> Arg_int t, RDX \<mapsto> Arg_int p] k")
    (simp add: sys_socket_def c_result_int_def syscall_3_def logged_call)

lemma logged_bind:
  obtains r obj k' where "sys_bind (logged kern) fd a n (k, log) = (int_of_rax r, k', log @
      [([RAX \<mapsto> Arg_int NR_bind, RDI \<mapsto> Arg_int fd, RSI \<mapsto> Arg_ptr (Some a), RDX \<mapsto> Arg_uint n], r, obj)])"
  by (cases "kern [RAX \<mapsto> Arg_int NR_bind, RDI \<mapsto> Arg_int fd, RSI \<mapsto> Arg_ptr (Some a), RDX \<mapsto> Arg_uint n] k")
    (simp add: sys_bind_def c_result_int_def syscall_3_def logged_call)

lemma logged_open:
  obtains r obj k' where "sys_open (logged kern) path fl (k, log) = (int_of_rax r, k', log @
      [([RAX \<mapsto> Arg_int NR_open, RDI \<mapsto> Arg_ptr (Some (Obj_bytes (path @ [NUL]))), RSI \<mapsto> Arg_int fl], r, obj)])"
  by (cases "kern [RAX \<mapsto> Arg_int NR_open, RDI \<mapsto> Arg_ptr (Some (Obj_bytes (path @ [NUL]))), RSI \<mapsto> Arg_int fl] k")
    (simp add: sys_open_def c_result_int_def syscall_2_def logged_call)

lemma logged_listen:
  obtains r obj k' where "sys_listen (logged kern) fd n (k, log) = (int_of_rax r, k', log @
      [([RAX \<mapsto> Arg_int NR_listen, RDI \<mapsto> Arg_int fd, RSI \<mapsto> Arg_int n], r, obj)])"
  by (cases "kern [RAX \<mapsto> Arg_int NR_listen, RDI \<mapsto> Arg_int fd, RSI \<mapsto> Arg_int n] k")
    (simp add: sys_listen_def c_result_int_def syscall_2_def logged_call)

lemma logged_cleanup:
  obtains r obj k' where "cleanup_socket (logged kern) fd (k, log) = (- 1, k', log @
      [([RAX \<mapsto> Arg_int NR_close, RDI \<mapsto> Arg_int fd], r, obj)])"
  by (cases "kern [RAX \<mapsto> Arg_int NR_close, RDI \<mapsto> Arg_int fd] k")
    (simp add: cleanup_socket_def sys_close_def c_result_int_def syscall_1_def logged_call)

lemma logged_somaxconn:
  obtains n k' tail where "get_somaxconn (logged kern) pf (k, log) = (n, k', log @ tail)"
    and "opened NR_socket tail = {}" and "open_fds tail fds = fds \<union> opened NR_open tail"
    and "n \<noteq> 0 \<Longrightarrow> \<exists>f. opened NR_open tail = {f}"
proof (cases pf)
  case None
  then show ?thesis using that [of 0 k "[]"] by (simp add: get_somaxconn_def fopen_r_def)
next
  case (Some s)
  let ?path = "''/proc/sys/net/core/somaxconn''"
  obtain r obj k' where o: "sys_open (logged kern) ?path 0 (k, log) = (int_of_rax r, k', log @
      [([RAX \<mapsto> Arg_int NR_open, RDI \<mapsto> Arg_ptr (Some (Obj_bytes (?path @ [NUL]))), RSI \<mapsto> Arg_int 0], r, obj)])"
    (is "_ = (_, _, log @ ?tail)") by (rule logged_open)
  define n where "n = (if int_of_rax r < 0 then 0 else case snd (scan_lu s) of Some v \<Rightarrow> v | None \<Rightarrow> 0)"
  have "get_somaxconn (logged kern) pf (k, log) = (n, k', log @ ?tail)"
    using Some o by (auto simp: get_somaxconn_def fopen_r_def n_def Let_def split: option.splits)
  then show ?thesis by (rule that) (auto simp: NR_defs n_def split: if_splits)
qed

text \<open>
  What \<open>create_listening_socket\<close> leaves open, in terms of the calls it adds to the log.
\<close>

definition leaves_open :: "int \<Rightarrow> syslog \<Rightarrow> bool" where
  "leaves_open fd calls \<longleftrightarrow>
     (if 0 \<le> fd then opened NR_socket calls = {fd} \<and> (\<exists>f. opened NR_open calls = {f} \<and> open_fds calls {} = {fd, f})
      else fd = - 1 \<and> open_fds calls {} = opened NR_open calls - opened NR_socket calls)"

lemma listening_socket_log:
  assumes run: "create_listening_socket (logged kern) inet_aton pf addr port (k, l0) = (fd, k', log)"
  obtains calls where "log = l0 @ calls" and "leaves_open fd calls"
proof -
  let ?fl = "SOCK_STREAM OR SOCK_NONBLOCK OR SOCK_CLOEXEC"
  obtain r1 o1 k1 where s: "sys_socket (logged kern) (uint AF_INET) ?fl 0 (k, l0) = (int_of_rax r1, k1, l0 @
      [([RAX \<mapsto> Arg_int NR_socket, RDI \<mapsto> Arg_int (uint AF_INET), RSI \<mapsto> Arg_int ?fl, RDX \<mapsto> Arg_int 0], r1, o1)])"
    (is "_ = (?fd, _, _ @ [?e1])") by (rule logged_socket)
  show thesis
  proof (cases "?fd < 0")
    case True
    with run s that [of "[?e1]"] show thesis by (simp add: create_listening_socket_def leaves_open_def NR_defs)
  next
    case pos: False
    show thesis
    proof (cases "inet_aton addr")
      case None
      obtain rc oc kc where c: "cleanup_socket (logged kern) ?fd (k1, l0 @ [?e1]) = (- 1, kc, (l0 @ [?e1]) @
          [([RAX \<mapsto> Arg_int NR_close, RDI \<mapsto> Arg_int ?fd], rc, oc)])" (is "_ = (_, _, _ @ [?c])") by (rule logged_cleanup)
      with run s pos None that [of "[?e1, ?c]"] show thesis
        by (simp add: create_listening_socket_def leaves_open_def NR_defs)
    next
      case (Some a)
      let ?sa = "Obj_sockaddr_in AF_INET (htons port) a"
      obtain r2 o2 k2 where b: "sys_bind (logged kern) ?fd ?sa sizeof_sockaddr_in (k1, l0 @ [?e1])
          = (int_of_rax r2, k2, (l0 @ [?e1]) @ [([RAX \<mapsto> Arg_int NR_bind, RDI \<mapsto> Arg_int ?fd,
              RSI \<mapsto> Arg_ptr (Some ?sa), RDX \<mapsto> Arg_uint sizeof_sockaddr_in], r2, o2)])"
        (is "_ = (_, _, _ @ [?e2])") by (rule logged_bind)
      let ?t2 = "[?e1, ?e2]"
      obtain n k3 t3 where g: "get_somaxconn (logged kern) pf (k2, l0 @ ?t2) = (n, k3, (l0 @ ?t2) @ t3)"
        and t3: "opened NR_socket t3 = {}" "open_fds t3 {?fd} = {?fd} \<union> opened NR_open t3"
          "n \<noteq> 0 \<Longrightarrow> \<exists>f. opened NR_open t3 = {f}"
        by (rule logged_somaxconn [where fds = "{?fd}"]) blast
      let ?n = "to_int (uint n)"
      obtain r4 o4 k4 where l: "sys_listen (logged kern) ?fd ?n (k3, l0 @ ?t2 @ t3)
          = (int_of_rax r4, k4, (l0 @ ?t2 @ t3) @ [([RAX \<mapsto> Arg_int NR_listen, RDI \<mapsto> Arg_int ?fd, RSI \<mapsto> Arg_int ?n], r4, o4)])"
        (is "_ = (_, _, _ @ [?e4])") by (rule logged_listen)
      have clean: "\<exists>rc oc kc. cleanup_socket (logged kern) ?fd (kk, l0 @ t) = (- 1, kc, (l0 @ t) @
          [([RAX \<mapsto> Arg_int NR_close, RDI \<mapsto> Arg_int ?fd], rc, oc)])" for kk t
        by (rule logged_cleanup [of kern ?fd kk "l0 @ t"]) blast
      consider "int_of_rax r2 = - 1" | "int_of_rax r2 \<noteq> - 1" "?n = 0" | "int_of_rax r2 \<noteq> - 1" "?n \<noteq> 0" "int_of_rax r4 = - 1"
        | "int_of_rax r2 \<noteq> - 1" "?n \<noteq> 0" "int_of_rax r4 \<noteq> - 1" by blast
      then show thesis
      proof cases
        case 1
        with clean [of k2 ?t2] run s pos Some b show thesis
          by (auto simp: create_listening_socket_def leaves_open_def NR_defs intro!: that)
      next
        case 2
        with clean [of k3 "?t2 @ t3"] run s pos Some b g t3(1,2) show thesis
          by (auto simp: create_listening_socket_def leaves_open_def NR_defs Let_def intro!: that)
      next
        case 3
        with clean [of k4 "?t2 @ t3 @ [?e4]"] run s pos Some b g l t3(1,2) show thesis
          by (auto simp: create_listening_socket_def leaves_open_def NR_defs Let_def intro!: that)
      next
        case 4
        have "n \<noteq> 0" using 4(2) by (auto simp: to_int_def)
        then obtain f where "opened NR_open t3 = {f}" using t3(3) by blast
        with 4 run s pos Some b g l t3(1,2) that [of "?t2 @ t3 @ [?e4]"] show thesis
          by (auto simp: create_listening_socket_def leaves_open_def NR_defs Let_def)
      qed
    qed
  qed
qed

section \<open>Properties\<close>

text \<open>
  C23. What \<open>create_listening_socket\<close> leaves open, for a kernel that opens the proc file on a
  descriptor other than the socket's: on an error (\<open>-1\<close>) the socket is closed, and only the
  descriptor of the proc file is left open, if it was opened; on success the socket is
  open, and so is a second descriptor, which \<open>get_somaxconn\<close> opened and nothing closes.
\<close>

theorem listening_socket_fds:
  assumes "create_listening_socket (logged kern) inet_aton pf addr port (k, []) = (fd, k', log)"
    and "opened NR_open log \<inter> opened NR_socket log = {}"
  shows "(fd = - 1 \<and> open_fds log {} = opened NR_open log)
     \<or> (0 \<le> fd \<and> opened NR_socket log = {fd}
        \<and> (\<exists>f. opened NR_open log = {f} \<and> f \<noteq> fd \<and> open_fds log {} = {fd, f}))"
proof -
  obtain calls where "log = [] @ calls" "leaves_open fd calls" by (rule listening_socket_log [OF assms(1)])
  then have l: "leaves_open fd log" by simp
  show ?thesis
  proof (cases "0 \<le> fd")
    case True
    with l obtain f where "opened NR_socket log = {fd}" "opened NR_open log = {f}" "open_fds log {} = {fd, f}"
      by (auto simp: leaves_open_def)
    with assms(2) True show ?thesis by auto
  next
    case False
    with l have "fd = - 1" "open_fds log {} = opened NR_open log - opened NR_socket log" by (auto simp: leaves_open_def)
    with assms(2) show ?thesis by blast
  qed
qed

text \<open>A kernel that opens the socket as 5 and the file as 6, and whose \<open>listen\<close> returns \<open>l\<close>.\<close>

definition five_six_kernel :: "u64 \<Rightarrow> unit kernel" where
  "five_six_kernel l = (\<lambda>regs k. (case regs RAX of Some (Arg_int n) \<Rightarrow>
     if n = 41 then 5 else if n = 2 then 6 else if n = 50 then l else 0 | _ \<Rightarrow> 0, None, k))"

theorem listening_socket_fds_witness:
  "\<exists>log1 log2. create_listening_socket (logged (five_six_kernel 0)) (\<lambda>_. Some 0) (Some ''4096'') ''0.0.0.0'' 8080 ((), [])
       = (5, (), log1) \<and> open_fds log1 {} = {5, 6}
     \<and> create_listening_socket (logged (five_six_kernel (- 1))) (\<lambda>_. Some 0) (Some ''4096'') ''0.0.0.0'' 8080 ((), [])
       = (- 1, (), log2) \<and> open_fds log2 {} = {6}"
proof -
  have sc: "scan_lu ''4096'' = (1, Some 4096)"
    by (simp add: scan_lu_def number_def digit_value_def is_digit_def is_space_def of_char_def)
  note ev = create_listening_socket_def cleanup_socket_def get_somaxconn_def fopen_r_def sc logged_def five_six_kernel_def
    sys_socket_def sys_bind_def sys_listen_def sys_open_def sys_close_def syscall_defs NR_defs c_result_int_def int_of_rax_eq
    to_int_def
  obtain log1 where l1: "create_listening_socket (logged (five_six_kernel 0)) (\<lambda>_. Some 0) (Some ''4096'') ''0.0.0.0'' 8080 ((), [])
       = (5, (), log1)" and o1: "opened NR_open log1 = {6}" "opened NR_socket log1 = {5}"
    by (simp add: ev)
  obtain log2 where l2: "create_listening_socket (logged (five_six_kernel (- 1))) (\<lambda>_. Some 0) (Some ''4096'') ''0.0.0.0'' 8080 ((), [])
       = (- 1, (), log2)" and o2: "opened NR_open log2 = {6}" "opened NR_socket log2 = {5}"
    by (simp add: ev)
  from listening_socket_fds [OF l1] listening_socket_fds [OF l2] o1 o2 l1 l2 show ?thesis by auto
qed

text \<open>
  C36. Once the socket is open and the address parsed, with a kernel whose results are those
  documented (\<open>-errno\<close>), the socket is returned as listening exactly if neither \<open>bind\<close> nor
  \<open>listen\<close> fails with \<open>EPERM\<close> (errno 1) and the backlog, the file's value converted to
  \<open>int\<close>, is not 0. Every other error, such as \<open>EADDRINUSE\<close> (\<open>-98\<close>) from \<open>bind\<close>, goes
  unnoticed.
\<close>

theorem listening_socket_errors:
  assumes "abi_kernel kern" and "kern [RAX \<mapsto> Arg_int 41, RDI \<mapsto> Arg_int 2, RSI \<mapsto> Arg_int 0x80801, RDX \<mapsto> Arg_int 0] k = (rs, os, k1)"
    and "0 \<le> sint rs" and "inet_aton addr = Some a"
    and "kern [RAX \<mapsto> Arg_int 49, RDI \<mapsto> Arg_int (sint rs), RSI \<mapsto> Arg_ptr (Some (Obj_sockaddr_in 2 (htons port) a)),
           RDX \<mapsto> Arg_uint 16] k1 = (rb, ob, k2)"
    and "get_somaxconn kern pf k2 = (v, k3)" and "n = to_int (uint v)"
    and "kern [RAX \<mapsto> Arg_int 50, RDI \<mapsto> Arg_int (sint rs), RSI \<mapsto> Arg_int n] k3 = (rl, ol, k4)"
  shows "fst (create_listening_socket kern inet_aton pf addr port k)
    = (if rb = - 1 \<or> n = 0 \<or> rl = - 1 then - 1 else sint rs)"
proof -
  have abi: "int_of_rax (fst (kern regs k)) = sint (fst (kern regs k))" for regs k
    using assms(1) by (rule abi_result)
  have fl: "SOCK_STREAM OR SOCK_NONBLOCK OR SOCK_CLOEXEC = 0x80801"
    by (simp add: SOCK_STREAM_def SOCK_NONBLOCK_def SOCK_CLOEXEC_def)
  have r: "int_of_rax rs = sint rs" "int_of_rax rb = sint rb" "int_of_rax rl = sint rl"
    using abi assms(2,5,8) by (metis fst_conv)+
  have m1: "sint w = - 1 \<longleftrightarrow> w = - 1" for w :: u64
    using signed_word_eqI [of w "- 1"] by auto
  have "int_of_rax (- 1) = - 1" by (simp add: int_of_rax_eq)
  with assms(2-8) r show ?thesis
    by (simp add: create_listening_socket_def sys_socket_def sys_bind_def sys_listen_def syscall_defs NR_defs
        AF_INET_def fl sizeof_sockaddr_in_def c_result_int_def Let_def cleanup_socket_def m1)
qed

text \<open>A kernel where the address is in use.\<close>

definition in_use_kernel :: "unit kernel" where
  "in_use_kernel = (\<lambda>regs k. (case regs RAX of Some (Arg_int n) \<Rightarrow>
     if n = 41 then 5 else if n = 49 then - 98 else if n = 2 then 6 else 0 | _ \<Rightarrow> 0, None, k))"

theorem listening_socket_errors_witness:
  "fst (create_listening_socket in_use_kernel (\<lambda>_. Some 0) (Some ''4096'') ''0.0.0.0'' 8080 ()) = 5"
proof -
  have "abi_kernel in_use_kernel"
    by (auto simp: abi_kernel_def in_use_kernel_def kernel_result_def split: option.splits sysarg.splits)
  moreover have "get_somaxconn in_use_kernel (Some ''4096'') () = (4096, ())"
    by (simp add: get_somaxconn_def fopen_r_def scan_lu_def number_def digit_value_def is_digit_def is_space_def of_char_def
        sys_open_def syscall_defs NR_defs in_use_kernel_def c_result_int_def int_of_rax_def)
  ultimately show ?thesis
    using listening_socket_errors [of in_use_kernel "()" 5 None "()" "\<lambda>_. Some 0" "''0.0.0.0''" 0 8080 "- 98" None "()"
        "Some ''4096''" 4096 "()" 4096 0 None "()"]
    by (simp add: in_use_kernel_def to_int_def)
qed

end
