(* ===== verification/Server.thy ===== *)
theory Server
  imports Socket
begin

text \<open>
  Creation of the server (\<open>lib/server.c\<close>): the limit on descriptors, the allocation of the
  \<open>struct server_info\<close> with one \<open>struct server_connection\<close> per descriptor, the listening
  socket and, with \<open>WATCH_STATIC_FILES\<close> (\<open>watch\<close>), the pipe. \<open>malloc\<close> is the parameter that
  says which sizes are granted. A server that is created is described by the size of its
  object and its descriptors; its bytes are zero otherwise.
\<close>

section \<open>Model\<close>

definition RLIMIT_NOFILE :: int where "RLIMIT_NOFILE = 7"
definition O_CLOEXEC :: int where "O_CLOEXEC = 0x80000"
definition O_NONBLOCK :: int where "O_NONBLOCK = 0x800"

text \<open>The soft limit is raised to the hard limit, which is returned as an \<open>int64_t\<close>.\<close>

definition get_nofile_limit :: "'k kernel \<Rightarrow> 'k \<Rightarrow> (int \<times> 'k) option" where
  "get_nofile_limit kern k =
     (let (r, obj, k) = sys_getrlimit kern RLIMIT_NOFILE (Obj_rlimit 0 0) k
      in if r < 0 then Some (- 1, k)
         else case obj of
           Some (Obj_rlimit cur hard) \<Rightarrow>
             let (r, k) = sys_setrlimit kern RLIMIT_NOFILE (Obj_rlimit hard hard) k
             in if r < 0 then Some (- 1, k) else Some (sint hard, k)
         | _ \<Rightarrow> None)"

record server_info =
  si_size :: u64
  si_listen_fd :: int
  si_pipefds :: "int \<times> int"

definition sizeof_server_info :: "bool \<Rightarrow> u64" where
  "sizeof_server_info watch = (if watch then 24 else 16)"

definition sizeof_server_connection :: u64 where
  "sizeof_server_connection = 40"

text \<open>\<open>svr_len\<close>, in \<open>size_t\<close> arithmetic, and the offset of \<open>conns[i]\<close>.\<close>

definition svr_len :: "bool \<Rightarrow> int \<Rightarrow> u64" where
  "svr_len watch nfds = sizeof_server_info watch + sizeof_server_connection * to_size_t nfds"

definition conn_offset :: "bool \<Rightarrow> nat \<Rightarrow> nat" where
  "conn_offset watch i = unat (sizeof_server_info watch) + unat sizeof_server_connection * i"

definition create_server ::
  "bool \<Rightarrow> 'k kernel \<Rightarrow> (string \<Rightarrow> u32 option) \<Rightarrow> string option \<Rightarrow> (u64 \<Rightarrow> bool) \<Rightarrow> string \<Rightarrow> u16 \<Rightarrow> 'k
     \<Rightarrow> (server_info option \<times> 'k) option"
where
  "create_server watch kern inet_aton proc_file malloc addr port k =
     do {
       (nfds, k) \<leftarrow> get_nofile_limit kern k;
       if nfds < 0 then Some (None, k)
       else if \<not> malloc (svr_len watch nfds) then Some (None, k)
       else
         let (fd, k) = create_listening_socket kern inet_aton proc_file addr port k;
             svr = \<lparr>si_size = svr_len watch nfds, si_listen_fd = fd, si_pipefds = (0, 0)\<rparr>
         in if fd < 0 then Some (None, k)
            else if watch then
              let (r, obj, k) = sys_pipe2 kern (Obj_fds 0 0) (O_CLOEXEC OR O_NONBLOCK) k
              in if r < 0 then Some (None, k)
                 else Some (Some (case obj of Some (Obj_fds a b) \<Rightarrow> svr\<lparr>si_pipefds := (a, b)\<rparr> | _ \<Rightarrow> svr), k)
            else Some (Some svr, k)
     }"

section \<open>Facts\<close>

lemma nofile_opens_nothing:
  assumes "get_nofile_limit (logged kern) (k, log) = Some (n, k', log')"
  shows "open_fds log' fds = open_fds log fds"
  using assms
  by (auto simp: get_nofile_limit_def sys_getrlimit_def sys_setrlimit_def c_result_def c_result_int_def syscall_2_def
      logged_def RLIMIT_NOFILE_def NR_defs split: prod.splits if_splits option.splits cobj.splits)

lemma logged_pipe2:
  assumes "kern [RAX \<mapsto> Arg_int NR_pipe2, RDI \<mapsto> Arg_ptr (Some fds), RSI \<mapsto> Arg_int fl] k = (r, obj, k')"
  shows "sys_pipe2 (logged kern) fds fl (k, log) = (int_of_rax r, obj, k', log @
     [([RAX \<mapsto> Arg_int NR_pipe2, RDI \<mapsto> Arg_ptr (Some fds), RSI \<mapsto> Arg_int fl], r, obj)])"
  using assms by (simp add: sys_pipe2_def c_result_def syscall_2_def logged_def)

lemma sint_nonneg:
  assumes "0 \<le> sint (w :: u64)"
  shows "sint w = int (unat w)" and "unat w < 2 ^ 63"
proof -
  have b: "sint w < 2 ^ 63" using sint_lt [of w] by simp
  with assms have "uint w = sint w" by (simp add: uint_sint take_bit_int_eq_self)
  then show "sint w = int (unat w)" "unat w < 2 ^ 63" using b assms by (simp_all add: unat_eq_nat_uint)
qed

lemma svr_len_room:
  assumes "unat n < 2 ^ 58" and "fd < unat (n :: u64)"
  shows "conn_offset watch fd + unat sizeof_server_connection \<le> unat (svr_len watch (int (unat n)))"
proof -
  have "to_size_t (int (unat n)) = n" by (simp add: to_size_t_def)
  moreover have "unat (w + 40 * n) = unat w + 40 * unat n" if "unat w \<le> 24" for w
    using assms(1) that by (simp add: unat_word_ariths)
  ultimately show ?thesis using assms(2)
    by (simp add: svr_len_def conn_offset_def sizeof_server_info_def sizeof_server_connection_def)
qed

section \<open>Properties\<close>

text \<open>
  A server is created only if the hard limit on descriptors is at most
  \<open>INT64_MAX\<close>, and for a limit below \<open>2 ^ 58\<close> (Linux keeps it below \<open>2 ^ 31\<close>) the object
  has room for \<open>conns[fd]\<close> for every descriptor below the limit: the size computed in
  \<open>size_t\<close> does not wrap.
\<close>

theorem create_server_room:
  assumes "create_server watch kern inet_aton pf malloc addr port k = Some (Some svr, k')"
    and "sys_getrlimit kern RLIMIT_NOFILE (Obj_rlimit 0 0) k = (r, Some (Obj_rlimit cur hard), k1)"
  shows "unat hard < 2 ^ 63
     \<and> (unat hard < 2 ^ 58 \<longrightarrow> (\<forall>fd < unat hard. conn_offset watch fd + unat sizeof_server_connection \<le> unat (si_size svr)))"
proof -
  have nf: "get_nofile_limit kern k \<in> {Some (- 1, k2), Some (sint hard, k2)}"
    if "k2 = (if r < 0 then k1 else snd (sys_setrlimit kern RLIMIT_NOFILE (Obj_rlimit hard hard) k1))" for k2
    using assms(2) that by (auto simp: get_nofile_limit_def split: prod.splits)
  then have size: "si_size svr = svr_len watch (sint hard)" and pos: "0 \<le> sint hard"
    using assms(1)
    by (auto simp: create_server_def Let_def split: prod.splits if_splits option.splits cobj.splits)
  have "conn_offset watch fd + unat sizeof_server_connection \<le> unat (si_size svr)"
    if "unat hard < 2 ^ 58" "fd < unat hard" for fd
    unfolding size sint_nonneg(1) [OF pos] using that by (rule svr_len_room)
  with sint_nonneg(2) [OF pos] show ?thesis by blast
qed

text \<open>A kernel with a limit of 4096 descriptors whose \<open>pipe2\<close> returns \<open>p\<close>.\<close>

definition small_kernel :: "u64 \<Rightarrow> unit kernel" where
  "small_kernel p = (\<lambda>regs k. case regs RAX of
     Some (Arg_int n) \<Rightarrow>
       if n = 97 then (0, Some (Obj_rlimit 1024 4096), k)
       else if n = 41 then (5, None, k)
       else if n = 2 then (8, None, k)
       else if n = 293 then (p, Some (Obj_fds 6 7), k)
       else (0, None, k)
   | _ \<Rightarrow> (0, None, k))"

lemmas small_defs = small_kernel_def logged_def create_listening_socket_def get_nofile_limit_def RLIMIT_NOFILE_def
  sys_getrlimit_def sys_setrlimit_def sys_socket_def sys_bind_def sys_listen_def sys_open_def sys_pipe2_def syscall_defs NR_defs
  c_result_def c_result_int_def int_of_rax_eq to_int_def

lemma somaxconn_8:
  assumes "sys_open kern ''/proc/sys/net/core/somaxconn'' 0 k = (fd, k')" and "0 \<le> fd"
  shows "get_somaxconn kern (Some ''8'') k = (8, k')"
proof -
  have "scan_lu ''8'' = (1, Some 8)"
    by (simp add: scan_lu_def number_def digit_value_def is_digit_def is_space_def of_char_def)
  with assms show ?thesis by (simp add: get_somaxconn_def fopen_r_def)
qed

theorem create_server_room_witness:
  "\<exists>svr. create_server True (small_kernel 0) (\<lambda>_. Some 0) (Some ''8'') (\<lambda>n. True) ''0.0.0.0'' 8080 () = Some (Some svr, ())
     \<and> conn_offset True 4095 + 40 \<le> unat (si_size svr)"
proof -
  obtain svr where svr: "create_server True (small_kernel 0) (\<lambda>_. Some 0) (Some ''8'') (\<lambda>n. True) ''0.0.0.0'' 8080 () = Some (Some svr, ())"
    by (simp add: create_server_def small_defs somaxconn_8)
  from create_server_room [OF this, of 0 1024 4096 "()"] svr show ?thesis
    by (simp add: small_defs sizeof_server_connection_def)
qed

text \<open>
  When the pipe of a \<open>WATCH_STATIC_FILES\<close> build cannot be created, \<open>create_server\<close>
  returns NULL with the listening socket it has just opened still open, beside the
  descriptor of the proc file: the only reference to the socket is in the freed object.
\<close>

theorem create_server_leaks_socket:
  assumes "get_nofile_limit (logged kern) (k, []) = Some (nfds, k1, log1)" and "0 \<le> nfds"
    and "malloc (svr_len True nfds)"
    and "create_listening_socket (logged kern) inet_aton pf addr port (k1, log1) = (fd, k2, log2)" and "0 \<le> fd"
    and "kern [RAX \<mapsto> Arg_int 293, RDI \<mapsto> Arg_ptr (Some (Obj_fds 0 0)), RSI \<mapsto> Arg_int 0x80800] k2 = (r, obj, k3)"
    and "int_of_rax r < 0"
  shows "\<exists>log3. create_server True (logged kern) inet_aton pf malloc addr port (k, []) = Some (None, k3, log3)
     \<and> (\<exists>f. open_fds log3 {} = {fd, f})"
proof -
  have "open_fds log1 {} = {}" using nofile_opens_nothing [OF assms(1)] by simp
  moreover obtain calls where "log2 = log1 @ calls" "leaves_open fd calls" by (rule listening_socket_log [OF assms(4)])
  ultimately obtain f where log2: "open_fds log2 {} = {fd, f}" using assms(5) by (auto simp: leaves_open_def)
  have fl: "O_CLOEXEC OR O_NONBLOCK = 0x80800" by (simp add: O_CLOEXEC_def O_NONBLOCK_def)
  have "sys_pipe2 (logged kern) (Obj_fds 0 0) 0x80800 (k2, log2) = (int_of_rax r, obj, k3, log2 @
     [([RAX \<mapsto> Arg_int NR_pipe2, RDI \<mapsto> Arg_ptr (Some (Obj_fds 0 0)), RSI \<mapsto> Arg_int 0x80800], r, obj)])"
    using assms(6) by (intro logged_pipe2) (simp add: NR_defs)
  with assms(1-5,7) log2 show ?thesis
    by (auto simp: create_server_def fl NR_defs)
qed

theorem create_server_leaks_socket_witness:
  "\<exists>log3. create_server True (logged (small_kernel (- 24))) (\<lambda>_. Some 0) (Some ''8'') (\<lambda>n. True) ''0.0.0.0'' 8080 ((), [])
       = Some (None, (), log3)
     \<and> (\<exists>f. open_fds log3 {} = {5, f})"
proof -
  obtain log1 where l1: "get_nofile_limit (logged (small_kernel (- 24))) ((), []) = Some (4096, (), log1)"
    by (simp add: small_defs)
  obtain log2 where l2: "create_listening_socket (logged (small_kernel (- 24))) (\<lambda>_. Some 0) (Some ''8'') ''0.0.0.0'' 8080 ((), log1)
      = (5, (), log2)"
    by (simp add: small_defs somaxconn_8)
  show ?thesis
    by (rule create_server_leaks_socket [OF l1 _ _ l2, of _ "- 24" "Some (Obj_fds 6 7)"]) (simp_all add: small_defs)
qed

end
