(* ===== verification/Http_Request_Roundtrip.thy ===== *)
theory Http_Request_Roundtrip
  imports Http_Request_Safety
begin

text \<open>
  What the parser computes: a request is written out as the text of an HTTP/1 request, and
  the parser run on that text yields the method, and pointers to exactly the path, the
  protocol, the query pairs and the header pairs (as many as the two tables hold). The
  text after parsing is given in closed form, with the separators overwritten by NUL.
\<close>

section \<open>The text of a request\<close>

text \<open>
  The methods whose table entry has the length of the name. \<open>CONNECT\<close> is not among them:
  its entry says 6, and a later theorem shows what follows.
\<close>

definition method_names :: "(string \<times> int) list" where
  "method_names =
    [(''GET'', METHOD_GET), (''POST'', METHOD_POST), (''PUT'', METHOD_PUT),
     (''DELETE'', METHOD_DELETE), (''PATCH'', METHOD_PATCH), (''HEAD'', METHOD_HEAD),
     (''OPTIONS'', METHOD_OPTIONS), (''TRACE'', METHOD_TRACE)]"

fun query_text :: "(string \<times> string) list \<Rightarrow> string" where
  "query_text [] = []"
| "query_text [(k, v)] = k @ CHR ''='' # v"
| "query_text ((k, v) # e # es) = k @ CHR ''='' # v @ CHR ''&'' # query_text (e # es)"

definition target_text :: "string \<Rightarrow> (string \<times> string) list \<Rightarrow> string" where
  "target_text path qs = path @ (if qs = [] then [] else CHR ''?'' # query_text qs)"

fun header_text :: "string \<times> string \<Rightarrow> string" where
  "header_text (k, v) = k @ CHR '':'' # SP # v @ [CR, LF]"

definition request_text ::
  "string \<Rightarrow> string \<Rightarrow> (string \<times> string) list \<Rightarrow> string \<Rightarrow> (string \<times> string) list \<Rightarrow> string"
where
  "request_text m path qs proto hs =
     m @ SP # target_text path qs @ SP # proto @ CR # LF # concat (map header_text hs) @ [CR, LF]"

section \<open>The text after parsing\<close>

fun query_nul :: "(string \<times> string) list \<Rightarrow> string" where
  "query_nul [] = []"
| "query_nul [(k, v)] = k @ NUL # v"
| "query_nul ((k, v) # e # es) = k @ NUL # v @ NUL # query_nul (e # es)"

fun query_cell :: "string \<times> string \<Rightarrow> string" where
  "query_cell (k, v) = k @ NUL # v @ [NUL]"

fun header_cell :: "string \<times> string \<Rightarrow> string" where
  "header_cell (k, v) = k @ NUL # SP # v @ [NUL, LF]"

fun query_ptrs :: "nat \<Rightarrow> (string \<times> string) list \<Rightarrow> (cptr option \<times> cptr option) list" where
  "query_ptrs i [] = []"
| "query_ptrs i ((k, v) # es) =
     (Some (Buf i), Some (Buf (i + length k + 1))) # query_ptrs (i + length k + length v + 2) es"

fun header_ptrs :: "nat \<Rightarrow> (string \<times> string) list \<Rightarrow> (cptr option \<times> cptr option) list" where
  "header_ptrs i [] = []"
| "header_ptrs i ((k, v) # es) =
     (Some (Buf i), Some (Buf (i + length k + 2))) # header_ptrs (i + length k + length v + 4) es"

abbreviation put_all :: "kv \<Rightarrow> (cptr option \<times> cptr option) list \<Rightarrow> kv" where
  "put_all t es \<equiv> foldl (\<lambda>t e. snd (kv_put t e)) t es"

text \<open>The strings an entry of a table points to.\<close>

fun entry_strings :: "cbuf \<Rightarrow> cptr option \<times> cptr option \<Rightarrow> (string \<times> string) option" where
  "entry_strings mem (Some k, Some v) =
     (case (deref mem k, deref mem v) of (Some a, Some b) \<Rightarrow> Some (a, b) | _ \<Rightarrow> None)"
| "entry_strings mem _ = None"

definition free_of :: "char list \<Rightarrow> string \<Rightarrow> bool" where
  "free_of cs s \<longleftrightarrow> NUL \<notin> set s \<and> set cs \<inter> set s = {}"

definition query_ok :: "string \<times> string \<Rightarrow> bool" where
  "query_ok e \<longleftrightarrow> free_of ''= '' (fst e) \<and> free_of ''& '' (snd e)"

definition header_ok :: "string \<times> string \<Rightarrow> bool" where
  "header_ok e \<longleftrightarrow> free_of [CR, CHR '':''] (fst e) \<and> free_of [CR] (snd e)
     \<and> 3 \<le> length (fst e) + length (snd e)"

section \<open>Splitting buffers\<close>

lemma poke_at: "i = length xs \<Longrightarrow> poke (xs @ c # ys) i d = Some (xs @ d # ys)"
  by (simp add: poke_def)

lemma query_nul_cells: "qs \<noteq> [] \<Longrightarrow> query_nul qs @ [NUL] = concat (map query_cell qs)"
  by (induction qs rule: query_nul.induct) auto

lemma length_query_nul [simp]: "length (query_nul qs) = length (query_text qs)"
  by (induction qs rule: query_nul.induct) auto

lemma query_ptrs_read:
  assumes "\<forall>e \<in> set qs. query_ok e"
  shows "map (entry_strings (pre @ concat (map query_cell qs) @ post)) (query_ptrs (length pre) qs)
     = map Some qs"
  using assms
proof (induction qs arbitrary: pre)
  case Nil
  then show ?case by simp
next
  case (Cons e qs)
  obtain k v where e: "e = (k, v)" by (cases e)
  then have kv: "NUL \<notin> set k" "NUL \<notin> set v"
    using Cons.prems by (auto simp: query_ok_def free_of_def)
  let ?rest = "concat (map query_cell qs) @ post"
  have "cstr (pre @ k @ NUL # v @ NUL # ?rest) (length pre) = Some k"
    using kv by (intro cstr_at) auto
  moreover have "cstr ((pre @ k @ [NUL]) @ v @ NUL # ?rest) (length pre + length k + 1) = Some v"
    using kv by (intro cstr_at) auto
  moreover have "map (entry_strings (pre @ query_cell e @ ?rest)) (query_ptrs (length pre + length k + length v + 2) qs)
      = map Some qs"
    using Cons.IH [of "pre @ query_cell e"] Cons.prems by (simp add: e numeral_eq_Suc add.assoc)
  ultimately show ?case by (simp add: e)
qed

lemma header_ptrs_read:
  assumes "\<forall>e \<in> set hs. header_ok e"
  shows "map (entry_strings (pre @ concat (map header_cell hs) @ post)) (header_ptrs (length pre) hs)
     = map Some hs"
  using assms
proof (induction hs arbitrary: pre)
  case Nil
  then show ?case by simp
next
  case (Cons e hs)
  obtain k v where e: "e = (k, v)" by (cases e)
  then have kv: "NUL \<notin> set k" "NUL \<notin> set v"
    using Cons.prems by (auto simp: header_ok_def free_of_def)
  let ?rest = "concat (map header_cell hs) @ post"
  have "cstr (pre @ k @ NUL # SP # v @ NUL # LF # ?rest) (length pre) = Some k"
    using kv by (intro cstr_at) auto
  moreover have "cstr ((pre @ k @ [NUL, SP]) @ v @ NUL # LF # ?rest) (length pre + length k + 2) = Some v"
    using kv by (intro cstr_at) auto
  moreover have "map (entry_strings (pre @ header_cell e @ ?rest)) (header_ptrs (length pre + length k + length v + 4) hs)
      = map Some hs"
    using Cons.IH [of "pre @ header_cell e"] Cons.prems by (simp add: e numeral_eq_Suc add.assoc)
  ultimately show ?case by (simp add: e)
qed

section \<open>The query loop\<close>

lemma strchr_beyond:
  assumes "NUL \<in> set post" and "i = length pre" and "c \<notin> set xs" and "c \<noteq> NUL"
  shows "\<exists>r. strchr (pre @ xs @ post) i c = Some r \<and> (\<forall>j. r = Some j \<longrightarrow> i + length xs \<le> j)"
proof -
  let ?m = "pre @ xs @ post"
  obtain k where "k < length post" "post ! k = NUL" using assms(1) by (auto simp: in_set_conv_nth)
  then have "strchr ?m i c \<noteq> None"
    using assms(2) strchr_defined [of i "length pre + length xs + k" ?m c] by (simp add: nth_append)
  then obtain r where r: "strchr ?m i c = Some r" by blast
  have "i + length xs \<le> j" if "r = Some j" for j
  proof (rule ccontr)
    assume "\<not> i + length xs \<le> j"
    moreover have "i \<le> j" "?m ! j = c" using strchr_found [of ?m i c j] r that by auto
    ultimately have "xs ! (j - i) = c" "j - i < length xs"
      using assms(2) by (auto simp: nth_append)
    with assms(3) show False by (metis nth_mem)
  qed
  with r show ?thesis by blast
qed

lemma query_body_last:
  assumes "query_ok (k, v)" and "kv_provided (rq_query req)" and "NUL \<in> set post"
    and "i = length pre" and "e = i + length k + 1 + length v"
  shows "query_body env req (pre @ k @ CHR ''='' # v @ SP # post) i e =
     Some (req\<lparr>rq_query := snd (kv_put (rq_query req) (Some (Buf i), Some (Buf (i + length k + 1))))\<rparr>,
           pre @ k @ NUL # v @ SP # post, None)"
proof -
  let ?m = "pre @ k @ CHR ''='' # v @ SP # post" and ?m1 = "pre @ k @ NUL # v @ SP # post"
  have 1: "strchr ?m i CHR ''='' = Some (Some (i + length k))"
    using assms by (intro strchr_hit) (auto simp: query_ok_def free_of_def)
  have 2: "poke ?m (i + length k) NUL = Some ?m1"
    using poke_at [of "i + length k" "pre @ k"] assms(4) by simp
  obtain r where 3: "strchr ?m1 (i + length k + 1) CHR ''&'' = Some r" "\<And>j. r = Some j \<Longrightarrow> e \<le> j"
    using strchr_beyond [of "SP # post" "i + length k + 1" "pre @ k @ [NUL]" "CHR ''&''" v] assms
    by (auto simp: query_ok_def free_of_def)
  show ?thesis
    using 1 2 3 assms(2,5) by (cases r) (auto simp: query_body_def table_set_provided)
qed

lemma query_body_more:
  assumes "query_ok (k, v)" and "kv_provided (rq_query req)"
    and "i = length pre" and "i + length k + length v + 2 \<le> e"
  shows "query_body env req (pre @ k @ CHR ''='' # v @ CHR ''&'' # post) i e =
     Some (req\<lparr>rq_query := snd (kv_put (rq_query req) (Some (Buf i), Some (Buf (i + length k + 1))))\<rparr>,
           pre @ k @ NUL # v @ NUL # post, Some (i + length k + length v + 2))"
proof -
  let ?m = "pre @ k @ CHR ''='' # v @ CHR ''&'' # post" and ?m1 = "pre @ k @ NUL # v @ CHR ''&'' # post"
  have 1: "strchr ?m i CHR ''='' = Some (Some (i + length k))"
    using assms by (intro strchr_hit) (auto simp: query_ok_def free_of_def)
  have 2: "poke ?m (i + length k) NUL = Some ?m1"
    using poke_at [of "i + length k" "pre @ k"] assms(3) by simp
  have 3: "strchr ?m1 (i + length k + 1) CHR ''&'' = Some (Some (i + length k + 1 + length v))"
    using strchr_hit [of "CHR ''&''" v "i + length k + 1" "pre @ k @ [NUL]" post] assms
    by (auto simp: query_ok_def free_of_def)
  have 4: "poke ?m1 (i + length k + 1 + length v) NUL = Some (pre @ k @ NUL # v @ NUL # post)"
    using poke_at [of "i + length k + 1 + length v" "pre @ k @ NUL # v"] assms(3) by simp
  show ?thesis
    using 1 2 3 4 assms(2,4) by (simp add: query_body_def table_set_provided)
qed

lemma parse_query_text:
  assumes "qs \<noteq> []" and "\<forall>e \<in> set qs. query_ok e" and "kv_provided (rq_query req)"
    and "NUL \<in> set post" and "i = length pre"
  shows "parse_query env req (pre @ query_text qs @ SP # post) i (i + length (query_text qs)) =
     Some (req\<lparr>rq_query := put_all (rq_query req) (query_ptrs i qs)\<rparr>, pre @ query_nul qs @ SP # post)"
  using assms
proof (induction qs arbitrary: req pre i rule: query_text.induct)
  case 1
  then show ?case by simp
next
  case (2 k v)
  with query_body_last [of k v req post i pre "i + length k + 1 + length v" env] show ?case
    by (subst parse_query.simps) (simp add: add.assoc)
next
  case (3 k v e es)
  let ?t = "query_text (e # es)" and ?pre = "pre @ k @ NUL # v @ [NUL]"
  let ?req = "req\<lparr>rq_query := snd (kv_put (rq_query req) (Some (Buf i), Some (Buf (i + length k + 1))))\<rparr>"
  have "query_body env req (pre @ k @ CHR ''='' # v @ CHR ''&'' # ?t @ SP # post) i
      (i + length (query_text ((k, v) # e # es)))
      = Some (?req, pre @ k @ NUL # v @ NUL # ?t @ SP # post, Some (i + length k + length v + 2))"
    using "3.prems" by (intro query_body_more) auto
  moreover have "parse_query env ?req (?pre @ ?t @ SP # post) (length ?pre) (length ?pre + length ?t)
      = Some (?req\<lparr>rq_query := put_all (rq_query ?req) (query_ptrs (length ?pre) (e # es))\<rparr>,
              ?pre @ query_nul (e # es) @ SP # post)"
    using "3.prems" provided.put_invar by (intro "3.IH") auto
  ultimately show ?case
    using "3.prems"(5) by (subst parse_query.simps) (simp add: ac_simps)
qed

section \<open>The header loop\<close>

lemma header_body_text:
  assumes "header_ok (k, v)" and "kv_provided (rq_headers req)" and "i = length pre"
    and "length k + length v + 2 < 2 ^ 64"
  shows "header_body env req (pre @ header_text (k, v) @ post) i =
     Some (req\<lparr>rq_headers := snd (kv_put (rq_headers req) (Some (Buf i), Some (Buf (i + length k + 2))))\<rparr>,
           pre @ header_cell (k, v) @ post, i + length k + length v + 4, False)"
proof -
  let ?l = "k @ CHR '':'' # SP # v" and ?e = "i + length k + length v + 2"
  let ?m = "pre @ ?l @ CR # LF # post"
  have kv: "CR \<notin> set k" "CR \<notin> set v" "NUL \<notin> set k" "NUL \<notin> set v" "CHR '':'' \<notin> set k"
    "3 \<le> length k + length v"
    using assms(1) by (auto simp: header_ok_def free_of_def)
  have 1: "strchr ?m i CR = Some (Some ?e)"
    using strchr_hit [of CR ?l i pre "LF # post"] kv assms(3) by (simp add: numeral_eq_Suc)
  have 2: "strchr ?m i CHR '':'' = Some (Some (i + length k))"
    using strchr_hit [of "CHR '':''" k i pre "SP # v @ CR # LF # post"] kv assms(3) by simp
  have 3: "poke ?m (i + length k) NUL = Some (pre @ k @ NUL # SP # v @ CR # LF # post)"
    using poke_at [of "i + length k" "pre @ k"] assms(3) by simp
  have 4: "poke (pre @ k @ NUL # SP # v @ CR # LF # post) ?e NUL
      = Some (pre @ k @ NUL # SP # v @ NUL # LF # post)"
    using poke_at [of ?e "pre @ k @ NUL # SP # v"] assms(3) by simp
  have "\<not> to_size_t (int ?e - int i) < 5"
    using kv(6) assms(4) by (simp add: to_size_t_less_iff)
  with 1 2 3 4 assms(2) have "header_body env req ?m i =
     Some (req\<lparr>rq_headers := snd (kv_put (rq_headers req) (Some (Buf i), Some (Buf (i + length k + 2))))\<rparr>,
           pre @ k @ NUL # SP # v @ NUL # LF # post, ?e + 2, False)"
    by (simp add: header_body_def table_set_provided)
  then show ?thesis by (simp add: numeral_eq_Suc)
qed

lemma parse_headers_text:
  assumes "\<forall>e \<in> set hs. header_ok e" and "kv_provided (rq_headers req)" and "i = length pre"
    and "length (concat (map header_text hs)) < 2 ^ 64"
    and "i + length (concat (map header_text hs)) < n"
  shows "\<exists>s. parse_headers env req (pre @ concat (map header_text hs) @ CR # post) i n =
     Some (req\<lparr>rq_headers := put_all (rq_headers req) (header_ptrs i hs)\<rparr>,
           pre @ concat (map header_cell hs) @ CR # post, s)"
  using assms
proof (induction hs arbitrary: req pre i)
  case Nil
  have "strchr (pre @ CR # post) i CR = Some (Some i)"
    using strchr_hit [of CR "[]" i pre post] Nil.prems(3) by simp
  then have "header_body env req (pre @ CR # post) i = Some (req, pre @ CR # post, i, True)"
    by (simp add: header_body_def to_size_t_def)
  with Nil.prems show ?case by (subst parse_headers.simps) simp
next
  case (Cons e hs)
  obtain k v where e: "e = (k, v)" by (cases e)
  let ?req = "req\<lparr>rq_headers := snd (kv_put (rq_headers req) (Some (Buf i), Some (Buf (i + length k + 2))))\<rparr>"
  let ?rest = "concat (map header_text hs) @ CR # post" and ?pre = "pre @ header_cell e"
  have 1: "header_body env req (pre @ header_text e @ ?rest) i
      = Some (?req, ?pre @ ?rest, i + length k + length v + 4, False)"
    using header_body_text [of k v req i pre env ?rest] Cons.prems by (simp add: e)
  have "i + length k + length v + 4 = length ?pre" using Cons.prems(3) by (simp add: e)
  then have "\<exists>s. parse_headers env ?req (?pre @ ?rest) (i + length k + length v + 4) n =
     Some (?req\<lparr>rq_headers := put_all (rq_headers ?req) (header_ptrs (i + length k + length v + 4) hs)\<rparr>,
           ?pre @ concat (map header_cell hs) @ CR # post, s)"
    using Cons.prems provided.put_invar by (intro Cons.IH) (auto simp: e)
  with 1 Cons.prems(5) show ?case
    by (subst parse_headers.simps) (auto simp: e)
qed

section \<open>Method, path and protocol\<close>

definition method_lookup :: "u32 \<Rightarrow> (int \<times> nat) option" where
  "method_lookup w = map_option (\<lambda>e. (me_mask e, me_length e)) (find_method methods w)"

lemma method_lookup_values:
  "method_lookup (STR_TO_INT32 CHR ''G'' CHR ''E'' CHR ''T'' SP) = Some (METHOD_GET, 3)"
  "method_lookup (STR_TO_INT32 CHR ''P'' CHR ''O'' CHR ''S'' CHR ''T'') = Some (METHOD_POST, 4)"
  "method_lookup (STR_TO_INT32 CHR ''P'' CHR ''U'' CHR ''T'' SP) = Some (METHOD_PUT, 3)"
  "method_lookup (STR_TO_INT32 CHR ''D'' CHR ''E'' CHR ''L'' CHR ''E'') = Some (METHOD_DELETE, 6)"
  "method_lookup (STR_TO_INT32 CHR ''P'' CHR ''A'' CHR ''T'' CHR ''C'') = Some (METHOD_PATCH, 5)"
  "method_lookup (STR_TO_INT32 CHR ''H'' CHR ''E'' CHR ''A'' CHR ''D'') = Some (METHOD_HEAD, 4)"
  "method_lookup (STR_TO_INT32 CHR ''O'' CHR ''P'' CHR ''T'' CHR ''I'') = Some (METHOD_OPTIONS, 7)"
  "method_lookup (STR_TO_INT32 CHR ''T'' CHR ''R'' CHR ''A'' CHR ''C'') = Some (METHOD_TRACE, 5)"
  "method_lookup (STR_TO_INT32 CHR ''C'' CHR ''O'' CHR ''N'' CHR ''N'') = Some (METHOD_CONNECT, 6)"
  by code_simp+

lemma http_parse_method_known:
  assumes "method_lookup (STR_TO_INT32 a b c d) = Some (msk, l)" and "4 \<le> n"
  shows "http_parse_method req (a # b # c # d # post) 0 n = Some (int l, req\<lparr>rq_method := msk\<rparr>, l)"
  using assms
  by (auto simp: method_lookup_def http_parse_method_def str_to_int32_def numeral_eq_Suc)

lemma http_parse_method_text:
  assumes "(m, msk) \<in> set method_names" and "length m + 1 \<le> n"
  shows "http_parse_method req (m @ SP # post) 0 n =
     Some (int (length m), req\<lparr>rq_method := msk\<rparr>, length m)"
  using assms
  by (auto simp: method_names_def http_parse_method_known method_lookup_values)

lemma trim_spaces_text:
  assumes "i = length pre" and "c \<noteq> SP" and "i + 1 < n"
  shows "trim_spaces (pre @ SP # c # post) i n = Some (i + 1)"
  using assms by (simp add: trim_spaces.simps nth_append)

lemma http_parse_path_text:
  assumes path: "free_of [SP, CHR ''?''] path" and slash: "path = CHR ''/'' # rest"
    and qs: "\<forall>e \<in> set qs. query_ok e" and t: "kv_provided (rq_query req)"
    and nul: "NUL \<in> set post" and i: "i = length pre"
    and n: "i + 13 \<le> n" "n < 2 ^ 64"
  shows "\<exists>r. http_parse_path env req (pre @ target_text path qs @ SP # post) i n =
     Some (r, req\<lparr>rq_query := put_all (rq_query req) (query_ptrs (i + length path + 1) qs),
                   rq_path := Some (Buf i)\<rparr>,
           pre @ path @ NUL # concat (map query_cell qs) @ post,
           i + length (target_text path qs) + 1)"
proof -
  let ?m = "pre @ target_text path qs @ SP # post" and ?e = "i + length (target_text path qs)"
  have free: "SP \<notin> set (query_text qs)" "NUL \<notin> set (query_text qs)"
    using qs by (induction qs rule: query_text.induct) (auto simp: query_ok_def free_of_def)
  then have ft: "SP \<notin> set (target_text path qs)" "NUL \<notin> set (target_text path qs)"
    using path by (auto simp: target_text_def free_of_def)
  have chk: "\<not> to_size_t (int n - int i) < 13"
    using n by (simp add: to_size_t_less_iff)
  have 1: "peek ?m i = Some CHR ''/''"
    using slash i by (simp add: peek_def target_text_def)
  have 2: "strchr ?m i SP = Some (Some ?e)" using ft i by (intro strchr_hit)
  show ?thesis
  proof (cases "qs = []")
    case True
    obtain r where r: "strchr ?m i CHR ''?'' = Some r" "\<And>j. r = Some j \<Longrightarrow> ?e \<le> j"
      using strchr_beyond [of "SP # post" i pre "CHR ''?''" path] True nul i path
      by (auto simp: target_text_def free_of_def)
    have "poke ?m ?e NUL = Some (pre @ path @ NUL # post)"
      using poke_at [of ?e "pre @ path"] True i by (simp add: target_text_def)
    with chk 1 2 r True show ?thesis
      by (cases r) (auto simp: http_parse_path_def)
  next
    case False
    let ?q = "i + length path" and ?pre = "pre @ path @ [NUL]"
    have m: "?m = pre @ path @ CHR ''?'' # query_text qs @ SP # post" and e: "?e = ?q + 1 + length (query_text qs)"
      using False by (simp_all add: target_text_def)
    have 3: "strchr ?m i CHR ''?'' = Some (Some ?q)"
      unfolding m using path i by (intro strchr_hit) (auto simp: free_of_def)
    have 4: "poke ?m ?q NUL = Some (?pre @ query_text qs @ SP # post)"
      unfolding m using poke_at [of ?q "pre @ path"] i by simp
    have 5: "parse_query env req (?pre @ query_text qs @ SP # post) (?q + 1) ?e =
        Some (req\<lparr>rq_query := put_all (rq_query req) (query_ptrs (?q + 1) qs)\<rparr>,
              ?pre @ query_nul qs @ SP # post)"
      unfolding e using False qs t nul i by (intro parse_query_text) auto
    have 6: "poke (?pre @ query_nul qs @ SP # post) ?e NUL
        = Some (pre @ path @ NUL # concat (map query_cell qs) @ post)"
      unfolding e using poke_at [of "?q + 1 + length (query_text qs)" "?pre @ query_nul qs" SP post NUL] i
      by (simp add: query_nul_cells [OF False, symmetric])
    from chk 1 2 3 4 5 6 e show ?thesis by (simp add: http_parse_path_def)
  qed
qed

lemma http_parse_protocol_text:
  assumes "free_of [CR] proto" and "take 4 proto = ''HTTP''" and i: "i = length pre"
    and n: "i + 11 \<le> n" "n < 2 ^ 64"
  shows "\<exists>r. http_parse_protocol req (pre @ proto @ CR # LF # post) i n =
     Some (r, req\<lparr>rq_protocol := Some (Buf i)\<rparr>, pre @ proto @ NUL # LF # post, i + length proto + 2)"
proof -
  let ?m = "pre @ proto @ CR # LF # post"
  have chk: "\<not> to_size_t (int n - int i) < 11" using n by (simp add: to_size_t_less_iff)
  have 1: "strchr ?m i CR = Some (Some (i + length proto))"
    using assms(1) i by (intro strchr_hit) (auto simp: free_of_def)
  obtain rest where "proto = ''HTTP'' @ rest" using assms(2) append_take_drop_id by metis
  then have 2: "str_to_int32 ?m i = Some (STR_TO_INT32 CHR ''H'' CHR ''T'' CHR ''T'' CHR ''P'')"
    using i by (simp add: str_to_int32_def nth_append numeral_eq_Suc)
  have 3: "poke ?m (i + length proto) NUL = Some (pre @ proto @ NUL # LF # post)"
    using poke_at [of "i + length proto" "pre @ proto"] i by simp
  from chk 1 2 3 show ?thesis by (simp add: http_parse_protocol_def)
qed

section \<open>The whole request\<close>

definition request_ok ::
  "string \<Rightarrow> (string \<times> string) list \<Rightarrow> string \<Rightarrow> (string \<times> string) list \<Rightarrow> bool"
where
  "request_ok path qs proto hs \<longleftrightarrow>
     free_of [SP, CHR ''?''] path \<and> take 1 path = ''/'' \<and> (\<forall>e \<in> set qs. query_ok e)
     \<and> free_of [CR] proto \<and> take 4 proto = ''HTTP'' \<and> 7 \<le> length proto
     \<and> (\<forall>e \<in> set hs. header_ok e)"

definition parsed_text ::
  "string \<Rightarrow> string \<Rightarrow> (string \<times> string) list \<Rightarrow> string \<Rightarrow> (string \<times> string) list \<Rightarrow> string"
where
  "parsed_text m path qs proto hs =
     m @ SP # path @ NUL # concat (map query_cell qs) @ proto @ NUL # LF # concat (map header_cell hs)
       @ [CR, LF]"

definition parsed_request ::
  "http_request \<Rightarrow> string \<Rightarrow> int \<Rightarrow> string \<Rightarrow> (string \<times> string) list \<Rightarrow> string \<Rightarrow> (string \<times> string) list
     \<Rightarrow> http_request"
where
  "parsed_request req m msk path qs proto hs =
     (let p = length m + 1; q = p + length path + 1; r = q + length (concat (map query_cell qs));
          h = r + length proto + 2
      in req\<lparr>rq_method := msk, rq_query := put_all (rq_query req) (query_ptrs q qs),
             rq_path := Some (Buf p), rq_protocol := Some (Buf r),
             rq_headers := put_all (rq_headers req) (header_ptrs h hs)\<rparr>)"

lemma length_target: "length (target_text path qs) = length path + length (concat (map query_cell qs))"
proof (cases "qs = []")
  case False
  have "length (query_nul qs @ [NUL]) = length (concat (map query_cell qs))"
    by (simp only: query_nul_cells [OF False])
  with False show ?thesis by (simp add: target_text_def)
qed (simp add: target_text_def)

text \<open>From the protocol on: the last two stages on the rest of the text.\<close>

lemma parse_rest_text:
  assumes proto: "free_of [CR] proto" "take 4 proto = ''HTTP''" "7 \<le> length proto"
    and hs: "\<forall>e \<in> set hs. header_ok e" and t: "kv_provided (rq_headers req)"
    and i: "i = length pre" and n: "n = i + length proto + length (concat (map header_text hs)) + 4" "n < 2 ^ 64"
  shows "\<exists>r p r' p'. http_parse_protocol req (pre @ proto @ CR # LF # concat (map header_text hs) @ CR # LF # zs) i n
       = Some (r, req\<lparr>rq_protocol := Some (Buf i)\<rparr>,
               pre @ proto @ NUL # LF # concat (map header_text hs) @ CR # LF # zs, p)
     \<and> http_parse_headers env (req\<lparr>rq_protocol := Some (Buf i)\<rparr>)
         (pre @ proto @ NUL # LF # concat (map header_text hs) @ CR # LF # zs) p n
       = Some (r', req\<lparr>rq_protocol := Some (Buf i),
                        rq_headers := put_all (rq_headers req) (header_ptrs (i + length proto + 2) hs)\<rparr>,
               pre @ proto @ NUL # LF # concat (map header_cell hs) @ CR # LF # zs, p')"
proof -
  let ?ht = "concat (map header_text hs)" and ?h = "i + length proto + 2"
  let ?req = "req\<lparr>rq_protocol := Some (Buf i)\<rparr>" and ?pre = "pre @ proto @ [NUL, LF]"
  have b: "i + 11 \<le> n" "?h = length ?pre" "length ?ht < 2 ^ 64" "?h + length ?ht < n" "kv_provided (rq_headers ?req)"
    using n proto(3) i t by simp_all
  obtain r where 1: "http_parse_protocol req (pre @ proto @ CR # LF # ?ht @ CR # LF # zs) i n
      = Some (r, ?req, pre @ proto @ NUL # LF # ?ht @ CR # LF # zs, ?h)"
    using http_parse_protocol_text [OF proto(1,2) i b(1) n(2), of req "?ht @ CR # LF # zs"] by blast
  obtain s where 2: "parse_headers env ?req (?pre @ ?ht @ CR # LF # zs) ?h n
      = Some (?req\<lparr>rq_headers := put_all (rq_headers ?req) (header_ptrs ?h hs)\<rparr>,
              ?pre @ concat (map header_cell hs) @ CR # LF # zs, s)"
    using parse_headers_text [OF hs b(5,2,3,4), of env "LF # zs"] by blast
  from 1 2 show ?thesis by (simp add: http_parse_headers_def)
qed

lemma http_parse_request_text:
  assumes ok: "request_ok path qs proto hs" and m: "(m, msk) \<in> set method_names"
    and t: "kv_provided (rq_query req)" "kv_provided (rq_headers req)"
    and n: "n = length (request_text m path qs proto hs)" "n < 2 ^ 64"
  shows "http_parse_request env req (request_text m path qs proto hs @ NUL # zs) n =
     Some (1, parsed_request req m msk path qs proto hs, parsed_text m path qs proto hs @ NUL # zs)"
proof -
  obtain p0 where slash: "path = CHR ''/'' # p0" using ok by (cases path) (auto simp: request_ok_def)
  note ok' = ok [unfolded request_ok_def]
  let ?ht = "concat (map header_text hs)" and ?qc = "concat (map query_cell qs)"
  let ?post = "proto @ CR # LF # ?ht @ CR # LF # NUL # zs" and ?p = "length m + 1"
  let ?r = "?p + length path + 1 + length ?qc" and ?pre = "m @ SP # path @ NUL # ?qc"
  have msk: "msk \<noteq> 0" using m by (auto simp: method_names_def METHOD_defs)
  have txt_eq: "request_text m path qs proto hs @ NUL # zs = (m @ [SP]) @ target_text path qs @ SP # ?post"
    by (simp add: request_text_def)
  have len: "n = ?r + length proto + length ?ht + 4"
    using n(1) by (simp add: request_text_def length_target)
  let ?req1 = "req\<lparr>rq_method := msk\<rparr>"
  let ?req2 = "?req1\<lparr>rq_query := put_all (rq_query ?req1) (query_ptrs (?p + length path + 1) qs),
    rq_path := Some (Buf ?p)\<rparr>"
  have b: "length m + 1 \<le> n" "?p = length (m @ [SP])" "NUL \<in> set ?post" "?p + 13 \<le> n"
    "kv_provided (rq_query ?req1)" "kv_provided (rq_headers ?req2)" "?r = length ?pre"
    using len t slash ok' by simp_all
  have 1: "http_parse_method req (m @ SP # target_text path qs @ SP # ?post) 0 n
      = Some (int (length m), ?req1, length m)"
    using m b(1) by (intro http_parse_method_text) auto
  have 2: "trim_spaces (m @ SP # target_text path qs @ SP # ?post) (length m) n = Some ?p"
    using trim_spaces_text [of "length m" m "CHR ''/''" n] b(4) slash by (simp add: target_text_def)
  obtain r2 where 3: "http_parse_path env ?req1 ((m @ [SP]) @ target_text path qs @ SP # ?post) ?p n =
      Some (r2, ?req2, (m @ [SP]) @ path @ NUL # ?qc @ ?post, ?p + length (target_text path qs) + 1)"
    using http_parse_path_text [OF _ slash _ b(5,3,2,4) n(2), of qs env] ok' by blast
  have 4: "?p + length (target_text path qs) + 1 = ?r" by (simp add: length_target)
  from parse_rest_text [OF _ _ _ _ b(6,7) len n(2), where env = env and zs = "NUL # zs"] ok'
  show ?thesis
    unfolding txt_eq using 1 2 3 4 msk
    by (auto simp: http_parse_request_def parsed_request_def parsed_text_def Let_def add.assoc)
qed

section \<open>What the pointers lead to\<close>

lemma put_all_entries:
  assumes "kv_provided t" and "kv_entries t = []"
  shows "kv_entries (put_all t es) = take (kv_room t) es"
  using provided.put_all(2) [OF assms(1)] assms(2) by simp

lemma parsed_reads:
  assumes ok: "request_ok path qs proto hs"
    and t: "kv_provided (rq_query req)" "kv_entries (rq_query req) = []"
      "kv_provided (rq_headers req)" "kv_entries (rq_headers req) = []"
    and mem_def: "mem = parsed_text m path qs proto hs @ NUL # zs"
    and req'_def: "req' = parsed_request req m msk path qs proto hs"
  shows "\<exists>p. rq_path req' = Some p \<and> deref mem p = Some path"
    and "\<exists>p. rq_protocol req' = Some p \<and> deref mem p = Some proto"
    and "map (entry_strings mem) (kv_entries (rq_query req')) = map Some (take (kv_room (rq_query req)) qs)"
    and "map (entry_strings mem) (kv_entries (rq_headers req')) = map Some (take (kv_room (rq_headers req)) hs)"
proof -
  let ?qc = "concat (map query_cell qs)" and ?hc = "concat (map header_cell hs)"
  let ?pre = "m @ SP # path @ [NUL]"
  note ok' = ok [unfolded request_ok_def free_of_def]
  have mem: "mem = (m @ [SP]) @ path @ NUL # ?qc @ proto @ NUL # LF # ?hc @ CR # LF # NUL # zs"
    "mem = (?pre @ ?qc) @ proto @ NUL # LF # ?hc @ CR # LF # NUL # zs"
    "mem = ?pre @ ?qc @ proto @ NUL # LF # ?hc @ CR # LF # NUL # zs"
    "mem = (?pre @ ?qc @ proto @ [NUL, LF]) @ ?hc @ CR # LF # NUL # zs"
    by (simp_all add: mem_def parsed_text_def)
  have "cstr mem (length m + 1) = Some path"
    unfolding mem(1) using ok' by (intro cstr_at) auto
  then show "\<exists>p. rq_path req' = Some p \<and> deref mem p = Some path"
    by (simp add: req'_def parsed_request_def)
  have "cstr mem (length (?pre @ ?qc)) = Some proto"
    unfolding mem(2) using ok' by (intro cstr_at) auto
  then show "\<exists>p. rq_protocol req' = Some p \<and> deref mem p = Some proto"
    by (simp add: req'_def parsed_request_def add.assoc)
  have "map (entry_strings mem) (query_ptrs (length ?pre) qs) = map Some qs"
    unfolding mem(3) using ok' by (intro query_ptrs_read) blast
  then show "map (entry_strings mem) (kv_entries (rq_query req')) = map Some (take (kv_room (rq_query req)) qs)"
    using t(1,2) by (simp add: req'_def parsed_request_def Let_def put_all_entries take_map [symmetric])
  have "map (entry_strings mem) (header_ptrs (length (?pre @ ?qc @ proto @ [NUL, LF])) hs) = map Some hs"
    unfolding mem(4) using ok' by (intro header_ptrs_read) blast
  then show "map (entry_strings mem) (kv_entries (rq_headers req')) = map Some (take (kv_room (rq_headers req)) hs)"
    using t(3,4)
    by (simp add: req'_def parsed_request_def Let_def put_all_entries take_map [symmetric] add.assoc)
qed

section \<open>Properties\<close>

text \<open>
  C1. Round trip of the parser: for a request with a known method, a path starting with a
  slash, query pairs, a protocol starting with \<open>HTTP\<close> and headers (each free of the
  delimiters, each header line of at least five characters), parsing the text of the
  request returns 1 with the method's mask, and the stored pointers lead to exactly the
  path, the protocol, the query pairs and the header pairs, up to the room in the tables.
\<close>

theorem http_parse_request_roundtrip:
  assumes "request_ok path qs proto hs" and "(m, msk) \<in> set method_names"
    and "kv_provided (rq_query req)" and "kv_entries (rq_query req) = []"
    and "kv_provided (rq_headers req)" and "kv_entries (rq_headers req) = []"
    and "n = length (request_text m path qs proto hs)" and "n < 2 ^ 64"
  shows "\<exists>req' mem' p q. http_parse_request env req (request_text m path qs proto hs @ NUL # zs) n
       = Some (1, req', mem')
     \<and> rq_method req' = msk
     \<and> rq_path req' = Some p \<and> deref mem' p = Some path
     \<and> rq_protocol req' = Some q \<and> deref mem' q = Some proto
     \<and> map (entry_strings mem') (kv_entries (rq_query req')) = map Some (take (kv_room (rq_query req)) qs)
     \<and> map (entry_strings mem') (kv_entries (rq_headers req')) = map Some (take (kv_room (rq_headers req)) hs)"
proof -
  have "rq_method (parsed_request req m msk path qs proto hs) = msk"
    by (simp add: parsed_request_def Let_def)
  with http_parse_request_text [OF assms(1-3,5,7,8), of env zs]
    parsed_reads [OF assms(1,3-6), where m = m and msk = msk and zs = zs, OF refl refl] show ?thesis by blast
qed

theorem http_parse_request_roundtrip_witness:
  "\<exists>req' mem' p q. http_parse_request some_env empty_request
       (request_text ''GET'' ''/a'' [(''x'', ''1''), (''y'', '''')] ''HTTP/1.1'' [(''Host'', ''h'')] @ NUL # [])
       (length (request_text ''GET'' ''/a'' [(''x'', ''1''), (''y'', '''')] ''HTTP/1.1'' [(''Host'', ''h'')]))
       = Some (1, req', mem')
     \<and> rq_path req' = Some p \<and> deref mem' p = Some ''/a''
     \<and> rq_protocol req' = Some q \<and> deref mem' q = Some ''HTTP/1.1''
     \<and> map (entry_strings mem') (kv_entries (rq_query req')) = [Some (''x'', ''1''), Some (''y'', '''')]
     \<and> map (entry_strings mem') (kv_entries (rq_headers req')) = [Some (''Host'', ''h'')]"
proof -
  have ok: "request_ok ''/a'' [(''x'', ''1''), (''y'', '''')] ''HTTP/1.1'' [(''Host'', ''h'')]"
    by (simp add: request_ok_def query_ok_def header_ok_def free_of_def)
  have t: "kv_provided (rq_query empty_request)" "kv_provided (rq_headers empty_request)"
    "kv_entries (rq_query empty_request) = []" "kv_entries (rq_headers empty_request) = []"
    "kv_room (rq_query empty_request) = 20" "kv_room (rq_headers empty_request) = 20"
    using empty_kv_provided [of 20] empty_kv_simps [of 20] by (simp_all add: empty_request_def)
  have m: "(''GET'', METHOD_GET) \<in> set method_names" by (simp add: method_names_def)
  have len: "length (request_text ''GET'' ''/a'' [(''x'', ''1''), (''y'', '''')] ''HTTP/1.1'' [(''Host'', ''h'')]) < 2 ^ 64"
    by (simp add: request_text_def target_text_def)
  from http_parse_request_roundtrip [OF ok m t(1,3,2,4) refl len, of some_env "[]"] t(5,6) show ?thesis
    by auto
qed

text \<open>
  C28. A CONNECT request is always refused: the method table gives \<open>CONNECT\<close> the length 6, so
  the path parser starts at the final T of the method name, whatever follows.
\<close>

theorem connect_always_refused:
  assumes "rq_path req = None" and "8 \<le> n"
  shows "http_parse_request env req (''CONNECT '' @ rest) n =
     Some (0, req\<lparr>rq_method := METHOD_CONNECT\<rparr>, ''CONNECT '' @ rest)"
proof -
  have "http_parse_method req (''CONNECT '' @ rest) 0 n = Some (6, req\<lparr>rq_method := METHOD_CONNECT\<rparr>, 6)"
    using assms(2) by (simp add: http_parse_method_known method_lookup_values)
  moreover have "trim_spaces (''CONNECT '' @ rest) 6 n = Some 6"
    using assms(2) by (simp add: trim_spaces.simps)
  moreover have "http_parse_path env r (''CONNECT '' @ rest) 6 n = Some (0, r, ''CONNECT '' @ rest, 6)" for r
    by (simp add: http_parse_path_def peek_def)
  ultimately show ?thesis
    using assms(1) by (simp add: http_parse_request_def METHOD_defs)
qed

theorem connect_always_refused_witness:
  "http_parse_request some_env empty_request (''CONNECT / HTTP/1.1'') 18 =
     Some (0, empty_request\<lparr>rq_method := METHOD_CONNECT\<rparr>, ''CONNECT / HTTP/1.1'')"
  using connect_always_refused [of empty_request 18 some_env "''/ HTTP/1.1''"]
  by (simp add: empty_request_def)

text \<open>
  A header line of fewer than five characters ends the header section: nothing of it or
  of any later line is stored. This holds for the blank line, and also for a header such as
  \<open>H: V\<close>, since the length test compares with \<open>sizeof\<close>, which counts the terminator.
\<close>

theorem short_header_ends_section:
  assumes "CR \<notin> set l" and "NUL \<notin> set l" and "length l < 5" and "i = length pre" and "i < n"
  shows "parse_headers env req (pre @ l @ CR # post) i n = Some (req, pre @ l @ CR # post, i + length l)"
proof -
  have "strchr (pre @ l @ CR # post) i CR = Some (Some (i + length l))"
    using assms by (intro strchr_hit) auto
  moreover have "to_size_t (int (i + length l) - int i) < 5"
    using assms(3) by (simp add: to_size_t_less_iff)
  ultimately have "header_body env req (pre @ l @ CR # post) i
      = Some (req, pre @ l @ CR # post, i + length l, True)"
    by (simp add: header_body_def)
  with assms(5) show ?thesis by (subst parse_headers.simps) simp
qed

theorem short_header_ends_section_witness:
  "parse_headers some_env empty_request (''H: V'' @ CR # LF # ''Host: x'' @ [CR, LF, CR, LF, NUL]) 0 17
     = Some (empty_request, ''H: V'' @ CR # LF # ''Host: x'' @ [CR, LF, CR, LF, NUL], 4)"
  using short_header_ends_section [of "''H: V''" 0 "[]" 17 some_env empty_request
      "LF # ''Host: x'' @ [CR, LF, CR, LF, NUL]"] by simp

text \<open>
  C29. A header with an empty value (name, colon, end of line) is stored with a pointer past
  its terminator: the value reads as the line feed followed by the text of the next lines
  up to the next NUL, not as the empty string.
\<close>

theorem empty_header_value_leaks:
  assumes "free_of [CR, CHR '':''] k" and "4 \<le> length k" and "length k < 2 ^ 32"
    and "kv_provided (rq_headers req)" and "i = length pre" and "NUL \<in> set post"
  shows "\<exists>mem'. header_body env req (pre @ k @ CHR '':'' # CR # LF # post) i =
       Some (req\<lparr>rq_headers := snd (kv_put (rq_headers req) (Some (Buf i), Some (Buf (i + length k + 2))))\<rparr>,
             mem', i + length k + 3, False)
     \<and> deref mem' (Buf i) = Some k \<and> deref mem' (Buf (i + length k + 2)) = Some (LF # upto_nul post)"
proof -
  let ?m = "pre @ k @ CHR '':'' # CR # LF # post" and ?m' = "pre @ k @ NUL # NUL # LF # post"
  have k: "CR \<notin> set k" "CHR '':'' \<notin> set k" "NUL \<notin> set k" using assms(1) by (auto simp: free_of_def)
  have 1: "strchr ?m i CR = Some (Some (i + length k + 1))"
    using strchr_hit [of CR "k @ '':''" i pre "LF # post"] k assms(5) by simp
  have 2: "strchr ?m i CHR '':'' = Some (Some (i + length k))"
    using k assms(5) by (intro strchr_hit)
  have 3: "poke ?m (i + length k) NUL = Some (pre @ k @ NUL # CR # LF # post)"
    using poke_at [of "i + length k" "pre @ k"] assms(5) by simp
  have 4: "poke (pre @ k @ NUL # CR # LF # post) (i + length k + 1) NUL = Some ?m'"
    using poke_at [of "i + length k + 1" "pre @ k @ [NUL]"] assms(5) by simp
  have "\<not> to_size_t (int (i + length k + 1) - int i) < 5"
    using assms(2,3) by (simp add: to_size_t_less_iff)
  with 1 2 3 4 assms(4) have "header_body env req ?m i =
      Some (req\<lparr>rq_headers := snd (kv_put (rq_headers req) (Some (Buf i), Some (Buf (i + length k + 2))))\<rparr>,
            ?m', i + length k + 3, False)"
    by (simp add: header_body_def table_set_provided)
  moreover have "cstr ?m' i = Some k" using k assms(5) by (intro cstr_at)
  moreover have "cstr ?m' (i + length k + 2) = Some (LF # upto_nul post)"
    using assms(5,6) by (simp add: cstr_def)
  ultimately show ?thesis by simp
qed

theorem empty_header_value_leaks_witness:
  "\<exists>mem' req'. header_body some_env empty_request (''Empty'' @ CHR '':'' # CR # LF # ''Next'' @ [NUL]) 0
       = Some (req', mem', 8, False)
     \<and> deref mem' (Buf 7) = Some (LF # ''Next'')"
proof -
  have p: "kv_provided (rq_headers empty_request)"
    using empty_kv_provided [of 20] by (simp add: empty_request_def)
  have len: "0 + length ''Empty'' + 2 = 7" "0 + length ''Empty'' + 3 = 8" by simp_all
  have f: "free_of [CR, CHR '':''] ''Empty''" by (simp add: free_of_def)
  obtain mem' where "header_body some_env empty_request ([] @ ''Empty'' @ CHR '':'' # CR # LF # ''Next'' @ [NUL]) 0
      = Some (empty_request\<lparr>rq_headers := snd (kv_put (rq_headers empty_request) (Some (Buf 0), Some (Buf 7)))\<rparr>,
              mem', 8, False)" "deref mem' (Buf 7) = Some (LF # upto_nul (''Next'' @ [NUL]))"
    using empty_header_value_leaks [OF f _ _ p, of 0 "[]" "''Next'' @ [NUL]" some_env]
    unfolding len by auto
  then show ?thesis by auto
qed

end
