(* ===== verification/Serving.thy ===== *)
theory Serving
  imports Event_Loop Http_Request_Roundtrip
begin

text \<open>
  One request through all components: parsing, routing, an application handler, the
  composition of the response and its submission, in the build without
  \<open>WATCH_STATIC_FILES\<close>; and what a client can do with a long protocol text.
\<close>

section \<open>Facts\<close>

lemma fresh_tables:
  assumes "fresh_request req"
  shows "kv_provided (rq_query req)" "kv_entries (rq_query req) = []"
    "kv_provided (rq_headers req)" "kv_entries (rq_headers req) = []"
  using assms by (simp_all add: fresh_request_def tables_ok_def)

text \<open>A round that parses the text of a request goes on with routing.\<close>

lemma recv_case_text:
  assumes ok: "request_ok path qs proto hs" "(m, msk) \<in> set method_names"
    and c: "cn_str c = Some str" "conn_block str" "str_buf str = request_text m path qs proto hs @ NUL # zs"
    and fr: "fresh_request (fr_req fr)"
  shows "recv_case env i (int (length (request_text m path qs proto hs))) fr (c, w) =
     map_option (\<lambda>(fr', st). (YIELD, fr', st))
       (answer_request env i (fr\<lparr>fr_req := parsed_request (fr_req fr) m msk path qs proto hs\<rparr>)
          (parsed_text m path qs proto hs @ NUL # zs)
          (c\<lparr>cn_str := Some (str\<lparr>str_buf := parsed_text m path qs proto hs @ NUL # zs\<rparr>)\<rparr>, w))"
proof -
  let ?n = "length (request_text m path qs proto hs)"
  have len: "?n + 1 + length zs = 2 ^ 21" "sint (str_capacity str) = 2 ^ 21"
    using c(2) by (simp_all add: conn_block_def c(3))
  have "0 < ?n" by (simp add: request_text_def)
  moreover have "http_parse_request (sv_mem env) (fr_req fr) (str_buf str) ?n =
      Some (1, parsed_request (fr_req fr) m msk path qs proto hs, parsed_text m path qs proto hs @ NUL # zs)"
    unfolding c(3) using len fresh_tables [OF fr] by (intro http_parse_request_text [OF ok]) simp_all
  ultimately show ?thesis
    using c(1) len by (auto simp: recv_case_def Let_def map_option_case split: option.splits)
qed

lemma answer_request_composes:
  assumes path: "rq_path (fr_req fr) = Some p" "deref mem p = Some path"
    and route: "find_router (sv_routes env) path (rq_method (fr_req fr)) = Some rt"
      "rt_filepath rt = None" "rt_fp rt = Route_fn f"
    and f: "f mem (fr_req fr) (fr_res fr) (w_user w) = Some (0, res, u)"
  shows "answer_request env i fr mem (c, w) =
     do {
       (ok, final) \<leftarrow> http_compose_response (sv_mem env) mem (fr_req fr) res (fr_fresstr fr);
       if ok \<noteq> 0 then do {
         s \<leftarrow> final;
         st' \<leftarrow> send_response env i res s (c, w\<lparr>w_user := u\<rparr>);
         Some (fr\<lparr>fr_res := res, fr_fresstr := final\<rparr>, st')
       }
       else do {
         st' \<leftarrow> send_text env i RESPONSE_400 (c, w\<lparr>w_user := u\<rparr>);
         Some (fr\<lparr>fr_res := res, fr_fresstr := final\<rparr>, st')
       }
     }"
  using assms by (simp add: answer_request_def call_handler_def HANDLER_ERR_defs Let_def)

lemma parsed_method [simp]: "rq_method (parsed_request req m msk path qs proto hs) = msk"
  by (simp add: parsed_request_def Let_def)

lemma parsed_pointers:
  assumes "request_ok path qs proto hs" and "fresh_request req"
  shows "\<exists>p q. rq_path (parsed_request req m msk path qs proto hs) = Some p
     \<and> deref (parsed_text m path qs proto hs @ NUL # zs) p = Some path
     \<and> rq_protocol (parsed_request req m msk path qs proto hs) = Some q
     \<and> deref (parsed_text m path qs proto hs @ NUL # zs) q = Some proto"
  using parsed_reads(1,2) [OF assms(1) fresh_tables [OF assms(2)] refl refl] by blast

text \<open>The whole effect of the round, for a response sent from memory.\<close>

lemma answer_round:
  assumes req: "request_ok path qs proto hs" "(m, msk) \<in> set method_names"
    and c: "cn_action c = IO_URING_OP_RECV" "cn_total_steps c = 0" "cn_str c = Some str" "conn_block str"
      "str_buf str = request_text m path qs proto hs @ NUL # zs"
    and fr: "fresh_request (fr_req fr)" "fr_fresstr fr = Some fs" "string_exact fs" "contents fs = []"
    and route: "find_router (sv_routes env) path msk = Some rt" "rt_filepath rt = None" "rt_fp rt = Route_fn f"
    and f: "f (parsed_text m path qs proto hs @ NUL # zs) (parsed_request (fr_req fr) m msk path qs proto hs)
       (fr_res fr) (w_user w) = Some (0, res, u)"
    and build: "\<not> sv_watch env" "sv_slot env (w_ring w)"
    and res: "headers_are (parsed_text m path qs proto hs @ NUL # zs) (rs_headers res) rhs"
      "lines_short proto rhs res" "body_ok res" "length (response_text proto rhs res) < unat (str_capacity fs)"
  defines "mem \<equiv> parsed_text m path qs proto hs @ NUL # zs"
    and "req' \<equiv> parsed_request (fr_req fr) m msk path qs proto hs"
  shows "\<exists>s'. extended fs (response_text proto rhs res) s'
     \<and> handler_body env i (int (length (request_text m path qs proto hs))) fr (c, w)
        = Some (\<lparr>fr_req = req', fr_res = res, fr_fresstr = Some s'\<rparr>,
            c\<lparr>cn_str := Some (str\<lparr>str_buf := mem\<rparr>), cn_action := IO_URING_OP_SEND, cn_total_steps := 1\<rparr>,
            w\<lparr>w_user := u, w_ring := w_ring w @ [\<lparr>sq_op = Op_send (cn_fd c) (str_buf s')
                (of_nat (length (response_text proto rhs res))) 0, sq_user = Some i, sq_flags = 0\<rparr>]\<rparr>)"
proof -
  let ?c = "c\<lparr>cn_str := Some (str\<lparr>str_buf := mem\<rparr>)\<rparr>" and ?fr = "fr\<lparr>fr_req := req'\<rparr>"
  obtain p q where p: "rq_path req' = Some p" "deref mem p = Some path"
    and q: "rq_protocol req' = Some q" "deref mem q = Some proto"
    using parsed_pointers [OF req(1) fr(1)] unfolding mem_def req'_def by blast
  obtain s' where s': "http_compose_response (sv_mem env) mem req' res (Some fs) = Some (1, Some s')"
    "extended fs (response_text proto rhs res) s'"
    using compose_response_exact [OF q res(1-3) [folded mem_def] fr(3)] res(4) fr(4) by fastforce
  then have len: "str_len s' = of_nat (length (response_text proto rhs res))"
    using fr(4) by (metis append_Nil extended_def string_exact_def of_nat_unat ucast_id)
  have "answer_request env i ?fr mem (?c, w) =
      (send_response env i res s' (?c, w\<lparr>w_user := u\<rparr>) \<bind> (\<lambda>st'. Some (?fr\<lparr>fr_res := res, fr_fresstr := Some s'\<rparr>, st')))"
    using answer_request_composes [of ?fr p mem path env rt f w res u i ?c] p route f s'(1) fr(2)
    by (simp add: mem_def req'_def)
  then show ?thesis
    using recv_case_text [OF req c(3-5) fr(1), of env i w] c(1,2) build s'(2) len
    by (auto simp: handler_body_def send_response_def push_defs to_int_id mem_def req'_def)
qed

lemma dec_nat_nonempty [simp]: "dec_nat n \<noteq> []"
  by (subst dec_nat.simps) simp

lemma dec_nat_three_digits: "100 \<le> n \<Longrightarrow> 3 \<le> length (dec_nat n)"
  using dec_nat_nonempty [of "n div 10 div 10"]
  by (subst dec_nat.simps, subst dec_nat.simps) (simp add: Suc_le_eq del: dec_nat_nonempty)

section \<open>Properties\<close>

text \<open>
  C5. A well-formed request for a route of the application is answered with exactly the
  response its handler describes: one round of the coroutine parses it, calls the handler
  with the parsed request, composes the response in the empty output string and queues one
  send of the response text to the client's descriptor, with the counters at 0 and 1. This
  is the build without \<open>WATCH_STATIC_FILES\<close> (with it, the default, two splices are queued as
  well), when the submission queue has room for one entry.
\<close>

theorem request_answered:
  assumes req: "request_ok path qs proto hs" "(m, msk) \<in> set method_names"
    and c: "cn_action c = IO_URING_OP_RECV" "cn_total_steps c = 0" "cn_str c = Some str" "conn_block str"
      "str_buf str = request_text m path qs proto hs @ NUL # zs"
    and fr: "fresh_request (fr_req fr)" "fr_fresstr fr = Some fs" "string_exact fs" "contents fs = []"
    and route: "find_router (sv_routes env) path msk = Some rt" "rt_filepath rt = None" "rt_fp rt = Route_fn f"
    and f: "f (parsed_text m path qs proto hs @ NUL # zs) (parsed_request (fr_req fr) m msk path qs proto hs)
       (fr_res fr) (w_user w) = Some (0, res, u)"
    and build: "\<not> sv_watch env" "sv_slot env (w_ring w)"
    and res: "headers_are (parsed_text m path qs proto hs @ NUL # zs) (rs_headers res) rhs"
      "lines_short proto rhs res" "body_ok res" "length (response_text proto rhs res) < unat (str_capacity fs)"
  shows "\<exists>fr' c' w' buf. handler_body env i (int (length (request_text m path qs proto hs))) fr (c, w) = Some (fr', c', w')
     \<and> w_ring w' = w_ring w @ [\<lparr>sq_op = Op_send (cn_fd c) buf (of_nat (length (response_text proto rhs res))) 0,
                                sq_user = Some i, sq_flags = 0\<rparr>]
     \<and> upto_nul buf = response_text proto rhs res
     \<and> w_user w' = u \<and> cn_action c' = IO_URING_OP_SEND \<and> cn_total_steps c' = 1 \<and> cn_cur_steps c' = cn_cur_steps c"
proof -
  from answer_round [OF assms, of i] obtain s' where s': "extended fs (response_text proto rhs res) s'"
    "handler_body env i (int (length (request_text m path qs proto hs))) fr (c, w)
        = Some (\<lparr>fr_req = parsed_request (fr_req fr) m msk path qs proto hs, fr_res = res, fr_fresstr = Some s'\<rparr>,
            c\<lparr>cn_str := Some (str\<lparr>str_buf := parsed_text m path qs proto hs @ NUL # zs\<rparr>),
              cn_action := IO_URING_OP_SEND, cn_total_steps := 1\<rparr>,
            w\<lparr>w_user := u, w_ring := w_ring w @ [\<lparr>sq_op = Op_send (cn_fd c) (str_buf s')
                (of_nat (length (response_text proto rhs res))) 0, sq_user = Some i, sq_flags = 0\<rparr>]\<rparr>)"
    by blast
  moreover from this(1) fr(4) have "upto_nul (str_buf s') = response_text proto rhs res"
    by (simp add: extended_def contents_def)
  ultimately show ?thesis using c by auto
qed

text \<open>A server with one route and a request for it.\<close>

definition hi_env :: "(unit, unit) server_env" where
  "hi_env = \<lparr>sv_watch = False, sv_mem = some_env, sv_static = demo_static_env,
     sv_routes = [ROUTER METHOD_GET ''/a''
       (Route_fn (\<lambda>mem req res u. Some (0, res\<lparr>rs_file := Some ''hi'', rs_file_sz := 2\<rparr>, u)))],
     sv_slot = (\<lambda>_. True), sv_pipefds = (0, 0), sv_listen = 3, sv_nfds = 16\<rparr>"

definition hi_frame :: frame where
  "hi_frame = \<lparr>fr_req = empty_request, fr_res = demo_response, fr_fresstr = Some (empty_string 2048)\<rparr>"

definition hi_conn :: "string \<Rightarrow> conn" where
  "hi_conn text = \<lparr>cn_fd = 5, cn_action = IO_URING_OP_RECV, cn_cur_steps = 0, cn_total_steps = 0, cn_coro = None,
     cn_str = Some \<lparr>str_capacity = 2 ^ 21, str_len = 0,
       str_buf = text @ NUL # replicate (2 ^ 21 - length text - 1) NUL\<rparr>, cn_svr = True\<rparr>"

definition hi_world :: "(unit, unit) world" where
  "hi_world = \<lparr>w_ring = [], w_kst = (), w_data = Map_null, w_user = ()\<rparr>"

lemma hi_frame_facts: "fresh_request (fr_req hi_frame)" "fr_fresstr hi_frame = Some (empty_string 2048)"
  "string_exact (empty_string 2048)" "contents (empty_string 2048) = []" "unat (str_capacity (empty_string 2048)) = 2048"
  using string_exact_zero [of 2048]
  by (simp_all add: hi_frame_def fresh_request_def tables_ok_def empty_request_def empty_kv_def KV_INIT_WITH_BUF_def
      kv_provided_def kv_wf_def kv_entries_def empty_string_def)

lemma hi_conn_facts:
  assumes "length t < 2 ^ 21"
  shows "\<exists>str. cn_str (hi_conn t) = Some str \<and> conn_block str
     \<and> str_buf str = t @ NUL # replicate (2 ^ 21 - length t - 1) NUL"
  using assms by (simp add: hi_conn_def conn_block_def)

lemma hi_route: "\<exists>rt f. find_router (sv_routes hi_env) ''/a'' METHOD_GET = Some rt \<and> rt_filepath rt = None \<and> rt_fp rt = Route_fn f
    \<and> (\<forall>mem req res u. f mem req res u = Some (0, res\<lparr>rs_file := Some ''hi'', rs_file_sz := 2\<rparr>, u))"
  by (simp add: hi_env_def route_matches_def ROUTER_def METHOD_defs)

theorem request_answered_witness:
  "\<exists>fr' c' w' buf. handler_body hi_env 5 (int (length (request_text ''GET'' ''/a'' [] ''HTTP/1.1'' []))) hi_frame
       (hi_conn (request_text ''GET'' ''/a'' [] ''HTTP/1.1'' []), hi_world) = Some (fr', c', w')
     \<and> w_ring w' = [\<lparr>sq_op = Op_send 5 buf (of_nat (length (response_text ''HTTP/1.1'' [] hello_response))) 0,
                      sq_user = Some 5, sq_flags = 0\<rparr>]
     \<and> upto_nul buf = response_text ''HTTP/1.1'' [] hello_response"
proof -
  let ?t = "request_text ''GET'' ''/a'' [] ''HTTP/1.1'' []"
  let ?res = "demo_response\<lparr>rs_file := Some ''hi'', rs_file_sz := 2\<rparr>"
  have ok: "request_ok ''/a'' [] ''HTTP/1.1'' []" "(''GET'', METHOD_GET) \<in> set method_names"
    by (simp_all add: request_ok_def free_of_def method_names_def)
  have "length ?t < 2 ^ 21" by (simp add: request_text_def target_text_def)
  then obtain str where str: "cn_str (hi_conn ?t) = Some str" "conn_block str"
    "str_buf str = ?t @ NUL # replicate (2 ^ 21 - length ?t - 1) NUL" using hi_conn_facts by blast
  obtain rt f where rt: "find_router (sv_routes hi_env) ''/a'' METHOD_GET = Some rt" "rt_filepath rt = None"
    "rt_fp rt = Route_fn f" and f: "\<And>mem req res u. f mem req res u = Some (0, res\<lparr>rs_file := Some ''hi'', rs_file_sz := 2\<rparr>, u)"
    using hi_route by blast
  have t: "response_text ''HTTP/1.1'' [] ?res = response_text ''HTTP/1.1'' [] hello_response"
    by (simp add: response_text_def response_status_def response_length_def response_body_def demo_response_def hello_response_def)
  have res: "headers_are mem (rs_headers ?res) []" "lines_short ''HTTP/1.1'' [] ?res" "body_ok ?res" for mem
    using demo_headers(1) [of mem]
    by (simp_all add: lines_short_def status_line_def response_status_def demo_response_def fmt_d_def dec_nat.simps
        body_ok_def response_body_def)
  have short: "length (response_text ''HTTP/1.1'' [] ?res) < unat (str_capacity (empty_string 2048))"
    unfolding t hello_response_text hi_frame_facts(5) by simp
  have c: "cn_action (hi_conn ?t) = IO_URING_OP_RECV" "cn_total_steps (hi_conn ?t) = 0" "cn_fd (hi_conn ?t) = 5"
    "\<not> sv_watch hi_env" "sv_slot hi_env (w_ring hi_world)" "fr_res hi_frame = demo_response" "w_ring hi_world = []"
    by (simp_all add: hi_conn_def hi_env_def hi_frame_def hi_world_def)
  from request_answered [OF ok c(1,2) str hi_frame_facts(1-4) rt _ c(4,5) res short, of "()" 5] f c t
  show ?thesis by auto
qed

text \<open>
  C31. A client can make the server write outside a stack buffer: a request for a route of
  the application that is well formed but whose protocol text is 1016 characters or longer
  makes the round that answers it undefined, in both builds.
\<close>

theorem long_protocol_faults:
  assumes req: "request_ok path qs proto hs" "(m, msk) \<in> set method_names" "1016 \<le> length proto"
    and c: "cn_action c = IO_URING_OP_RECV" "cn_str c = Some str" "conn_block str"
      "str_buf str = request_text m path qs proto hs @ NUL # zs"
    and fr: "fresh_request (fr_req fr)"
    and route: "find_router (sv_routes env) path msk = Some rt" "rt_filepath rt = None" "rt_fp rt = Route_fn f"
    and f: "f (parsed_text m path qs proto hs @ NUL # zs) (parsed_request (fr_req fr) m msk path qs proto hs)
       (fr_res fr) (w_user w) = Some (0, res, u)" "100 \<le> response_status res"
  shows "handler_body env i (int (length (request_text m path qs proto hs))) fr (c, w) = None"
proof -
  let ?mem = "parsed_text m path qs proto hs @ NUL # zs"
    and ?req = "parsed_request (fr_req fr) m msk path qs proto hs"
  obtain p q where p: "rq_path ?req = Some p" "deref ?mem p = Some path"
    and q: "rq_protocol ?req = Some q" "deref ?mem q = Some proto"
    using parsed_pointers [OF req(1) fr(1)] by blast
  have "3 \<le> length (fmt_d (response_status res))"
    using f(2) by (simp add: fmt_d_def dec_nat_three_digits)
  then have "1024 \<le> length (status_line proto (response_status res))"
    using req(3) by (simp add: status_line_def)
  then have "http_compose_response (sv_mem env) ?mem ?req res (fr_fresstr fr) = None"
    by (simp add: http_compose_response_eq [OF q] compose_lines_def emit_def sprintf_def)
  then show ?thesis
    using recv_case_text [OF req(1,2) c(2-4) fr(1), of env i w] c(1)
      answer_request_composes [of "fr\<lparr>fr_req := ?req\<rparr>" p ?mem path env rt f w res u] p route f
    by (simp add: handler_body_def)
qed

theorem long_protocol_faults_witness:
  "handler_body hi_env 5 (int (length (request_text ''GET'' ''/a'' [] (''HTTP'' @ replicate 1100 CHR ''x'') []))) hi_frame
     (hi_conn (request_text ''GET'' ''/a'' [] (''HTTP'' @ replicate 1100 CHR ''x'') []), hi_world) = None"
proof -
  let ?p = "''HTTP'' @ replicate 1100 CHR ''x''"
  let ?t = "request_text ''GET'' ''/a'' [] ?p []"
  have ok: "request_ok ''/a'' [] ?p []" "(''GET'', METHOD_GET) \<in> set method_names" "1016 \<le> length ?p"
    by (simp_all add: request_ok_def free_of_def method_names_def)
  have "length ?t < 2 ^ 21" by (simp add: request_text_def target_text_def)
  then obtain str where str: "cn_str (hi_conn ?t) = Some str" "conn_block str"
    "str_buf str = ?t @ NUL # replicate (2 ^ 21 - length ?t - 1) NUL" using hi_conn_facts by blast
  obtain rt f where rt: "find_router (sv_routes hi_env) ''/a'' METHOD_GET = Some rt" "rt_filepath rt = None"
    "rt_fp rt = Route_fn f" and f: "\<And>mem req res u. f mem req res u = Some (0, res\<lparr>rs_file := Some ''hi'', rs_file_sz := 2\<rparr>, u)"
    using hi_route by blast
  have "cn_action (hi_conn ?t) = IO_URING_OP_RECV" by (simp add: hi_conn_def)
  moreover have "100 \<le> response_status (demo_response\<lparr>rs_file := Some ''hi'', rs_file_sz := 2\<rparr>)"
    by (simp add: response_status_def demo_response_def)
  moreover have "fr_res hi_frame = demo_response" by (simp add: hi_frame_def)
  ultimately show ?thesis
    using long_protocol_faults [OF ok _ str hi_frame_facts(1) rt, of hi_world "demo_response\<lparr>rs_file := Some ''hi'', rs_file_sz := 2\<rparr>" "()" 5] f
    by simp
qed

end
