(* ===== verification/Session.thy ===== *)
theory Session
  imports Serving
begin

text \<open>
  A whole session of a client, from the completed \<open>accept\<close> to the closed descriptor: the
  completions of the three kinds are processed one after the other, with the submission
  queue handed to the kernel in between. \<open>idle_conn\<close> is the state of a connection between
  two sessions; a session leads from it back to it, so that the next client on the same
  descriptor is served like the first.
\<close>

section \<open>The state between two sessions\<close>

definition empty_str :: "u64 \<Rightarrow> string_t option \<Rightarrow> bool" where
  "empty_str cap str \<longleftrightarrow> (\<exists>s. str = Some s \<and> string_exact s \<and> contents s = [] \<and> str_capacity s = cap)"

definition empty_table :: "kv \<Rightarrow> bool" where
  "empty_table t \<longleftrightarrow> kv_provided t \<and> kv_entries t = [] \<and> kv_capacity t = 20"

text \<open>The local variables of the coroutine: nothing is left of an earlier request.\<close>

definition ready_response :: "http_response \<Rightarrow> bool" where
  "ready_response res \<longleftrightarrow> rs_status res = 0 \<and> rs_file res = None \<and> rs_file_fd res = 0 \<and> rs_file_sz res = 0
     \<and> empty_str (2 ^ 21) (rs_str res) \<and> empty_table (rs_headers res)"

definition ready_frame :: "frame \<Rightarrow> bool" where
  "ready_frame fr \<longleftrightarrow> fresh_request (fr_req fr) \<and> ready_response (fr_res fr) \<and> empty_str (2 ^ 20) (fr_fresstr fr)"

text \<open>The variables with which the coroutine of a connection runs when it is next resumed.\<close>

definition conn_frame :: "mem_env \<Rightarrow> nat \<Rightarrow> conn \<Rightarrow> frame option" where
  "conn_frame mem i c =
     (case cn_coro c of
        Some (Co_suspended fr) \<Rightarrow> Some fr
      | Some Co_created \<Rightarrow> (case handler_start mem i of Some (Some fr) \<Rightarrow> Some fr | _ \<Rightarrow> None)
      | _ \<Rightarrow> None)"

definition started_conn :: "mem_env \<Rightarrow> nat \<Rightarrow> conn \<Rightarrow> bool" where
  "started_conn mem i c \<longleftrightarrow> cn_fd c = int i \<and> cn_cur_steps c = 0 \<and> cn_total_steps c = 0
     \<and> (\<exists>s. cn_str c = Some s \<and> blank (Some s)) \<and> (\<exists>fr. conn_frame mem i c = Some fr \<and> ready_frame fr)"

definition idle_conn :: "mem_env \<Rightarrow> nat \<Rightarrow> conn \<Rightarrow> bool" where
  "idle_conn mem i c \<longleftrightarrow> cn_action c \<noteq> IO_URING_OP_ACCEPT \<and> (c = zero_conn \<or> started_conn mem i c)"

section \<open>The first session\<close>

lemma string_init_empty:
  assumes "\<forall>n. me_alloc mem n"
  shows "\<exists>s. string_init (me_alloc mem) 1024 = Some (Some s) \<and> empty_str (2 ^ 21) (Some s) \<and> blank (Some s)"
    and "\<exists>s. string_init (me_alloc mem) 2048 = Some (Some s) \<and> empty_str (2 ^ 20) (Some s)"
proof -
  have "\<exists>s. string_init (me_alloc mem) 1024 = Some (Some s) \<and> str_capacity s = 2 ^ 21"
    "\<exists>s. string_init (me_alloc mem) 2048 = Some (Some s) \<and> str_capacity s = 2 ^ 20"
    using string_init_ok [OF assms, of 10 1024] string_init_ok [OF assms, of 11 2048] by simp_all
  then show "\<exists>s. string_init (me_alloc mem) 1024 = Some (Some s) \<and> empty_str (2 ^ 21) (Some s) \<and> blank (Some s)"
    and "\<exists>s. string_init (me_alloc mem) 2048 = Some (Some s) \<and> empty_str (2 ^ 20) (Some s)"
    unfolding empty_str_def by (blast intro: string_init_sound string_init_conn)+
qed

lemma handler_start_ready:
  assumes "\<forall>n. me_alloc mem n"
  shows "\<exists>fr. handler_start mem i = Some (Some fr) \<and> ready_frame fr"
proof -
  obtain s fs where s: "string_init (me_alloc mem) 1024 = Some (Some s)" "empty_str (2 ^ 21) (Some s)"
    and fs: "string_init (me_alloc mem) 2048 = Some (Some fs)" "empty_str (2 ^ 20) (Some fs)"
    using string_init_empty [OF assms] by blast
  then obtain fr where fr: "handler_start mem i = Some (Some fr)" by (simp add: handler_start_def Let_def)
  with s fs have "ready_response (fr_res fr)" "empty_str (2 ^ 20) (fr_fresstr fr)"
    by (auto simp: handler_start_def Let_def ready_response_def empty_table_def KV_INIT_WITH_BUF_def kv_provided_def
        kv_wf_def kv_entries_def)
  with fr handler_start_fresh [OF fr] show ?thesis by (simp add: ready_frame_def)
qed

lemma prepare_ready:
  assumes "\<forall>n. me_alloc mem n"
  shows "\<exists>c. prepare_connection True mem (int i) zero_conn = Some (0, c) \<and> started_conn mem i c \<and> cn_action c = 0"
proof -
  obtain s where s: "string_init (me_alloc mem) 1024 = Some (Some s)" "blank (Some s)"
    using string_init_empty(1) [OF assms] by blast
  from handler_start_ready [OF assms, of i] obtain fr where "handler_start mem i = Some (Some fr)" "ready_frame fr" by blast
  with s show ?thesis
    by (simp add: prepare_connection_def zero_conn_def DEFAULT_SVR_BUFLEN_def started_conn_def conn_frame_def)
qed

section \<open>The three completions\<close>

lemma started_coro: "started_conn mem i c \<Longrightarrow> cn_coro c \<noteq> None"
  by (auto simp: started_conn_def conn_frame_def split: option.splits)

lemma zero_coro [simp]: "cn_coro zero_conn = None"
  by (simp add: zero_conn_def)

lemma accept_stage:
  assumes c: "idle_conn (sv_mem env) i (conns i)" and i: "i \<noteq> sv_listen env" "i < sv_nfds env"
    and l: "cn_action (conns (sv_listen env)) = IO_URING_OP_ACCEPT"
    and mem: "\<forall>n. me_alloc (sv_mem env) n" and slot: "room_for_two env (w_ring w)"
  shows "\<exists>c' rs. process_cqe True env \<lparr>cq_user = Some (sv_listen env), cq_res = int i\<rparr> (conns, w)
       = Some (Running (conns(i := c'), w\<lparr>w_ring := w_ring w @ rs\<rparr>))
     \<and> started_conn (sv_mem env) i c' \<and> cn_action c' = IO_URING_OP_RECV
     \<and> map sq_op rs = [Op_recv (int i) (2 ^ 21), Op_accept (int (sv_listen env))]"
proof -
  obtain c where p: "(if cn_coro (conns i) = None then prepare_connection True (sv_mem env) (int i) (conns i)
      else Some (0, conns i)) = Some (0, c)" and st: "started_conn (sv_mem env) i c"
    using c prepare_ready [OF mem, of i] started_coro [of "sv_mem env" i "conns i"] by (auto simp: idle_conn_def)
  then obtain s where s: "cn_str c = Some s" "str_capacity s = 2 ^ 21" by (auto simp: started_conn_def blank_def conn_block_def)
  have keep: "conns(i := x, sv_listen env := (conns (sv_listen env))\<lparr>cn_action := IO_URING_OP_ACCEPT\<rparr>) = conns(i := x)" for x
    using l i(1) by (auto simp: fun_eq_iff)
  let ?c = "c\<lparr>cn_action := IO_URING_OP_RECV\<rparr>"
  have "started_conn (sv_mem env) i ?c" using st by (simp add: started_conn_def conn_frame_def)
  moreover have "process_cqe True env \<lparr>cq_user = Some (sv_listen env), cq_res = int i\<rparr> (conns, w)
       = Some (Running (conns(i := ?c), w\<lparr>w_ring := w_ring w @
           [\<lparr>sq_op = Op_recv (int i) (2 ^ 21), sq_user = Some i, sq_flags = 0\<rparr>,
            \<lparr>sq_op = Op_accept (int (sv_listen env)), sq_user = Some (sv_listen env), sq_flags = 0\<rparr>]\<rparr>))"
    using p s i l slot keep [of ?c]
    by (simp add: process_cqe_def accept_connection_def accept_again_def push_defs room_for_two_def fun_upd_other
        del: fun_upd_apply)
  ultimately show ?thesis by (intro exI [of _ ?c]) auto
qed

text \<open>The handler's result, as far as the next session depends on it.\<close>

definition reusable_response :: "http_response \<Rightarrow> bool" where
  "reusable_response res \<longleftrightarrow> (\<exists>s. rs_str res = Some s \<and> string_wf s \<and> str_capacity s = 2 ^ 21)
     \<and> kv_provided (rs_headers res) \<and> kv_capacity (rs_headers res) = 20"

lemma string_reset_empty:
  assumes "string_wf s"
  shows "\<exists>s'. string_reset (Some s) = Some (Some s') \<and> empty_str (str_capacity s) (Some s')"
  using string_reset_ok [OF assms] string_exact_zero [of "str_capacity s"] assms
  by (auto simp: empty_str_def string_wf_def)

lemma reset_ready:
  assumes fr: "tables_ok (fr_req fr)" "reusable_response (fr_res fr)" "fr_fresstr fr = Some fs" "string_wf fs"
      "str_capacity fs = 2 ^ 20"
    and str: "cn_str c = Some s" "conn_block s"
  shows "\<exists>fr' s'. reset_case env fr (c, w) = Some (fr', c\<lparr>cn_cur_steps := 0, cn_total_steps := 0, cn_str := Some s'\<rparr>,
       w\<lparr>w_kst := snd (sys_close (se_kern (sv_static env)) (cn_fd c) (w_kst w))\<rparr>)
     \<and> ready_frame fr' \<and> blank (Some s')"
proof -
  obtain r where r: "rs_str (fr_res fr) = Some r" "string_wf r" "str_capacity r = 2 ^ 21"
    "kv_provided (rs_headers (fr_res fr))" "kv_capacity (rs_headers (fr_res fr)) = 20"
    using fr(2) by (auto simp: reusable_response_def)
  obtain r' fs' s' where e: "string_reset (Some r) = Some (Some r')" "empty_str (2 ^ 21) (Some r')"
    "string_reset (Some fs) = Some (Some fs')" "empty_str (2 ^ 20) (Some fs')"
    "string_reset (Some s) = Some (Some s')" "blank (Some s')"
    using string_reset_empty [OF r(2)] string_reset_empty [OF fr(4)] string_reset_conn [of "Some s"] r(3) fr(5) str(2)
    by fastforce
  obtain x k where close: "sys_close (se_kern (sv_static env)) (cn_fd c) (w_kst w) = (x, k)" by fastforce
  have "kv_capacity (clear_kv t) = kv_capacity t" for t by (simp add: clear_kv_def)
  with e r fr(1,3) str(1) close clear_kv_provided show ?thesis
    by (auto simp: reset_case_def ready_frame_def ready_response_def empty_table_def fresh_request_def tables_ok_def)
qed


lemma receive_text:
  assumes "started_conn mem i c" and "length t < 2 ^ 21"
  shows "\<exists>str zs. receive t c = c\<lparr>cn_str := Some str\<rparr> \<and> conn_block str \<and> str_buf str = t @ NUL # zs"
proof -
  obtain s where s: "cn_str c = Some s" "conn_block s" "set (str_buf s) \<subseteq> {NUL}"
    using assms(1) by (auto simp: started_conn_def blank_def)
  then have b: "str_buf s = replicate (2 ^ 21) NUL"
    by (metis conn_block_def replicate_eqI singletonD subsetD)
  let ?str = "s\<lparr>str_buf := t @ drop (length t) (str_buf s)\<rparr>"
  have "drop (length t) (str_buf s) = NUL # replicate (2 ^ 21 - Suc (length t)) NUL"
    using assms(2) unfolding b drop_replicate by (metis Suc_diff_Suc replicate_Suc)
  moreover have "conn_block ?str" using s(2) assms(2) by (simp add: conn_block_def)
  ultimately show ?thesis using s(1) by (intro exI [of _ ?str]) (auto simp: receive_def)
qed

text \<open>
  A well-formed request \<open>text\<close> for a route of the application, whose handler, called with
  the parsed request and a cleared response in state \<open>u\<close>, describes the response \<open>resp\<close>.
\<close>

definition described ::
  "'u handler \<Rightarrow> string \<Rightarrow> string \<Rightarrow> (cbuf \<times> http_request \<Rightarrow> bool) \<Rightarrow> 'u \<Rightarrow> 'u \<Rightarrow> bool"
where
  "described h proto resp call u u' \<longleftrightarrow> (\<exists>f. h = Route_fn f
     \<and> (\<forall>mem req res. call (mem, req) \<longrightarrow> ready_response res \<longrightarrow> (\<exists>res' rhs. f mem req res u = Some (0, res', u')
          \<and> headers_are mem (rs_headers res') rhs \<and> lines_short proto rhs res' \<and> body_ok res' \<and> reusable_response res'
          \<and> response_text proto rhs res' = resp)))"

definition served :: "('k, 'u) server_env \<Rightarrow> string \<Rightarrow> string \<Rightarrow> 'u \<Rightarrow> 'u \<Rightarrow> bool" where
  "served env text resp u u' \<longleftrightarrow> length text < 2 ^ 21 \<and> length resp < 2 ^ 20
     \<and> (\<exists>m msk path qs proto hs rt. text = request_text m path qs proto hs \<and> request_ok path qs proto hs
        \<and> (m, msk) \<in> set method_names
        \<and> find_router (sv_routes env) path msk = Some rt \<and> rt_filepath rt = None
        \<and> described (rt_fp rt) proto resp (\<lambda>(mem, req). \<exists>zs req0. mem = parsed_text m path qs proto hs @ NUL # zs
             \<and> fresh_request req0 \<and> req = parsed_request req0 m msk path qs proto hs) u u')"

lemma servedI:
  assumes "request_ok path qs proto hs" and "(m, msk) \<in> set method_names"
    and "length (request_text m path qs proto hs) < 2 ^ 21" and "length resp < 2 ^ 20"
    and "find_router (sv_routes env) path msk = Some rt" and "rt_filepath rt = None"
    and "\<And>call. described (rt_fp rt) proto resp call u u'"
  shows "served env (request_text m path qs proto hs) resp u u'"
  unfolding served_def using assms by blast

lemma parsed_tables_ok: "fresh_request req \<Longrightarrow> tables_ok (parsed_request req m msk path qs proto hs)"
  by (simp add: parsed_request_def Let_def fresh_request_def tables_ok_def provided.put_all(1))

text \<open>The send the client sees: the response, from a buffer that holds it as a C string.\<close>

definition is_send :: "nat \<Rightarrow> string \<Rightarrow> sqe \<Rightarrow> bool" where
  "is_send i resp e \<longleftrightarrow> (\<exists>b. e = \<lparr>sq_op = Op_send (int i) b (of_nat (length resp)) 0, sq_user = Some i, sq_flags = 0\<rparr>
     \<and> upto_nul b = resp)"

text \<open>A connection whose answer is queued: its last completion resets it.\<close>

definition answered_conn :: "nat \<Rightarrow> conn \<Rightarrow> bool" where
  "answered_conn i c \<longleftrightarrow> cn_fd c = int i \<and> cn_action c = IO_URING_OP_SEND \<and> cn_cur_steps c = 0 \<and> cn_total_steps c = 1
     \<and> (\<exists>s. cn_str c = Some s \<and> conn_block s)
     \<and> (\<exists>fr fs. cn_coro c = Some (Co_suspended fr) \<and> tables_ok (fr_req fr) \<and> reusable_response (fr_res fr)
          \<and> fr_fresstr fr = Some fs \<and> string_wf fs \<and> str_capacity fs = 2 ^ 20)"

lemma parsed_text_length: "length (parsed_text m path qs proto hs) = length (request_text m path qs proto hs)"
proof -
  have "length (concat (map header_cell hs)) = length (concat (map header_text hs))"
    by (induction hs) auto
  then show ?thesis by (simp add: parsed_text_def request_text_def length_target)
qed

lemma recv_stage:
  assumes c: "started_conn (sv_mem env) i c" "cn_action c = IO_URING_OP_RECV"
    and t: "served env text resp (w_user w) u" and build: "\<not> sv_watch env" "sv_slot env (w_ring w)"
  shows "\<exists>c' e. resume_connection env i (int (length text)) (receive text c, w)
       = Some (c', w\<lparr>w_user := u, w_ring := w_ring w @ [e]\<rparr>)
     \<and> is_send i resp e \<and> answered_conn i c'"
proof -
  let ?call = "\<lambda>m msk path qs proto hs (mem, req). \<exists>zs req0. mem = parsed_text m path qs proto hs @ NUL # zs
     \<and> fresh_request req0 \<and> req = parsed_request req0 m msk path qs proto hs"
  from t obtain m msk path qs proto hs rt where q: "length text < 2 ^ 21" "length resp < 2 ^ 20"
    "text = request_text m path qs proto hs" "request_ok path qs proto hs" "(m, msk) \<in> set method_names"
    and rt: "find_router (sv_routes env) path msk = Some rt" "rt_filepath rt = None"
    and d: "described (rt_fp rt) proto resp (?call m msk path qs proto hs) (w_user w) u"
    unfolding served_def by blast
  from d obtain f where f: "rt_fp rt = Route_fn f"
    "\<And>mem req res. ?call m msk path qs proto hs (mem, req) \<Longrightarrow> ready_response res \<Longrightarrow>
       \<exists>res' rhs. f mem req res (w_user w) = Some (0, res', u)
          \<and> headers_are mem (rs_headers res') rhs \<and> lines_short proto rhs res' \<and> body_ok res' \<and> reusable_response res'
          \<and> response_text proto rhs res' = resp"
    by (auto simp: described_def)
  obtain fr where fr: "conn_frame (sv_mem env) i c = Some fr" "ready_frame fr" using c(1) by (auto simp: started_conn_def)
  then have r: "fresh_request (fr_req fr)" "ready_response (fr_res fr)" by (simp_all add: ready_frame_def)
  obtain fs where fs: "fr_fresstr fr = Some fs" "string_exact fs" "contents fs = []" "str_capacity fs = 2 ^ 20"
    using fr(2) by (auto simp: ready_frame_def empty_str_def)
  obtain str zs where str: "receive text c = c\<lparr>cn_str := Some str\<rparr>" "conn_block str" "str_buf str = text @ NUL # zs"
    using receive_text [OF c(1) q(1)] by blast
  obtain res rhs where res: "f (parsed_text m path qs proto hs @ NUL # zs)
      (parsed_request (fr_req fr) m msk path qs proto hs) (fr_res fr) (w_user w) = Some (0, res, u)"
    "headers_are (parsed_text m path qs proto hs @ NUL # zs) (rs_headers res) rhs" "lines_short proto rhs res"
    "body_ok res" "reusable_response res" "response_text proto rhs res = resp"
    using f(2) [OF _ r(2), of "parsed_text m path qs proto hs @ NUL # zs" "parsed_request (fr_req fr) m msk path qs proto hs"]
      r(1) by auto
  let ?c = "c\<lparr>cn_str := Some str\<rparr>"
  have st: "cn_fd c = int i" "cn_total_steps c = 0" "cn_cur_steps c = 0" using c(1) by (simp_all add: started_conn_def)
  have cap: "length (response_text proto rhs res) < unat (str_capacity fs)"
    using q(2) res(6) fs(4) unat_two_power [of 20] by simp
  obtain s' where s': "extended fs resp s'"
    "handler_body env i (int (length text)) fr (?c, w)
        = Some (\<lparr>fr_req = parsed_request (fr_req fr) m msk path qs proto hs, fr_res = res, fr_fresstr = Some s'\<rparr>,
            ?c\<lparr>cn_str := Some (str\<lparr>str_buf := parsed_text m path qs proto hs @ NUL # zs\<rparr>),
              cn_action := IO_URING_OP_SEND, cn_total_steps := 1\<rparr>,
            w\<lparr>w_user := u, w_ring := w_ring w @ [\<lparr>sq_op = Op_send (int i) (str_buf s')
                (of_nat (length resp)) 0, sq_user = Some i, sq_flags = 0\<rparr>]\<rparr>)"
    using answer_round [OF q(4,5), of ?c str zs fr fs env rt f w res u rhs i] c(2) st str r fs(1-3) rt f(1) res build cap
    by (auto simp: q(3))
  have "resume_connection env i (int (length text)) (?c, w) =
     (handler_body env i (int (length text)) fr (?c, w) \<bind> (\<lambda>(f', conn, w). Some (conn\<lparr>cn_coro := Some (Co_suspended f')\<rparr>, w)))"
    using fr(1) by (auto simp: resume_connection_def conn_frame_def split: option.splits co.splits)
  moreover have "tables_ok (parsed_request (fr_req fr) m msk path qs proto hs)" by (rule parsed_tables_ok [OF r(1)])
  moreover have "conn_block (str\<lparr>str_buf := parsed_text m path qs proto hs @ NUL # zs\<rparr>)"
    using str(2,3) q(3) parsed_text_length [of m path qs proto hs] by (simp add: conn_block_def)
  moreover have "string_wf s'" "str_capacity s' = 2 ^ 20" "upto_nul (str_buf s') = resp"
    using s'(1) fs(3,4) by (simp_all add: extended_def string_exact_def contents_def)
  ultimately show ?thesis using s'(2) st res(5) str(1)
    by (intro exI [of _ "?c\<lparr>cn_str := Some (str\<lparr>str_buf := parsed_text m path qs proto hs @ NUL # zs\<rparr>),
        cn_action := IO_URING_OP_SEND, cn_total_steps := 1, cn_coro := Some (Co_suspended
          \<lparr>fr_req = parsed_request (fr_req fr) m msk path qs proto hs, fr_res = res, fr_fresstr = Some s'\<rparr>)\<rparr>"]
      exI [of _ "\<lparr>sq_op = Op_send (int i) (str_buf s') (of_nat (length resp)) 0, sq_user = Some i, sq_flags = 0\<rparr>"])
      (simp add: answered_conn_def is_send_def)
qed


lemma send_stage:
  assumes c: "answered_conn i c"
  shows "\<exists>c'. resume_connection env i r (c, w)
       = Some (c', w\<lparr>w_kst := snd (sys_close (se_kern (sv_static env)) (int i) (w_kst w))\<rparr>)
     \<and> started_conn mem i c' \<and> cn_action c' = IO_URING_OP_SEND"
proof -
  obtain s fr fs where s: "cn_str c = Some s" "conn_block s"
    and fr: "cn_coro c = Some (Co_suspended fr)" "tables_ok (fr_req fr)" "reusable_response (fr_res fr)"
      "fr_fresstr fr = Some fs" "string_wf fs" "str_capacity fs = 2 ^ 20"
    using c by (auto simp: answered_conn_def)
  have st: "cn_fd c = int i" "cn_action c = IO_URING_OP_SEND" "cn_cur_steps c = 0" "cn_total_steps c = 1"
    using c by (auto simp: answered_conn_def)
  let ?c = "c\<lparr>cn_cur_steps := 1\<rparr>"
  obtain fr' s' where r: "reset_case env fr (?c, w) = Some (fr', ?c\<lparr>cn_cur_steps := 0, cn_total_steps := 0, cn_str := Some s'\<rparr>,
       w\<lparr>w_kst := snd (sys_close (se_kern (sv_static env)) (int i) (w_kst w))\<rparr>)" "ready_frame fr'" "blank (Some s')"
    using reset_ready [OF fr(2-6), of ?c s env w] s st(1) by auto
  have "handler_body env i r fr (c, w) = reset_case env fr (?c, w)"
    using st by (simp add: handler_body_def to_int_id)
  with r st fr(1) show ?thesis by (simp add: resume_connection_def started_conn_def conn_frame_def)
qed

section \<open>Sessions\<close>

text \<open>
  One client on descriptor \<open>i\<close> that sends \<open>bytes\<close>: the completions of \<open>accept\<close>, \<open>recv\<close> and
  of the send are processed in turn, each after the queued entries have been submitted; the
  result holds the entries queued in answer to the bytes. \<^term>\<open>None\<close> where a step is undefined or the
  process exits.
\<close>

definition running :: "'a outcome option \<Rightarrow> 'a option" where
  "running x = (case x of Some (Running y) \<Rightarrow> Some y | _ \<Rightarrow> None)"

definition session ::
  "('k, 'u) server_env \<Rightarrow> nat \<Rightarrow> string \<Rightarrow> int \<Rightarrow> conns \<times> ('k, 'u) world \<Rightarrow> (ring \<times> conns \<times> ('k, 'u) world) option"
where
  "session env i bytes r st =
     do {
       (conns1, w1) \<leftarrow> running (process_cqe True env \<lparr>cq_user = Some (sv_listen env), cq_res = int i\<rparr> st);
       (conns2, w2) \<leftarrow> running (process_cqe True env \<lparr>cq_user = Some i, cq_res = int (length bytes)\<rparr>
                         (conns1(i := receive bytes (conns1 i)), w1\<lparr>w_ring := []\<rparr>));
       (conns3, w3) \<leftarrow> running (process_cqe True env \<lparr>cq_user = Some i, cq_res = r\<rparr> (conns2, w2\<lparr>w_ring := []\<rparr>));
       Some (w_ring w2, conns3, w3)
     }"

fun sessions ::
  "('k, 'u) server_env \<Rightarrow> nat \<Rightarrow> (string \<times> int) list \<Rightarrow> conns \<times> ('k, 'u) world
     \<Rightarrow> (ring list \<times> conns \<times> ('k, 'u) world) option"
where
  "sessions env i [] st = Some ([], st)"
| "sessions env i ((bytes, r) # cs) st =
     do {
       (out, st1) \<leftarrow> session env i bytes r st;
       (outs, st2) \<leftarrow> sessions env i cs st1;
       Some (out # outs, st2)
     }"

text \<open>
  A server between two clients of descriptor \<open>i\<close>, with the entries that are queued: a build
  without \<open>WATCH_STATIC_FILES\<close>, memory that is granted, and room in the submission queue for
  two more entries now and after a submission has emptied it.
\<close>

definition between ::
  "('k, 'u) server_env \<Rightarrow> nat \<Rightarrow> conns \<Rightarrow> ring \<Rightarrow> bool"
where
  "between env i conns ring \<longleftrightarrow> i \<noteq> sv_listen env \<and> i < sv_nfds env \<and> idle_conn (sv_mem env) i (conns i)
     \<and> cn_action (conns (sv_listen env)) = IO_URING_OP_ACCEPT
     \<and> (\<forall>n. me_alloc (sv_mem env) n) \<and> room_for_two env ring \<and> room_for_two env [] \<and> \<not> sv_watch env"

lemma process_resume:
  assumes "cn_action (conns i) \<noteq> IO_URING_OP_ACCEPT" and "resume_connection env i v (conns i, w) = Some (c, w')"
  shows "process_cqe a env \<lparr>cq_user = Some i, cq_res = v\<rparr> (conns, w) = Some (Running (conns(i := c), w'))"
  using assms by (simp add: process_cqe_def)

lemma session_step:
  assumes b: "between env i conns (w_ring w)" and t: "served env text resp (w_user w) u"
  shows "\<exists>c e w'. session env i text r (conns, w) = Some ([e], conns(i := c), w')
     \<and> is_send i resp e \<and> w_user w' = u \<and> between env i (conns(i := c)) (w_ring w') \<and> w_ring w' = []
     \<and> w_kst w' = snd (sys_close (se_kern (sv_static env)) (int i) (w_kst w))"
proof -
  have i: "i \<noteq> sv_listen env" and build: "\<not> sv_watch env" "sv_slot env []"
    using b by (simp_all add: between_def room_for_two_def)
  obtain c1 rs where 1: "process_cqe True env \<lparr>cq_user = Some (sv_listen env), cq_res = int i\<rparr> (conns, w)
       = Some (Running (conns(i := c1), w\<lparr>w_ring := w_ring w @ rs\<rparr>))"
    "started_conn (sv_mem env) i c1" "cn_action c1 = IO_URING_OP_RECV"
    using b accept_stage [where env = env and i = i and conns = conns and w = w] by (auto simp: between_def)
  let ?w = "w\<lparr>w_ring := []\<rparr>"
  obtain c2 e where 2: "resume_connection env i (int (length text)) (receive text c1, ?w)
       = Some (c2, ?w\<lparr>w_user := u, w_ring := [e]\<rparr>)" "is_send i resp e" "answered_conn i c2"
    using recv_stage [OF 1(2,3), of "text" resp ?w u] t build by auto
  let ?w2 = "w\<lparr>w_user := u, w_ring := []\<rparr>"
  obtain c3 where 3: "resume_connection env i r (c2, ?w2)
       = Some (c3, ?w2\<lparr>w_kst := snd (sys_close (se_kern (sv_static env)) (int i) (w_kst w))\<rparr>)"
     "started_conn (sv_mem env) i c3" "cn_action c3 = IO_URING_OP_SEND"
    using send_stage [OF 2(3), of env r ?w2 "sv_mem env"] by auto
  have "cn_action (receive text c1) = IO_URING_OP_RECV" using 1(3) by (simp add: receive_def split: option.splits)
  with 2(1) have p2: "process_cqe True env \<lparr>cq_user = Some i, cq_res = int (length text)\<rparr> (conns(i := receive text c1), ?w)
      = Some (Running (conns(i := c2), ?w\<lparr>w_user := u, w_ring := [e]\<rparr>))"
    using process_resume [of "conns(i := receive text c1)" i env] by simp
  have "cn_action c2 = IO_URING_OP_SEND" using 2(3) by (auto simp: answered_conn_def)
  with 3(1) have p3: "process_cqe True env \<lparr>cq_user = Some i, cq_res = r\<rparr> (conns(i := c2), ?w2)
      = Some (Running (conns(i := c3), ?w2\<lparr>w_kst := snd (sys_close (se_kern (sv_static env)) (int i) (w_kst w))\<rparr>))"
    using process_resume [of "conns(i := c2)" i env] by simp
  have "between env i (conns(i := c3)) []" using b i 3(2,3) by (auto simp: between_def idle_conn_def)
  with 1(1) p2 p3 2(2) show ?thesis by (intro exI [of _ c3] exI [of _ e]) (simp add: session_def running_def)
qed


section \<open>Properties\<close>

text \<open>
  The clients that follow each other: the request of each, the response the handler
  describes in the state the earlier ones left, and the result of the send.
\<close>

fun served_all :: "('k, 'u) server_env \<Rightarrow> (string \<times> string \<times> int) list \<Rightarrow> 'u \<Rightarrow> 'u \<Rightarrow> bool" where
  "served_all env [] u u' \<longleftrightarrow> u' = u"
| "served_all env ((t, resp, r) # cs) u u' \<longleftrightarrow> (\<exists>v. served env t resp u v \<and> served_all env cs v u')"

lemma sessions_run:
  assumes "between env i conns (w_ring w)" and "served_all env cs (w_user w) u"
  shows "\<exists>outs c w'. sessions env i (map (\<lambda>(t, _, r). (t, r)) cs) (conns, w) = Some (outs, conns(i := c), w')
     \<and> list_all2 (\<lambda>(_, resp, _) out. \<exists>e. out = [e] \<and> is_send i resp e) cs outs
     \<and> w_user w' = u \<and> between env i (conns(i := c)) (w_ring w')
     \<and> w_kst w' = ((\<lambda>k. snd (sys_close (se_kern (sv_static env)) (int i) k)) ^^ length cs) (w_kst w)"
  using assms
proof (induction cs arbitrary: conns w)
  case Nil
  then show ?case by (intro exI [of _ "[]"] exI [of _ "conns i"] exI [of _ w]) simp
next
  case (Cons x cs)
  obtain t resp r where x: "x = (t, resp, r)" by (cases x)
  with Cons.prems obtain v where v: "served env t resp (w_user w) v" "served_all env cs v u" by auto
  obtain c e w1 where s: "session env i t r (conns, w) = Some ([e], conns(i := c), w1)" "is_send i resp e"
    "w_user w1 = v" "between env i (conns(i := c)) (w_ring w1)" "w_kst w1 = snd (sys_close (se_kern (sv_static env)) (int i) (w_kst w))"
    using session_step [OF Cons.prems(1) v(1)] by blast
  from Cons.IH [OF s(4)] v(2) s(3) obtain outs c' w' where
    "sessions env i (map (\<lambda>(t, _, r). (t, r)) cs) (conns(i := c), w1) = Some (outs, (conns(i := c))(i := c'), w')"
    "list_all2 (\<lambda>(_, resp, _) out. \<exists>e. out = [e] \<and> is_send i resp e) cs outs" "w_user w' = u"
    "between env i ((conns(i := c))(i := c')) (w_ring w')"
    "w_kst w' = ((\<lambda>k. snd (sys_close (se_kern (sv_static env)) (int i) k)) ^^ length cs) (w_kst w1)" by blast
  with s x show ?case
    by (intro exI [of _ "[e] # outs"] exI [of _ c'] exI [of _ w']) (simp add: funpow_Suc_right del: funpow.simps fun_upd_apply)
qed

text \<open>
  C2. Any number of clients served one after the other on the same descriptor: each one's
  well-formed request is answered with exactly one send of the response its handler
  describes, in the state the earlier requests left the application in; then the descriptor
  is closed, and the connection is again as before the first client. The first session may
  be the first use of the connection, in which the loop prepares it and starts its
  coroutine. This is the build without \<open>WATCH_STATIC_FILES\<close> (CMake's default build, Debug,
  defines it), with an allocator that grants every request and a submission queue that has
  room for two entries.
\<close>

theorem sessions_served:
  assumes "between env i conns (w_ring w)" and "served_all env cs (w_user w) u"
  shows "\<exists>outs c w'. sessions env i (map (\<lambda>(t, _, r). (t, r)) cs) (conns, w) = Some (outs, conns(i := c), w')
     \<and> list_all2 (\<lambda>(_, resp, _) out. \<exists>e. out = [e] \<and> is_send i resp e) cs outs
     \<and> w_user w' = u \<and> between env i (conns(i := c)) (w_ring w')
     \<and> w_kst w' = ((\<lambda>k. snd (sys_close (se_kern (sv_static env)) (int i) k)) ^^ length cs) (w_kst w)"
  using assms by (rule sessions_run)


definition hi_request :: string where
  "hi_request = request_text ''GET'' ''/a'' [] ''HTTP/1.1'' []"

lemma hi_described:
  "described (Route_fn (\<lambda>mem req res u. Some (0, res\<lparr>rs_file := Some ''hi'', rs_file_sz := 2\<rparr>, u))) ''HTTP/1.1''
     (response_text ''HTTP/1.1'' [] hello_response) call u u"
proof -
  have "headers_are mem (rs_headers r) [] \<and> lines_short ''HTTP/1.1'' [] r \<and> body_ok r \<and> reusable_response r
      \<and> response_text ''HTTP/1.1'' [] r = response_text ''HTTP/1.1'' [] hello_response"
    if "ready_response res" and "r = res\<lparr>rs_file := Some ''hi'', rs_file_sz := 2\<rparr>" for res r mem
    using that by (auto simp: ready_response_def empty_table_def empty_str_def headers_are_def kv_provided_def lines_short_def
        status_line_def response_status_def fmt_d_def dec_nat.simps body_ok_def response_body_def reusable_response_def
        string_exact_def response_text_def response_length_def hello_response_def)
  then show ?thesis unfolding described_def by blast
qed

theorem sessions_served_witness:
  "\<exists>outs c w'. sessions hi_env 5 [(hi_request, 41), (hi_request, - 32)] (demo_conns, hi_world) = Some (outs, demo_conns(5 := c), w')
     \<and> list_all2 (\<lambda>resp out. \<exists>e. out = [e] \<and> is_send 5 resp e)
         (replicate 2 (response_text ''HTTP/1.1'' [] hello_response)) outs"
proof -
  let ?resp = "response_text ''HTTP/1.1'' [] hello_response"
  have ok: "request_ok ''/a'' [] ''HTTP/1.1'' []" "(''GET'', METHOD_GET) \<in> set method_names"
    by (simp_all add: request_ok_def free_of_def method_names_def)
  have len: "length hi_request < 2 ^ 21" "length ?resp < 2 ^ 20"
    by (simp_all add: hi_request_def request_text_def target_text_def hello_response_text)
  obtain rt where rt: "find_router (sv_routes hi_env) ''/a'' METHOD_GET = Some rt" "rt_filepath rt = None"
    "rt_fp rt = Route_fn (\<lambda>mem req res u. Some (0, res\<lparr>rs_file := Some ''hi'', rs_file_sz := 2\<rparr>, u))"
    by (simp add: hi_env_def route_matches_def ROUTER_def METHOD_defs)
  have "described (rt_fp rt) ''HTTP/1.1'' ?resp call u u" for call u
    unfolding rt(3) by (rule hi_described)
  with servedI [OF ok len(1) [unfolded hi_request_def] len(2) rt(1,2)] have "served hi_env hi_request ?resp u u" for u
    by (simp add: hi_request_def)
  then have all: "served_all hi_env [(hi_request, ?resp, 41), (hi_request, ?resp, - 32)] (w_user hi_world) ()" by simp
  have "between hi_env 5 demo_conns (w_ring hi_world)"
    by (simp add: between_def room_for_two_def hi_env_def idle_conn_def demo_conns_def zero_conn_def some_env_def)
  from sessions_served [OF this all] obtain outs c w' where
    "sessions hi_env 5 [(hi_request, 41), (hi_request, - 32)] (demo_conns, hi_world) = Some (outs, demo_conns(5 := c), w')"
    "list_all2 (\<lambda>(_, resp, _) out. \<exists>e. out = [e] \<and> is_send 5 resp e)
       [(hi_request, ?resp, 41 :: int), (hi_request, ?resp, - 32)] outs" by (auto simp del: sessions.simps)
  then show ?thesis
    by (intro exI [of _ outs] exI [of _ c] exI [of _ w']) (auto simp: numeral_2_eq_2 list_all2_Cons1 simp del: sessions.simps)
qed

end
