(* ===== verification/Sample_App.thy ===== *)
theory Sample_App
  imports Session
begin

text \<open>
  The application of \<open>tests/socket.c\<close>: two handlers and two static files. The state of the
  application is the pair of static variables of the handler of \<open>/fib\<close>. The handlers are
  run through the whole server: each client of \<open>/fib\<close> gets the next Fibonacci number, until
  the sum leaves the range of \<open>long\<close>.
\<close>

section \<open>Model\<close>

text \<open>The addition of two \<open>long\<close>; an overflow is undefined.\<close>

definition add_long :: "int \<Rightarrow> int \<Rightarrow> int option" where
  "add_long a b = (if - (2 ^ 63) \<le> a + b \<and> a + b < 2 ^ 63 then Some (a + b) else None)"

text \<open>\<open>ROUTER(GET, /fib)\<close>; the array \<open>content\<close> is not initialised.\<close>

definition fib_handler ::
  "mem_env \<Rightarrow> cbuf \<Rightarrow> http_request \<Rightarrow> http_response \<Rightarrow> int \<times> int \<Rightarrow> (int \<times> http_response \<times> int \<times> int) option"
where
  "fib_handler env mem request response st =
     (case st of (a, b) \<Rightarrow> do {
        res \<leftarrow> add_long a b;
        content \<leftarrow> sprintf (map (me_fill env) [0..<100]) (fmt_d res @ [LF]);
        n \<leftarrow> strlen content 0;
        response \<leftarrow> APPEND_RES_BODY env response content (of_nat n);
        response \<leftarrow> SET_RES_MIME env response ''text/plain'';
        Some (0, response\<lparr>rs_status := 200\<rparr>, b, res)
      })"

text \<open>\<open>ROUTER(GET, /simple/y)\<close>\<close>

definition simple_y_handler ::
  "mem_env \<Rightarrow> cbuf \<Rightarrow> http_request \<Rightarrow> http_response \<Rightarrow> int \<times> int \<Rightarrow> (int \<times> http_response \<times> int \<times> int) option"
where
  "simple_y_handler env mem request response st =
     do {
       let content = ''Something interesting y...'' @ [NUL];
       n \<leftarrow> strlen content 0;
       response \<leftarrow> APPEND_RES_BODY env response content (of_nat n);
       response \<leftarrow> SET_RES_MIME env response ''text/plain'';
       response \<leftarrow> SET_RES_HEADER env response ''Header1'' ''Value1'';
       response \<leftarrow> SET_RES_HEADER env response ''Header2'' ''Value2'';
       response \<leftarrow> SET_RES_HEADER env response ''Header3'' ''Value3'';
       Some (0, response\<lparr>rs_status := 200\<rparr>, st)
     }"

text \<open>The section of the routes: those of the application, then the one of the library.\<close>

definition app_routes :: "mem_env \<Rightarrow> (int \<times> int) handler router list" where
  "app_routes env =
     [ROUTER METHOD_GET ''/fib'' (Route_fn (fib_handler env)),
      ROUTER METHOD_GET ''/simple/y'' (Route_fn (simple_y_handler env)),
      ROUTER_STATIC Global_static ''./tests/fib.html'' ''/simple/fib'',
      ROUTER_STATIC Global_static ''./tests/gccegg-65.png'' ''/gccpic'',
      route_teapot]"

section \<open>Responses built with the macros\<close>

definition plain_response :: "string \<Rightarrow> (string \<times> string) list \<Rightarrow> string \<Rightarrow> string" where
  "plain_response proto hs body =
     status_line proto 200 @ headers_text hs @ length_line (of_nat (length body)) @ [LF] @ body"

text \<open>A response under construction: some headers, some text, no file.\<close>

definition built :: "cbuf \<Rightarrow> (string \<times> string) list \<Rightarrow> string \<Rightarrow> http_response \<Rightarrow> bool" where
  "built mem hs body res \<longleftrightarrow> rs_file res = None \<and> rs_file_fd res = 0
     \<and> (\<exists>s. rs_str res = Some s \<and> string_exact s \<and> contents s = body \<and> str_capacity s = 2 ^ 21)
     \<and> headers_are mem (rs_headers res) hs \<and> kv_flag (rs_headers res) = KV_FLAG_PROVIDED
     \<and> kv_capacity (rs_headers res) = 20"

lemma built_start: "ready_response res \<Longrightarrow> built mem [] [] res"
  by (auto simp: ready_response_def built_def empty_str_def empty_table_def headers_are_def kv_provided_def)

lemma built_append:
  assumes "built mem hs body res" and "length body + length t < 2 ^ 21" and "take (length t) b = t" "NUL \<notin> set t"
    and "unat n = length t"
  shows "\<exists>res'. APPEND_RES_BODY env res b n = Some res' \<and> built mem hs (body @ t) res'"
proof -
  obtain s where s: "rs_str res = Some s" "string_exact s" "contents s = body" "str_capacity s = 2 ^ 21"
    using assms(1) by (auto simp: built_def)
  have "length (contents s) + length t < unat (str_capacity s)"
    using assms(2) s(3,4) unat_conn_capacity by simp
  from append_body_ok [OF s(1,2) this assms(3-5), of env] assms(1) s(3,4) show ?thesis
    by (auto simp: built_def extended_def)
qed

lemma built_header:
  assumes "built mem hs body res" and "length hs < 20" and "NUL \<notin> set k" "NUL \<notin> set v"
  shows "\<exists>res'. SET_RES_HEADER env res k v = Some res' \<and> built mem (hs @ [(k, v)]) body res'"
proof -
  have h: "headers_are mem (rs_headers res) hs" "kv_capacity (rs_headers res) = 20" using assms(1) by (simp_all add: built_def)
  then have "0 < kv_room (rs_headers res)"
    using headers_are_nth(1) [OF h(1)] assms(2) by (simp add: kv_room_def)
  from set_header_ok [OF h(1) this assms(3,4), of env] assms(1) show ?thesis by (auto simp: built_def)
qed

lemma built_done:
  assumes "built mem hs body res" and "length proto \<le> 1000" and "\<forall>(k, v) \<in> set hs. length (header_line k v) < 1024"
    and "NUL \<notin> set body"
  defines "res' \<equiv> res\<lparr>rs_status := 200\<rparr>"
  shows "headers_are mem (rs_headers res') hs \<and> lines_short proto hs res' \<and> body_ok res' \<and> reusable_response res'
     \<and> response_text proto hs res' = plain_response proto hs body"
proof -
  obtain s where s: "rs_str res = Some s" "string_exact s" "contents s = body" "str_capacity s = 2 ^ 21"
    using assms(1) by (auto simp: built_def)
  then have "str_len s = of_nat (length body)" by (metis string_exact_def of_nat_unat ucast_id)
  with s assms show ?thesis
    by (auto simp: built_def res'_def lines_short_def status_line_def response_status_def fmt_d_def dec_nat.simps body_ok_def
        response_body_def reusable_response_def string_exact_def headers_are_def kv_provided_def plain_response_def
        response_text_def response_length_def)
qed

section \<open>The handler of \<open>/fib\<close>\<close>

fun fib :: "nat \<Rightarrow> nat" where
  "fib 0 = 0"
| "fib (Suc 0) = 1"
| "fib (Suc (Suc n)) = fib n + fib (Suc n)"

text \<open>The numbers from two neighbours on, for evaluation.\<close>

primrec fib_from :: "nat \<Rightarrow> nat \<Rightarrow> nat \<Rightarrow> nat" where
  "fib_from 0 a b = a"
| "fib_from (Suc n) a b = fib_from n b (a + b)"

lemma fib_from: "fib_from n (fib k) (fib (Suc k)) = fib (k + n)"
proof (induction n arbitrary: k)
  case (Suc n)
  from Suc [of "Suc k"] show ?case by simp
qed simp

lemma fib_from_numeral:
  "fib_from (numeral n) (numeral a) (numeral b) = fib_from (pred_numeral n) (numeral b) (numeral (a + b))"
  by (simp only: numeral_eq_Suc [of n] fib_from.simps numeral_plus_numeral)

lemma fib_limit: "fib 92 = 7540113804746346429" "fib 93 = 12200160415121876738"
proof -
  have "fib 3 = 2" "fib 4 = 3" by (simp_all add: numeral_eq_Suc)
  then have "fib (3 + n) = fib_from n 2 3" for n using fib_from [of n 3] by (simp del: fib.simps)
  from this [of 89] this [of 90] show "fib 92 = 7540113804746346429" "fib 93 = 12200160415121876738"
    by (simp_all add: fib_from_numeral del: fib.simps)
qed

lemma fib_mono: "m \<le> n \<Longrightarrow> fib m \<le> fib n"
proof -
  have "fib n \<le> fib (Suc n)" for n by (cases n) simp_all
  then show "m \<le> n \<Longrightarrow> fib m \<le> fib n" by (rule lift_Suc_mono_le)
qed

lemma fib_long: "n \<le> 92 \<Longrightarrow> fib n < 2 ^ 63"
  using fib_mono [of n 92] by (simp add: fib_limit)

lemma fib_add_long: "add_long (int (fib k)) (int (fib (Suc k))) = (if k \<le> 90 then Some (int (fib (k + 2))) else None)"
proof -
  have "int (fib k) + int (fib (Suc k)) = int (fib (k + 2))" by simp
  moreover have "fib (k + 2) < 2 ^ 63 \<longleftrightarrow> k \<le> 90"
    using fib_long [of "k + 2"] fib_mono [of 93 "k + 2"] fib_limit(2) by (cases "k \<le> 90") (simp_all del: fib.simps)
  moreover have "int (fib (k + 2)) < 2 ^ 63 \<longleftrightarrow> fib (k + 2) < 2 ^ 63" by (simp del: fib.simps)
  ultimately show ?thesis unfolding add_long_def by auto
qed

abbreviation plain_headers :: "(string \<times> string) list" where
  "plain_headers \<equiv> [(''Content-Type'', ''text/plain'')]"

definition fib_body :: "nat \<Rightarrow> string" where
  "fib_body n = dec_nat (fib n) @ [LF]"

lemma fib_body_facts:
  assumes "n \<le> 92"
  shows "length (fib_body n) \<le> 20" and "NUL \<notin> set (fib_body n)"
proof -
  have "fib n < 10 ^ 19" using fib_long [OF assms] by simp
  then show "length (fib_body n) \<le> 20" using dec_nat_length [of "fib n" 19] by (simp add: fib_body_def)
  show "NUL \<notin> set (fib_body n)" by (simp add: fib_body_def)
qed

lemma fib_handler_ok:
  assumes k: "k \<le> 90" and res: "built mem [] [] res"
  shows "\<exists>res'. fib_handler env mem req res (int (fib k), int (fib (Suc k)))
       = Some (0, res'\<lparr>rs_status := 200\<rparr>, int (fib (Suc k)), int (fib (k + 2)))
     \<and> built mem plain_headers (fib_body (k + 2)) res'"
proof -
  let ?t = "fib_body (k + 2)"
  note t = fib_body_facts [of "k + 2"]
  obtain c where c: "sprintf (map (me_fill env) [0..<100]) ?t = Some c" "take (length ?t) c = ?t" "strlen c 0 = Some (length ?t)"
    using sprintf_fits [of ?t "map (me_fill env) [0..<100]"] t k by auto
  have n: "unat (of_nat (length ?t) :: u64) = length ?t" using t(1) k by (simp add: unat_of_nat)
  obtain r1 where r1: "APPEND_RES_BODY env res c (of_nat (length ?t)) = Some r1" "built mem [] ?t r1"
    using built_append [OF res _ c(2) _ n, of env] t k by auto
  obtain r2 where r2: "SET_RES_MIME env r1 ''text/plain'' = Some r2" "built mem plain_headers ?t r2"
    using built_header [OF r1(2), of "''Content-Type''" "''text/plain''" env] by (auto simp: SET_RES_MIME_header)
  have "add_long (int (fib k)) (int (fib (Suc k))) = Some (int (fib (k + 2)))" using fib_add_long [of k] k by simp
  moreover have "fmt_d (int (fib (k + 2))) @ [LF] = ?t" by (simp add: fmt_d_def fib_body_def del: fib.simps)
  ultimately show ?thesis using c(1,3) r1(1) r2
    by (auto simp: fib_handler_def simp del: fib.simps)
qed

lemma fib_described:
  assumes k: "k \<le> 90" and p: "length proto \<le> 1000"
  shows "described (Route_fn (fib_handler env)) proto (plain_response proto plain_headers (fib_body (k + 2))) call
     (int (fib k), int (fib (Suc k))) (int (fib (Suc k)), int (fib (k + 2)))"
proof -
  have "\<exists>res' rhs. fib_handler env mem req res (int (fib k), int (fib (Suc k)))
       = Some (0, res', int (fib (Suc k)), int (fib (k + 2)))
     \<and> headers_are mem (rs_headers res') rhs \<and> lines_short proto rhs res' \<and> body_ok res' \<and> reusable_response res'
     \<and> response_text proto rhs res' = plain_response proto plain_headers (fib_body (k + 2))"
    if ready: "ready_response res" for mem req res
  proof -
    obtain r where r: "fib_handler env mem req res (int (fib k), int (fib (Suc k)))
       = Some (0, r\<lparr>rs_status := 200\<rparr>, int (fib (Suc k)), int (fib (k + 2)))"
      "built mem plain_headers (fib_body (k + 2)) r"
      using fib_handler_ok [OF k built_start [OF ready]] by blast
    have "\<forall>(k, v) \<in> set plain_headers. length (header_line k v) < 1024" by (simp add: header_line_def)
    with built_done [OF r(2) p] r(1) fib_body_facts(2) [of "k + 2"] k show ?thesis by auto
  qed
  then show ?thesis unfolding described_def by blast
qed


text \<open>Well-formed requests for \<open>/fib\<close>, with any query and any headers.\<close>

fun fib_client :: "(string \<times> string) list \<times> string \<times> (string \<times> string) list \<times> int \<Rightarrow> bool" where
  "fib_client (qs, proto, hs, r) \<longleftrightarrow> request_ok ''/fib'' qs proto hs \<and> length proto \<le> 1000
     \<and> length (request_text ''GET'' ''/fib'' qs proto hs) < 2 ^ 21"

fun fib_exchange ::
  "nat \<Rightarrow> (string \<times> string) list \<times> string \<times> (string \<times> string) list \<times> int \<Rightarrow> string \<times> string \<times> int"
where
  "fib_exchange n (qs, proto, hs, r) =
     (request_text ''GET'' ''/fib'' qs proto hs, plain_response proto plain_headers (fib_body (n + 2)), r)"

lemma fib_route: "find_router (app_routes env) ''/fib'' METHOD_GET = Some (ROUTER METHOD_GET ''/fib'' (Route_fn (fib_handler env)))"
  by (simp add: app_routes_def route_matches_def ROUTER_def METHOD_defs)

lemma plain_response_length:
  assumes "length proto \<le> 1000" and "length body \<le> 1000"
  shows "length (plain_response proto plain_headers body) < 2 ^ 20"
  using assms length_line_short [of "of_nat (length body)"]
  by (simp add: plain_response_def status_line_def headers_text_def header_line_def fmt_d_def dec_nat.simps)

lemma fib_served:
  assumes "sv_routes env = app_routes mem" and k: "k \<le> 90" and c: "fib_client (qs, proto, hs, r)"
  shows "served env (request_text ''GET'' ''/fib'' qs proto hs) (plain_response proto plain_headers (fib_body (k + 2)))
     (int (fib k), int (fib (Suc k))) (int (fib (Suc k)), int (fib (k + 2)))"
proof (rule servedI)
  show "request_ok ''/fib'' qs proto hs" "length (request_text ''GET'' ''/fib'' qs proto hs) < 2 ^ 21" using c by simp_all
  show "(''GET'', METHOD_GET) \<in> set method_names" by (simp add: method_names_def)
  show "length (plain_response proto plain_headers (fib_body (k + 2))) < 2 ^ 20"
    using plain_response_length fib_body_facts(1) [of "k + 2"] k c by simp
  show "find_router (sv_routes env) ''/fib'' METHOD_GET = Some (ROUTER METHOD_GET ''/fib'' (Route_fn (fib_handler mem)))"
    using fib_route assms(1) by simp
  show "rt_filepath (ROUTER METHOD_GET ''/fib'' (Route_fn (fib_handler mem))) = None" by (simp add: ROUTER_def)
  have "described (Route_fn (fib_handler mem)) proto (plain_response proto plain_headers (fib_body (k + 2))) call
     (int (fib k), int (fib (Suc k))) (int (fib (Suc k)), int (fib (k + 2)))" for call
    using fib_described k c by simp
  then show "described (rt_fp (ROUTER METHOD_GET ''/fib'' (Route_fn (fib_handler mem)))) proto
     (plain_response proto plain_headers (fib_body (k + 2))) call
     (int (fib k), int (fib (Suc k))) (int (fib (Suc k)), int (fib (k + 2)))" for call
    by (simp add: ROUTER_def)
qed

lemma fib_served_all:
  assumes "sv_routes env = app_routes mem" and "k + length cs \<le> 91" and "\<forall>c \<in> set cs. fib_client c"
  shows "served_all env (map2 fib_exchange [k..<k + length cs] cs)
     (int (fib k), int (fib (Suc k))) (int (fib (k + length cs)), int (fib (Suc (k + length cs))))"
  using assms(2,3)
proof (induction cs arbitrary: k)
  case (Cons c cs)
  obtain qs proto hs r where c: "c = (qs, proto, hs, r)" by (cases c) auto
  have "served env (request_text ''GET'' ''/fib'' qs proto hs) (plain_response proto plain_headers (fib_body (k + 2)))
     (int (fib k), int (fib (Suc k))) (int (fib (Suc k)), int (fib (k + 2)))"
    using Cons.prems c by (intro fib_served [OF assms(1)]) auto
  moreover have "served_all env (map2 fib_exchange [Suc k..<Suc k + length cs] cs)
     (int (fib (Suc k)), int (fib (Suc (Suc k)))) (int (fib (Suc k + length cs)), int (fib (Suc (Suc k + length cs))))"
    using Cons.prems by (intro Cons.IH) auto
  moreover have "[k..<k + length (c # cs)] = k # [Suc k..<Suc k + length cs]"
    by (simp add: upt_conv_Cons del: upt_Suc)
  ultimately show ?case using c by (auto simp del: fib.simps upt_Suc)
qed simp


section \<open>Properties\<close>

text \<open>
  C13. The sample application through the whole server: of up to 91 clients that ask for
  \<open>/fib\<close> one after the other, with any query and any headers, the \<open>n\<close>-th gets a response
  with status 200, the type \<open>text/plain\<close>, the length of the body, and the body that is the
  decimal notation of the Fibonacci number \<open>n + 1\<close> and a line feed. The scope is that of the
  sessions: the build without \<open>WATCH_STATIC_FILES\<close>, memory that is granted, and room in the
  submission queue.
\<close>

theorem fib_clients_served:
  assumes "between env i conns (w_ring w)" and "sv_routes env = app_routes mem" and "w_user w = (0, 1)"
    and "length cs \<le> 91" and "\<forall>c \<in> set cs. fib_client c"
  shows "\<exists>outs c w'. sessions env i (map (\<lambda>(qs, proto, hs, r). (request_text ''GET'' ''/fib'' qs proto hs, r)) cs) (conns, w)
       = Some (outs, conns(i := c), w')
     \<and> list_all2 (\<lambda>(n, qs, proto, hs, r) out. \<exists>e. out = [e]
          \<and> is_send i (plain_response proto plain_headers (dec_nat (fib (n + 1)) @ [LF])) e)
         (zip [1..<Suc (length cs)] cs) outs"
proof -
  let ?xs = "map2 fib_exchange [0..<length cs] cs"
  have "served_all env ?xs (w_user w) (int (fib (length cs)), int (fib (Suc (length cs))))"
    using fib_served_all [OF assms(2), of 0 cs] assms(3-5) by simp
  from sessions_run [OF assms(1) this] obtain outs c w' where
    r: "sessions env i (map (\<lambda>(t, _, r). (t, r)) ?xs) (conns, w) = Some (outs, conns(i := c), w')"
    "list_all2 (\<lambda>(_, resp, _) out. \<exists>e. out = [e] \<and> is_send i resp e) ?xs outs" by blast
  have "map (\<lambda>(t, _, r). (t, r)) ?xs = map (\<lambda>(qs, proto, hs, r). (request_text ''GET'' ''/fib'' qs proto hs, r)) cs"
    by (auto intro!: nth_equalityI split: prod.splits)
  moreover have "list_all2 (\<lambda>(n, qs, proto, hs, r) out. \<exists>e. out = [e]
          \<and> is_send i (plain_response proto plain_headers (dec_nat (fib (n + 1)) @ [LF])) e)
         (zip [1..<Suc (length cs)] cs) outs"
    using r(2) unfolding list_all2_conv_all_nth
    by (auto simp: fib_body_def simp del: fib.simps upt_Suc split: prod.splits)
  ultimately show ?thesis using r(1) by auto
qed


definition app_env :: "(unit, int \<times> int) server_env" where
  "app_env = \<lparr>sv_watch = False, sv_mem = some_env, sv_static = demo_static_env, sv_routes = app_routes some_env,
     sv_slot = (\<lambda>_. True), sv_pipefds = (0, 0), sv_listen = 3, sv_nfds = 16\<rparr>"

definition app_world :: "(unit, int \<times> int) world" where
  "app_world = \<lparr>w_ring = [], w_kst = (), w_data = Map_null, w_user = (0, 1)\<rparr>"

lemma app_between: "between app_env 5 demo_conns (w_ring app_world)"
  by (simp add: between_def room_for_two_def app_env_def idle_conn_def demo_conns_def zero_conn_def some_env_def)

lemma app_facts: "sv_routes app_env = app_routes some_env" "w_user app_world = (0, 1)"
  by (simp_all add: app_env_def app_world_def)

definition plain_client :: "(string \<times> string) list \<times> string \<times> (string \<times> string) list \<times> int" where
  "plain_client = ([], ''HTTP/1.1'', [], 90)"

lemma plain_client_ok: "fib_client plain_client"
  by (simp add: plain_client_def request_ok_def free_of_def request_text_def target_text_def)

theorem fib_clients_served_witness:
  "\<exists>outs c w'. sessions app_env 5 (replicate 3 (request_text ''GET'' ''/fib'' [] ''HTTP/1.1'' [], 90)) (demo_conns, app_world)
       = Some (outs, demo_conns(5 := c), w')
     \<and> (\<exists>e. outs ! 2 = [e] \<and> is_send 5 (plain_response ''HTTP/1.1'' plain_headers (''3'' @ [LF])) e)"
proof -
  let ?cs = "replicate 3 plain_client"
  have "fib (Suc (Suc (Suc (Suc 0)))) = 3" by simp
  then have d: "dec_nat (fib (Suc (Suc (Suc (Suc 0))))) = ''3''"
    by (simp add: dec_nat.simps char_of_def bit_0 del: fib.simps)
  have m: "map (\<lambda>(qs, proto, hs, r). (request_text ''GET'' ''/fib'' qs proto hs, r)) ?cs
      = replicate 3 (request_text ''GET'' ''/fib'' [] ''HTTP/1.1'' [], 90)" by (simp add: plain_client_def)
  from fib_clients_served [OF app_between app_facts, of ?cs] plain_client_ok obtain outs c w' where
    r: "sessions app_env 5 (replicate 3 (request_text ''GET'' ''/fib'' [] ''HTTP/1.1'' [], 90)) (demo_conns, app_world)
       = Some (outs, demo_conns(5 := c), w')"
    "list_all2 (\<lambda>(n, qs, proto, hs, r) out. \<exists>e. out = [e]
          \<and> is_send 5 (plain_response proto plain_headers (dec_nat (fib (n + 1)) @ [LF])) e) (zip [1..<Suc 3] ?cs) outs"
    unfolding m by (auto simp del: upt_Suc replicate.simps fib.simps)
  from list_all2_nthD [OF r(2), of 2] d have "\<exists>e. outs ! 2 = [e] \<and> is_send 5 (plain_response ''HTTP/1.1'' plain_headers (''3'' @ [LF])) e"
    by (simp add: plain_client_def del: upt_Suc replicate.simps fib.simps)
  with r(1) show ?thesis by blast
qed

lemma recv_undefined:
  assumes c: "started_conn (sv_mem env) i c" "cn_action c = IO_URING_OP_RECV"
    and req: "request_ok path qs proto hs" "(m, msk) \<in> set method_names" "length (request_text m path qs proto hs) < 2 ^ 21"
    and rt: "find_router (sv_routes env) path msk = Some rt" "rt_filepath rt = None" "rt_fp rt = Route_fn f"
    and f: "\<And>mem req res. f mem req res (w_user w) = None"
  shows "resume_connection env i (int (length (request_text m path qs proto hs))) (receive (request_text m path qs proto hs) c, w) = None"
proof -
  let ?t = "request_text m path qs proto hs"
  obtain fr where fr: "conn_frame (sv_mem env) i c = Some fr" "fresh_request (fr_req fr)"
    using c(1) by (auto simp: started_conn_def ready_frame_def)
  obtain str zs where str: "receive ?t c = c\<lparr>cn_str := Some str\<rparr>" "conn_block str" "str_buf str = ?t @ NUL # zs"
    using receive_text [OF c(1) req(3)] by blast
  let ?req = "parsed_request (fr_req fr) m msk path qs proto hs" and ?mem = "parsed_text m path qs proto hs @ NUL # zs"
  let ?c = "c\<lparr>cn_str := Some str\<rparr>"
  obtain p where p: "rq_path ?req = Some p" "deref ?mem p = Some path" using parsed_pointers [OF req(1) fr(2)] by blast
  then have "answer_request env i (fr\<lparr>fr_req := ?req\<rparr>) ?mem (x, w) = None" for x
    using rt f by (simp add: answer_request_def call_handler_def)
  then have "handler_body env i (int (length ?t)) fr (?c, w) = None"
    using recv_case_text [OF req(1,2), of ?c str zs fr env i w] str fr(2) c(2) by (simp add: handler_body_def)
  then show ?thesis
    using fr(1) str(1) by (auto simp: resume_connection_def conn_frame_def split: option.splits co.splits)
qed


lemma sessions_append:
  "sessions env i (xs @ ys) st = do {
     (outs, st1) \<leftarrow> sessions env i xs st;
     (outs', st2) \<leftarrow> sessions env i ys st1;
     Some (outs @ outs', st2)
   }"
  by (induction env i xs st rule: sessions.induct) (auto simp: bind_eq_Some_conv split: Option.bind_splits)

lemma fib_overflow_session:
  assumes b: "between env i conns (w_ring w)" and routes: "sv_routes env = app_routes mem" and k: "90 < k"
    and u: "w_user w = (int (fib k), int (fib (Suc k)))" and c: "fib_client (qs, proto, hs, r)"
  shows "session env i (request_text ''GET'' ''/fib'' qs proto hs) r (conns, w) = None"
proof -
  let ?t = "request_text ''GET'' ''/fib'' qs proto hs"
  obtain c1 rs where 1: "process_cqe True env \<lparr>cq_user = Some (sv_listen env), cq_res = int i\<rparr> (conns, w)
       = Some (Running (conns(i := c1), w\<lparr>w_ring := w_ring w @ rs\<rparr>))"
    "started_conn (sv_mem env) i c1" "cn_action c1 = IO_URING_OP_RECV"
    using b accept_stage [where env = env and i = i and conns = conns and w = w] by (auto simp: between_def)
  have "fib_handler mem bytes req res (int (fib k), int (fib (Suc k))) = None" for bytes req res
    using fib_add_long [of k] k by (simp add: fib_handler_def del: fib.simps)
  moreover have "(''GET'', METHOD_GET) \<in> set method_names" by (simp add: method_names_def)
  ultimately have "resume_connection env i (int (length ?t)) (receive ?t c1, w\<lparr>w_ring := []\<rparr>) = None"
    using fib_route [of mem] routes u c
    by (intro recv_undefined [OF 1(2,3), where f = "fib_handler mem"]) (auto simp: ROUTER_def simp del: fib.simps)
  moreover have "cn_action (receive ?t c1) = IO_URING_OP_RECV" using 1(3) by (simp add: receive_def split: option.splits)
  ultimately show ?thesis using 1(1) by (simp add: session_def running_def process_cqe_def)
qed


text \<open>
  C38. The sample application cannot serve a 92nd client of \<open>/fib\<close>: where it can serve the
  91 before (the build without \<open>WATCH_STATIC_FILES\<close>, memory granted, room in the submission
  queue), the sum its handler computes for the next exceeds the range of \<open>long\<close>, so that the
  behaviour of the server from there on is undefined.
\<close>

theorem fib_clients_limit:
  assumes "between env i conns (w_ring w)" and "sv_routes env = app_routes mem" and "w_user w = (0, 1)"
    and "length cs = 92" and "\<forall>c \<in> set cs. fib_client c"
  shows "sessions env i (map (\<lambda>(qs, proto, hs, r). (request_text ''GET'' ''/fib'' qs proto hs, r)) cs) (conns, w) = None"
proof -
  let ?f = "\<lambda>(qs, proto, hs, r). (request_text ''GET'' ''/fib'' qs proto hs, r)"
  obtain xs c where cs: "cs = xs @ [c]" "length xs = 91"
    using assms(4) by (cases cs rule: rev_cases) auto
  obtain qs proto hs r where c: "c = (qs, proto, hs, r)" by (cases c) auto
  let ?xs = "map2 fib_exchange [0..<length xs] xs"
  have "served_all env ?xs (w_user w) (int (fib 91), int (fib (Suc 91)))"
    using fib_served_all [OF assms(2), of 0 xs] assms(3,5) cs by (simp del: fib.simps(3) add: cs(2))
  from sessions_run [OF assms(1) this] obtain outs c' w' where
    s: "sessions env i (map (\<lambda>(t, _, r). (t, r)) ?xs) (conns, w) = Some (outs, conns(i := c'), w')"
      "w_user w' = (int (fib 91), int (fib (Suc 91)))" "between env i (conns(i := c')) (w_ring w')" by blast
  have "map (\<lambda>(t, _, r). (t, r)) ?xs = map ?f xs"
    by (auto intro!: nth_equalityI split: prod.splits)
  with s(1) have "sessions env i (map ?f xs) (conns, w) = Some (outs, conns(i := c'), w')" by simp
  moreover have "session env i (fst (?f c)) (snd (?f c)) (conns(i := c'), w') = None"
    using fib_overflow_session [OF s(3) assms(2) _ s(2)] assms(5) cs(1) c by (simp del: fib.simps)
  ultimately show ?thesis by (simp add: cs(1) c sessions_append)
qed

theorem fib_clients_limit_witness:
  "sessions app_env 5 (replicate 92 (request_text ''GET'' ''/fib'' [] ''HTTP/1.1'' [], 90)) (demo_conns, app_world) = None"
proof -
  have "map (\<lambda>(qs, proto, hs, r). (request_text ''GET'' ''/fib'' qs proto hs, r)) (replicate 92 plain_client)
      = replicate 92 (request_text ''GET'' ''/fib'' [] ''HTTP/1.1'' [], 90)"
    unfolding map_replicate by (simp only: plain_client_def prod.case)
  with fib_clients_limit [OF app_between app_facts, of "replicate 92 plain_client"] plain_client_ok show ?thesis
    by (simp del: replicate.simps)
qed


text \<open>
  The handler of \<open>/simple/y\<close>, given a cleared response and a protocol of at most 1000
  characters, always succeeds, and the response composed from what it leaves has the status
  200, its four headers in the order in which they were set, the length and the text of the
  body.
\<close>

theorem simple_y_response:
  assumes "ready_response res" and "length proto \<le> 1000"
  shows "\<exists>res' hs. simple_y_handler env mem req res st = Some (0, res', st)
     \<and> hs = [(''Content-Type'', ''text/plain''), (''Header1'', ''Value1''), (''Header2'', ''Value2''), (''Header3'', ''Value3'')]
     \<and> headers_are mem (rs_headers res') hs \<and> lines_short proto hs res' \<and> body_ok res' \<and> reusable_response res'
     \<and> response_text proto hs res' = status_line proto 200 @ headers_text hs @ length_line 26 @ [LF] @ ''Something interesting y...''"
proof -
  let ?t = "''Something interesting y...''"
  obtain r1 where r1: "APPEND_RES_BODY env res (?t @ [NUL]) 26 = Some r1" "built mem [] ?t r1"
    using built_append [OF built_start [OF assms(1)], of ?t "?t @ [NUL]" 26 env] by auto
  obtain r2 where r2: "SET_RES_MIME env r1 ''text/plain'' = Some r2" "built mem plain_headers ?t r2"
    using built_header [OF r1(2), of "''Content-Type''" "''text/plain''" env] by (auto simp: SET_RES_MIME_header)
  obtain r3 where r3: "SET_RES_HEADER env r2 ''Header1'' ''Value1'' = Some r3" "built mem (plain_headers @ [(''Header1'', ''Value1'')]) ?t r3"
    using built_header [OF r2(2), of "''Header1''" "''Value1''" env] by auto
  obtain r4 where r4: "SET_RES_HEADER env r3 ''Header2'' ''Value2'' = Some r4"
    "built mem (plain_headers @ [(''Header1'', ''Value1''), (''Header2'', ''Value2'')]) ?t r4"
    using built_header [OF r3(2), of "''Header2''" "''Value2''" env] by auto
  let ?hs = "plain_headers @ [(''Header1'', ''Value1''), (''Header2'', ''Value2''), (''Header3'', ''Value3'')]"
  obtain r5 where r5: "SET_RES_HEADER env r4 ''Header3'' ''Value3'' = Some r5" "built mem ?hs ?t r5"
    using built_header [OF r4(2), of "''Header3''" "''Value3''" env] by auto
  have "strlen (?t @ [NUL]) 0 = Some 26" by (simp add: strlen_def cstr_def)
  then have "simple_y_handler env mem req res st = Some (0, r5\<lparr>rs_status := 200\<rparr>, st)"
    using r1(1) r2(1) r3(1) r4(1) r5(1) by (simp add: simple_y_handler_def)
  moreover have "\<forall>(k, v) \<in> set ?hs. length (header_line k v) < 1024" by (simp add: header_line_def)
  ultimately show ?thesis using built_done [OF r5(2) assms(2)] by (auto simp: plain_response_def)
qed


definition app_response :: http_response where
  "app_response = \<lparr>rs_status = 0, rs_file = None, rs_file_fd = 0, rs_file_sz = 0,
     rs_str = Some (empty_string (2 ^ 21)), rs_headers = empty_kv 20\<rparr>"

lemma app_response_ready: "ready_response app_response"
  using string_exact_zero [of "2 ^ 21"]
  by (simp add: app_response_def ready_response_def empty_str_def empty_table_def empty_kv_provided empty_kv_simps
      empty_string_def) (simp add: empty_kv_def KV_INIT_WITH_BUF_def)

theorem simple_y_response_witness:
  "\<exists>res'. simple_y_handler some_env [] empty_request app_response (0, 1) = Some (0, res', (0, 1)) \<and> body_ok res'"
  using simple_y_response [OF app_response_ready, of "''HTTP/1.1''" some_env "[]" empty_request "(0, 1)"] by auto

end
