(* ===== verification/Threads.thy ===== *)
theory Threads
  imports Iouring Transitions
begin

text \<open>
  The threads of \<open>start_listening\<close> (\<open>lib/server.c\<close>). Thread 0 is the caller and thread
  \<open>i + 1\<close> the one created in round \<open>i\<close>; all of them run \<open>listen_routine\<close>, that is
  \<open>io_uring_listen_loop\<close>, on the same \<open>svr\<close>. Each has a ring on its own stack, stores its
  address in \<open>svr->ring\<close>, queues an accept in the ring \<open>svr->ring\<close> points to by then and
  enters the loop, which never returns and uses \<open>svr->ring\<close> throughout. Nothing in the
  set-up is synchronised, so every access to memory that threads share is an atomic step of
  its own; \<open>mem\<close> is the result of \<open>malloc\<close> for the array of thread identifiers.
\<close>

section \<open>Model\<close>

text \<open>
  Where a thread is in \<open>io_uring_listen_loop\<close> and the \<open>io_uring_push_accept\<close> it calls: with
  the ring it has read from \<open>svr->ring\<close>, and the position in its queue it has read. \<open>At_claim\<close>
  is inside \<open>io_uring_get_sqe\<close>, \<open>At_prep\<close> before \<open>io_uring_prep_accept\<close>, \<open>At_data\<close> before the
  entry's \<open>user_data\<close> is set.
\<close>

datatype loop_pc =
    At_init | At_set | At_push | At_get nat | At_claim nat nat | At_prep nat nat | At_data nat nat | At_loop | Returned

text \<open>Where the caller is in \<open>start_listening\<close>, with the loop counter.\<close>

datatype main_pc = Starting | Creating nat | Listening | Joining nat | Finished

text \<open>
  An entry of a queue after \<open>io_uring_prep_accept\<close>, and with \<open>user_data\<close> and \<open>flags\<close> set; all
  threads write the same values.
\<close>

datatype accept_entry = Prepared | Complete

text \<open>
  \<open>th_ring\<close> is the thread whose ring \<open>svr->ring\<close> points to (\<^term>\<open>None\<close> for NULL), \<open>th_tail\<close> the
  end of the queue in the ring of each thread, \<open>th_sqes\<close> its entries. Nothing has been
  submitted before the loop, so the queues start at 0.
\<close>

record threads =
  th_main :: main_pc
  th_pc :: "nat \<rightharpoonup> loop_pc"
  th_ring :: "nat option"
  th_tail :: "nat \<Rightarrow> nat"
  th_sqes :: "nat \<times> nat \<rightharpoonup> accept_entry"

definition threads_start :: threads where
  "threads_start = \<lparr>th_main = Starting, th_pc = Map.empty, th_ring = None, th_tail = (\<lambda>t. 0), th_sqes = Map.empty\<rparr>"

definition threads_init :: "threads \<Rightarrow> bool" where
  "threads_init s \<longleftrightarrow> s = threads_start"

text \<open>
  One access of thread \<open>t\<close> in \<open>io_uring_listen_loop\<close>. \<open>io_uring_get_sqe\<close> is liburing's, which
  leaves synchronisation to its caller: it reads the end of the queue, and moves it past the
  entry it returns, in two accesses. It returns NULL for a full queue, and preparing NULL is
  undefined (no step).
\<close>

inductive loop_step :: "nat \<Rightarrow> threads \<Rightarrow> threads \<Rightarrow> bool" where
  init_ok: "th_pc s t = Some At_init \<Longrightarrow> loop_step t s (s\<lparr>th_pc := (th_pc s)(t \<mapsto> At_set)\<rparr>)"
| init_fails: "th_pc s t = Some At_init \<Longrightarrow> loop_step t s (s\<lparr>th_pc := (th_pc s)(t \<mapsto> Returned)\<rparr>)"
| set_ring: "th_pc s t = Some At_set \<Longrightarrow>
    loop_step t s (s\<lparr>th_pc := (th_pc s)(t \<mapsto> At_push), th_ring := Some t\<rparr>)"
| load_ring: "th_pc s t = Some At_push \<Longrightarrow> th_ring s = Some r \<Longrightarrow>
    loop_step t s (s\<lparr>th_pc := (th_pc s)(t \<mapsto> At_get r)\<rparr>)"
| read_tail: "th_pc s t = Some (At_get r) \<Longrightarrow> th_tail s r < QD \<Longrightarrow>
    loop_step t s (s\<lparr>th_pc := (th_pc s)(t \<mapsto> At_claim r (th_tail s r))\<rparr>)"
| move_tail: "th_pc s t = Some (At_claim r n) \<Longrightarrow>
    loop_step t s (s\<lparr>th_pc := (th_pc s)(t \<mapsto> At_prep r n), th_tail := (th_tail s)(r := Suc n)\<rparr>)"
| prep_accept: "th_pc s t = Some (At_prep r n) \<Longrightarrow>
    loop_step t s (s\<lparr>th_pc := (th_pc s)(t \<mapsto> At_data r n), th_sqes := (th_sqes s)((r, n) \<mapsto> Prepared)\<rparr>)"
| set_data: "th_pc s t = Some (At_data r n) \<Longrightarrow>
    loop_step t s (s\<lparr>th_pc := (th_pc s)(t \<mapsto> At_loop), th_sqes := (th_sqes s)((r, n) \<mapsto> Complete)\<rparr>)"

text \<open>The accepts a submission of the ring would find: the complete entries before its end.\<close>

definition queued_accepts :: "threads \<Rightarrow> nat \<Rightarrow> nat" where
  "queued_accepts s r = length (filter (\<lambda>n. th_sqes s (r, n) = Some Complete) [0..<th_tail s r])"

text \<open>
  A statement of \<open>start_listening(svr, cnt)\<close> run by the caller; a negative count acts as 0,
  as no test or loop of the function tells them apart. The result of
  \<open>pthread_create\<close> is not tested; \<open>pthread_join\<close> waits for a thread that was created, and is
  undefined (no step) for one that was not.
\<close>

inductive main_step :: "bool \<Rightarrow> nat \<Rightarrow> threads \<Rightarrow> threads \<Rightarrow> bool" for mem cnt where
  no_threads: "th_main s = Starting \<Longrightarrow> cnt = 0 \<Longrightarrow>
    main_step mem cnt s (s\<lparr>th_main := Listening, th_pc := (th_pc s)(0 \<mapsto> At_init)\<rparr>)"
| no_memory: "th_main s = Starting \<Longrightarrow> 0 < cnt \<Longrightarrow> \<not> mem \<Longrightarrow> main_step mem cnt s (s\<lparr>th_main := Finished\<rparr>)"
| allocated: "th_main s = Starting \<Longrightarrow> 0 < cnt \<Longrightarrow> mem \<Longrightarrow> main_step mem cnt s (s\<lparr>th_main := Creating 0\<rparr>)"
| created: "th_main s = Creating i \<Longrightarrow> i < cnt \<Longrightarrow>
    main_step mem cnt s (s\<lparr>th_main := Creating (i + 1), th_pc := (th_pc s)(i + 1 \<mapsto> At_init)\<rparr>)"
| not_created: "th_main s = Creating i \<Longrightarrow> i < cnt \<Longrightarrow> main_step mem cnt s (s\<lparr>th_main := Creating (i + 1)\<rparr>)"
| all_created: "th_main s = Creating cnt \<Longrightarrow>
    main_step mem cnt s (s\<lparr>th_main := Listening, th_pc := (th_pc s)(0 \<mapsto> At_init)\<rparr>)"
| returned: "th_main s = Listening \<Longrightarrow> th_pc s 0 = Some Returned \<Longrightarrow>
    main_step mem cnt s (s\<lparr>th_main := (if 0 < cnt then Joining 0 else Finished)\<rparr>)"
| joined: "th_main s = Joining i \<Longrightarrow> i < cnt \<Longrightarrow> th_pc s (i + 1) = Some Returned \<Longrightarrow>
    main_step mem cnt s (s\<lparr>th_main := Joining (i + 1)\<rparr>)"
| all_joined: "th_main s = Joining cnt \<Longrightarrow> main_step mem cnt s (s\<lparr>th_main := Finished\<rparr>)"

definition threads_step :: "bool \<Rightarrow> nat \<Rightarrow> threads \<Rightarrow> threads \<Rightarrow> bool" where
  "threads_step mem cnt s s' \<longleftrightarrow> main_step mem cnt s s' \<or> (\<exists>t. loop_step t s s')"

inductive_cases loop_stepE: "loop_step t s s'"
inductive_cases main_stepE: "main_step mem cnt s s'"

section \<open>Invariant\<close>

text \<open>
  A thread past \<open>svr->ring = &ring\<close>, whose ring therefore exists for good; the ring and the
  position a thread holds; and which threads may have been started where the caller is.
\<close>

definition past_set :: "loop_pc option \<Rightarrow> bool" where
  "past_set c \<longleftrightarrow> (case c of None \<Rightarrow> False | Some p \<Rightarrow> p \<notin> {At_init, At_set, Returned})"

fun held_ring :: "loop_pc \<Rightarrow> nat option" where
  "held_ring (At_get r) = Some r"
| "held_ring (At_claim r n) = Some r"
| "held_ring (At_prep r n) = Some r"
| "held_ring (At_data r n) = Some r"
| "held_ring p = None"

fun held_entry :: "loop_pc \<Rightarrow> nat option" where
  "held_entry (At_claim r n) = Some n"
| "held_entry (At_prep r n) = Some n"
| "held_entry (At_data r n) = Some n"
| "held_entry p = None"

definition rings_inv :: "(nat \<rightharpoonup> loop_pc) \<Rightarrow> nat option \<Rightarrow> bool" where
  "rings_inv pc ring \<longleftrightarrow>
     (case ring of None \<Rightarrow> \<forall>t. \<not> past_set (pc t) | Some r \<Rightarrow> past_set (pc r))
   \<and> (\<forall>t p r. pc t = Some p \<longrightarrow> held_ring p = Some r \<longrightarrow> past_set (pc r))
   \<and> (\<forall>t p n. pc t = Some p \<longrightarrow> held_entry p = Some n \<longrightarrow> n < QD)"

definition started :: "nat \<Rightarrow> main_pc \<Rightarrow> nat set" where
  "started cnt m = (case m of Starting \<Rightarrow> {} | Creating i \<Rightarrow> {1..i} | _ \<Rightarrow> {0..cnt})"

definition threads_inv :: "nat \<Rightarrow> threads \<Rightarrow> bool" where
  "threads_inv cnt s \<longleftrightarrow> dom (th_pc s) \<subseteq> started cnt (th_main s) \<and> dom (th_pc s) \<subseteq> {0..cnt}
     \<and> (\<forall>i. th_main s = Creating i \<longrightarrow> i \<le> cnt) \<and> rings_inv (th_pc s) (th_ring s)"

lemma past_set_simps [simp]:
  "\<not> past_set None" "\<not> past_set (Some At_init)" "\<not> past_set (Some At_set)" "\<not> past_set (Some Returned)"
  "past_set (Some At_push)" "past_set (Some (At_get r))" "past_set (Some (At_claim r n))"
  "past_set (Some (At_prep r n))" "past_set (Some (At_data r n))" "past_set (Some At_loop)"
  by (simp_all add: past_set_def)

text \<open>
  A thread may move as long as it does not leave the part past \<open>svr->ring = &ring\<close>, enters it
  only by setting the ring, and holds the ring of a thread that is there and an entry of it.
\<close>

lemma rings_inv_move:
  assumes inv: "rings_inv pc ring" and "past_set (pc t) \<longleftrightarrow> past_set (Some c)"
    and "\<And>r. held_ring c = Some r \<Longrightarrow> past_set (pc r)" and "\<And>n. held_entry c = Some n \<Longrightarrow> n < QD"
  shows "rings_inv (pc(t \<mapsto> c)) ring"
proof -
  have p: "past_set ((pc(t \<mapsto> c)) u) = past_set (pc u)" for u using assms(2) by simp
  show ?thesis using inv assms(3,4) unfolding rings_inv_def p by (auto split: option.splits)
qed

lemma rings_inv_set:
  assumes "rings_inv pc ring"
  shows "rings_inv (pc(t \<mapsto> At_push)) (Some t)"
  using assms unfolding rings_inv_def by auto

lemma rings_inv_held:
  assumes "rings_inv pc ring" and "pc t = Some p"
  shows "held_ring p = Some r \<Longrightarrow> past_set (pc r)" and "held_entry p = Some n \<Longrightarrow> n < QD"
    and "ring = Some r \<Longrightarrow> past_set (pc r)"
  using assms unfolding rings_inv_def by auto

lemma loop_step_rings:
  assumes "loop_step t s s'" and inv: "rings_inv (th_pc s) (th_ring s)"
  shows "rings_inv (th_pc s') (th_ring s')"
  using assms(1)
proof cases
  case set_ring
  with inv show ?thesis by (simp add: rings_inv_set)
qed (use inv in \<open>auto intro!: rings_inv_move dest: rings_inv_held\<close>)

lemma threads_inv_loop_step:
  assumes "loop_step t s s'" and inv: "threads_inv cnt s"
  shows "threads_inv cnt s'"
proof -
  have "th_main s' = th_main s" "dom (th_pc s') = dom (th_pc s)"
    using assms(1) by (cases; auto)+
  with loop_step_rings [OF assms(1)] inv show ?thesis by (auto simp: threads_inv_def)
qed

lemma threads_inv_main_step:
  assumes "main_step mem cnt s s'" and inv: "threads_inv cnt s"
  shows "threads_inv cnt s'"
  using assms(1)
proof cases
  case (created i)
  then have "th_pc s (i + 1) = None" using inv by (force simp: threads_inv_def started_def)
  with created inv rings_inv_move [of "th_pc s" "th_ring s" "i + 1" At_init] show ?thesis
    by (force simp: threads_inv_def started_def)
next
  case no_threads
  then have "th_pc s 0 = None" using inv by (force simp: threads_inv_def started_def)
  with no_threads inv rings_inv_move [of "th_pc s" "th_ring s" 0 At_init] show ?thesis
    by (auto simp: threads_inv_def started_def)
next
  case all_created
  then have "th_pc s 0 = None" using inv by (force simp: threads_inv_def started_def)
  with all_created inv rings_inv_move [of "th_pc s" "th_ring s" 0 At_init] show ?thesis
    by (auto simp: threads_inv_def started_def)
qed (use inv in \<open>force simp: threads_inv_def started_def\<close>)+

interpretation threads: inductive_invariant threads_init "threads_step mem cnt" "threads_inv cnt" for mem cnt
proof
  show "threads_init s \<Longrightarrow> threads_inv cnt s" for s
    by (simp add: threads_init_def threads_start_def threads_inv_def rings_inv_def)
  show "threads_inv cnt s \<Longrightarrow> threads_step mem cnt s s' \<Longrightarrow> threads_inv cnt s'" for s s'
    using threads_inv_loop_step threads_inv_main_step by (auto simp: threads_step_def)
qed

text \<open>Without additional threads the caller is the only one.\<close>

lemma single_thread:
  assumes "reach threads_init (threads_step mem 0) s"
  shows "dom (th_pc s) \<subseteq> {0}"
  using threads.reach_inv [OF assms] by (simp add: threads_inv_def)

text \<open>A thread past the set-up stays there, whoever moves.\<close>

lemma past_set_step:
  assumes "reach threads_init (threads_step mem cnt) s" and "past_set (th_pc s t)" and "threads_step mem cnt s s'"
  shows "past_set (th_pc s' t)"
proof -
  have inv: "threads_inv cnt s" by (rule threads.reach_inv [OF assms(1)])
  from assms(3) consider (main) "main_step mem cnt s s'" | (loop) u where "loop_step u s s'" by (auto simp: threads_step_def)
  then show ?thesis
  proof cases
    case main
    then show ?thesis using assms(2) inv
      by cases (force simp: threads_inv_def started_def past_set_def split: option.splits)+
  next
    case loop
    then show ?thesis using assms(2) by cases auto
  qed
qed

text \<open>Reaching states one step at a time.\<close>

lemma reach_main: "reach threads_init (threads_step mem cnt) s \<Longrightarrow> main_step mem cnt s s' \<Longrightarrow>
    reach threads_init (threads_step mem cnt) s'"
  by (erule reach_step) (simp add: threads_step_def)

lemma reach_loop: "reach threads_init (threads_step mem cnt) s \<Longrightarrow> loop_step t s s' \<Longrightarrow>
    reach threads_init (threads_step mem cnt) s'"
  by (erule reach_step) (auto simp: threads_step_def)

lemma creating_reached:
  assumes "0 < cnt" and "i \<le> cnt" and "0 < i"
  shows "reach threads_init (threads_step True cnt) (threads_start\<lparr>th_main := Creating i, th_pc := [1 \<mapsto> At_init]\<rparr>)"
  using assms(2,3)
proof (induction i)
  case (Suc i)
  show ?case
  proof (cases "i = 0")
    case True
    have "reach threads_init (threads_step True cnt) threads_start" by (rule reach_init) (simp add: threads_init_def)
    from reach_main [OF this allocated]
    have "reach threads_init (threads_step True cnt) (threads_start\<lparr>th_main := Creating 0\<rparr>)"
      using assms(1) by (simp add: threads_start_def)
    from reach_main [OF this created [of _ 0]] show ?thesis
      using assms(1) True by (simp add: threads_start_def del: fun_upd_apply)
  next
    case False
    with Suc have "reach threads_init (threads_step True cnt) (threads_start\<lparr>th_main := Creating i, th_pc := [1 \<mapsto> At_init]\<rparr>)"
      by (simp del: fun_upd_apply)
    from reach_main [OF this not_created [of _ i]] Suc.prems(1) show ?thesis
      by (simp add: threads_start_def del: fun_upd_apply)
  qed
qed simp

text \<open>
  Running a schedule: the threads take their next accesses in the order of the list; the
  set-up of a ring succeeds.
\<close>

fun loop_next :: "nat \<Rightarrow> threads \<Rightarrow> threads option" where
  "loop_next t s = (case th_pc s t of
     Some At_init \<Rightarrow> Some (s\<lparr>th_pc := (th_pc s)(t \<mapsto> At_set)\<rparr>)
   | Some At_set \<Rightarrow> Some (s\<lparr>th_pc := (th_pc s)(t \<mapsto> At_push), th_ring := Some t\<rparr>)
   | Some At_push \<Rightarrow> map_option (\<lambda>r. s\<lparr>th_pc := (th_pc s)(t \<mapsto> At_get r)\<rparr>) (th_ring s)
   | Some (At_get r) \<Rightarrow> if th_tail s r < QD then Some (s\<lparr>th_pc := (th_pc s)(t \<mapsto> At_claim r (th_tail s r))\<rparr>) else None
   | Some (At_claim r n) \<Rightarrow> Some (s\<lparr>th_pc := (th_pc s)(t \<mapsto> At_prep r n), th_tail := (th_tail s)(r := Suc n)\<rparr>)
   | Some (At_prep r n) \<Rightarrow> Some (s\<lparr>th_pc := (th_pc s)(t \<mapsto> At_data r n), th_sqes := (th_sqes s)((r, n) \<mapsto> Prepared)\<rparr>)
   | Some (At_data r n) \<Rightarrow> Some (s\<lparr>th_pc := (th_pc s)(t \<mapsto> At_loop), th_sqes := (th_sqes s)((r, n) \<mapsto> Complete)\<rparr>)
   | _ \<Rightarrow> None)"

fun run_schedule :: "nat list \<Rightarrow> threads \<Rightarrow> threads option" where
  "run_schedule [] s = Some s"
| "run_schedule (t # ts) s = Option.bind (loop_next t s) (run_schedule ts)"

lemma loop_next_step: "loop_next t s = Some s' \<Longrightarrow> loop_step t s s'"
  by (auto split: option.splits loop_pc.splits if_splits intro: loop_step.intros)

lemma run_schedule_reach:
  "run_schedule ts s = Some s' \<Longrightarrow> reach threads_init (threads_step mem cnt) s \<Longrightarrow>
     reach threads_init (threads_step mem cnt) s'"
proof (induction ts arbitrary: s)
  case (Cons t ts)
  then obtain s1 where s1: "loop_next t s = Some s1" "run_schedule ts s1 = Some s'" by (auto simp: bind_Some_iff)
  from Cons.IH [OF s1(2) reach_loop [OF Cons.prems(2) loop_next_step [OF s1(1)]]] show ?case .
qed simp

text \<open>Threads 0 and 1 about to run the loop routine, with the caller listening.\<close>

definition two_threads :: threads where
  "two_threads = threads_start\<lparr>th_main := Listening, th_pc := [1 \<mapsto> At_init, 0 \<mapsto> At_init]\<rparr>"

lemma two_threads_reached:
  assumes "0 < cnt"
  shows "reach threads_init (threads_step True cnt) two_threads"
  using reach_main [OF creating_reached [OF assms, of cnt] all_created] assms
  by (simp add: two_threads_def threads_start_def)

lemma QD_pos [simp]: "0 < QD" "1 < QD" "Suc 0 < QD"
  by (simp_all add: QD_def)

section \<open>Properties\<close>

text \<open>
  C39. In every reachable state of \<open>start_listening\<close>, for any number of threads and any
  interleaving of their accesses: the ring \<open>svr->ring\<close> points to, and every ring a thread has
  read from it and works on, is on the stack of a thread that has set its ring up and never
  returns, so no pointer to a ring dangles; a thread about to read \<open>svr->ring\<close> finds it set;
  and an entry a thread prepares lies inside the queue.
\<close>

theorem shared_ring_valid:
  assumes "reach threads_init (threads_step mem cnt) s"
  shows "(\<forall>r. th_ring s = Some r \<longrightarrow> past_set (th_pc s r))
     \<and> (\<forall>t p r. th_pc s t = Some p \<longrightarrow> held_ring p = Some r \<longrightarrow> past_set (th_pc s r))
     \<and> (\<forall>t s'. past_set (th_pc s t) \<longrightarrow> threads_step mem cnt s s' \<longrightarrow> past_set (th_pc s' t))
     \<and> (\<forall>t. th_pc s t = Some At_push \<longrightarrow> th_ring s \<noteq> None)
     \<and> (\<forall>t p n. th_pc s t = Some p \<longrightarrow> held_entry p = Some n \<longrightarrow> n < QD)"
proof -
  have inv: "rings_inv (th_pc s) (th_ring s)" using threads.reach_inv [OF assms] by (simp add: threads_inv_def)
  have "past_set (th_pc s' t)" if t: "past_set (th_pc s t)" and "threads_step mem cnt s s'" for t s'
    using that(2) past_set_step [OF assms t] by blast
  moreover have "th_ring s \<noteq> None" if "th_pc s t = Some At_push" for t
    using inv that unfolding rings_inv_def by (auto split: option.splits) (metis past_set_simps(5))
  ultimately show ?thesis using inv rings_inv_held [OF inv] unfolding rings_inv_def by (auto split: option.splits)
qed

theorem shared_ring_valid_witness:
  "\<exists>s :: threads. th_pc s 0 = Some (At_get 1) \<and> past_set (th_pc s 1) \<and> th_ring s = Some 1"
proof -
  obtain s where s: "run_schedule [0, 0, 1, 1, 0] two_threads = Some s"
    and p: "th_pc s 0 = Some (At_get 1)" "th_ring s = Some 1"
    by (simp add: two_threads_def threads_start_def)
  from shared_ring_valid [OF run_schedule_reach [OF s two_threads_reached [of 1, OF zero_less_one]]] p
  have "past_set (th_pc s 1)" by blast
  with p show ?thesis by blast
qed

text \<open>
  C40. The rings are not one per thread and the queue is not protected: with at least one
  further thread there is an interleaving in which two threads are in the loop, the accepts
  of both are queued in the ring of one of them and the ring of the other is empty and not
  used by anyone; and there is one in which both take the same entry, so that the two
  threads wait for one accept.
\<close>

theorem shared_ring_race:
  assumes "0 < cnt"
  shows "(\<exists>s. reach threads_init (threads_step True cnt) s \<and> th_pc s 0 = Some At_loop \<and> th_pc s 1 = Some At_loop
       \<and> th_ring s = Some 1 \<and> queued_accepts s 1 = 2 \<and> queued_accepts s 0 = 0)
     \<and> (\<exists>s. reach threads_init (threads_step True cnt) s \<and> th_pc s 0 = Some At_loop \<and> th_pc s 1 = Some At_loop
       \<and> th_ring s = Some 1 \<and> queued_accepts s 1 = 1 \<and> queued_accepts s 0 = 0)"
proof (intro conjI)
  note r = run_schedule_reach [OF _ two_threads_reached [OF assms]]
  note ev = two_threads_def threads_start_def queued_accepts_def
  obtain s where "run_schedule [0, 0, 1, 1, 0, 0, 0, 0, 0, 1, 1, 1, 1, 1] two_threads = Some s"
    and "th_pc s 0 = Some At_loop" "th_pc s 1 = Some At_loop" "th_ring s = Some 1" "queued_accepts s 1 = 2" "queued_accepts s 0 = 0"
    by (simp add: ev)
  with r show "\<exists>s. reach threads_init (threads_step True cnt) s \<and> th_pc s 0 = Some At_loop \<and> th_pc s 1 = Some At_loop
       \<and> th_ring s = Some 1 \<and> queued_accepts s 1 = 2 \<and> queued_accepts s 0 = 0" by blast
  obtain s where "run_schedule [0, 0, 1, 1, 0, 0, 1, 1, 0, 1, 0, 1, 0, 1] two_threads = Some s"
    and "th_pc s 0 = Some At_loop" "th_pc s 1 = Some At_loop" "th_ring s = Some 1" "queued_accepts s 1 = 1" "queued_accepts s 0 = 0"
    by (simp add: ev)
  with r show "\<exists>s. reach threads_init (threads_step True cnt) s \<and> th_pc s 0 = Some At_loop \<and> th_pc s 1 = Some At_loop
       \<and> th_ring s = Some 1 \<and> queued_accepts s 1 = 1 \<and> queued_accepts s 0 = 0" by blast
qed

theorem shared_ring_race_witness:
  "(\<exists>s. reach threads_init (threads_step True 1) s \<and> th_ring s = Some 1 \<and> queued_accepts s 1 = 2 \<and> queued_accepts s 0 = 0)
   \<and> (\<exists>s. reach threads_init (threads_step True 1) s \<and> queued_accepts s 1 = 1 \<and> queued_accepts s 0 = 0)"
  using shared_ring_race [of 1] by auto

end
