(* ===== verification/Boot.thy ===== *)
theory Boot
  imports Server Sample_App Threads
begin

text \<open>
  The start of the whole program: \<open>main\<close> of \<open>tests/socket.c\<close> creates the server and hands
  it to \<open>start_listening\<close>, which without additional threads enters the event loop. It is
  shown that the loop then starts in a state from which the invariants of the event loop
  hold, with the connection of the listening socket inside the allocated object.
\<close>

section \<open>Model\<close>

text \<open>\<open>atoi\<close>; a value outside \<open>int\<close> is undefined.\<close>

definition atoi :: "string \<Rightarrow> int option" where
  "atoi s =
     (let s = dropWhile is_space s;
          s' = (if s \<noteq> [] \<and> (hd s = CHR ''-'' \<or> hd s = CHR ''+'') then tl s else s);
          n = int (number (takeWhile is_digit s'));
          v = (if s \<noteq> [] \<and> hd s = CHR ''-'' then - n else n)
      in if - (2 ^ 31) \<le> v \<and> v < 2 ^ 31 then Some v else None)"

text \<open>
  \<open>main\<close>, up to its call of \<open>start_listening\<close>: the arguments of the call, or \<^term>\<open>None\<close> (inside)
  if there is no server.
\<close>

definition sample_main ::
  "bool \<Rightarrow> 'k kernel \<Rightarrow> (string \<Rightarrow> u32 option) \<Rightarrow> string option \<Rightarrow> (u64 \<Rightarrow> bool) \<Rightarrow> string list \<Rightarrow> 'k
     \<Rightarrow> ((server_info \<times> int) option \<times> 'k) option"
where
  "sample_main watch kern inet_aton proc_file malloc argv k =
     do {
       (svr, k) \<leftarrow> create_server watch kern inet_aton proc_file malloc ''0.0.0.0'' 8080 k;
       case svr of
         None \<Rightarrow> Some (None, k)
       | Some s \<Rightarrow> do {
           additional_thrs \<leftarrow> (if 1 < length argv then atoi (argv ! 1) else Some 0);
           Some (Some (s, additional_thrs), k)
         }
     }"

text \<open>
  What the loop finds in the object: the descriptors, and as many connections as there is
  room for.
\<close>

definition loop_env ::
  "bool \<Rightarrow> mem_env \<Rightarrow> 'k static_env \<Rightarrow> 'u handler router list \<Rightarrow> (ring \<Rightarrow> bool) \<Rightarrow> server_info \<Rightarrow> ('k, 'u) server_env"
where
  "loop_env watch mem se routes slot svr =
     \<lparr>sv_watch = watch, sv_mem = mem, sv_static = se, sv_routes = routes, sv_slot = slot,
      sv_pipefds = si_pipefds svr, sv_listen = nat (si_listen_fd svr),
      sv_nfds = (unat (si_size svr) - unat (sizeof_server_info watch)) div unat sizeof_server_connection\<rparr>"

section \<open>Facts\<close>

text \<open>
  What the start relies on: a new socket is open and below the limit on descriptors, the
  other calls close nothing, and the limit is the one that is reported.
\<close>

definition boot_kernel :: "'k kernel \<Rightarrow> ('k \<Rightarrow> int \<Rightarrow> bool) \<Rightarrow> u64 \<Rightarrow> bool" where
  "boot_kernel kern fd_open hard \<longleftrightarrow>
     (\<forall>d t p k fd k'. sys_socket kern d t p k = (fd, k') \<longrightarrow> 0 \<le> fd \<longrightarrow> fd_open k' fd \<and> fd < int (unat hard))
   \<and> (\<forall>fd a n k r k'. sys_bind kern fd a n k = (r, k') \<longrightarrow> keeps_open fd_open k k')
   \<and> (\<forall>fd n k r k'. sys_listen kern fd n k = (r, k') \<longrightarrow> keeps_open fd_open k k')
   \<and> (\<forall>fds fl k r obj k'. sys_pipe2 kern fds fl k = (r, obj, k') \<longrightarrow> keeps_open fd_open k k')
   \<and> (\<forall>rl k r obj k'. sys_getrlimit kern RLIMIT_NOFILE rl k = (r, obj, k') \<longrightarrow> 0 \<le> r \<longrightarrow> (\<exists>cur. obj = Some (Obj_rlimit cur hard)))"

lemma listening_socket_open:
  assumes bk: "boot_kernel kern fd_open hard"
    and opens: "\<forall>path fl k. keeps_open fd_open k (snd (sys_open kern path fl k))"
    and run: "create_listening_socket kern inet_aton pf addr port k = (fd, k')"
    and "0 \<le> fd"
  shows "fd_open k' fd \<and> fd < int (unat hard)"
proof -
  have somax: "get_somaxconn kern pf k = (n, k') \<Longrightarrow> keeps_open fd_open k k'" for k n k'
    using opens [rule_format, of k "''/proc/sys/net/core/somaxconn''" 0]
    by (auto simp: get_somaxconn_def fopen_r_def keeps_open_def Let_def split: option.splits prod.splits if_splits)
  obtain f k1 where s: "sys_socket kern (uint AF_INET) (SOCK_STREAM OR SOCK_NONBLOCK OR SOCK_CLOEXEC) 0 k = (f, k1)" by fastforce
  show ?thesis
    using run assms(4) s bk somax unfolding create_listening_socket_def cleanup_socket_def boot_kernel_def keeps_open_def
    by (auto simp: Let_def split: prod.splits if_splits option.splits)
qed

lemma nofile_limit_hard:
  assumes "boot_kernel kern fd_open hard" and "get_nofile_limit kern k = Some (n, k')" and "0 \<le> n"
  shows "n = sint hard"
proof -
  obtain r obj k1 where g: "sys_getrlimit kern RLIMIT_NOFILE (Obj_rlimit 0 0) k = (r, obj, k1)" using prod_cases3 by blast
  with assms(1) have "0 \<le> r \<Longrightarrow> \<exists>cur. obj = Some (Obj_rlimit cur hard)" unfolding boot_kernel_def by blast
  with assms(2,3) g show ?thesis by (auto simp: get_nofile_limit_def split: prod.splits if_splits)
qed

lemma created_server:
  assumes bk: "boot_kernel kern fd_open hard" and small: "unat hard < 2 ^ 58"
    and opens: "\<forall>path fl k. keeps_open fd_open k (snd (sys_open kern path fl k))"
    and run: "create_server watch kern inet_aton pf malloc addr port k = Some (Some svr, k')"
  shows "si_size svr = svr_len watch (int (unat hard))" and "0 \<le> si_listen_fd svr"
    and "fd_open k' (si_listen_fd svr)" and "si_listen_fd svr < int (unat hard)"
proof -
  obtain n k1 where n: "get_nofile_limit kern k = Some (n, k1)" "0 \<le> n"
    using run by (auto simp: create_server_def bind_Some_iff split: if_splits)
  obtain fd k2 where fd: "create_listening_socket kern inet_aton pf addr port k1 = (fd, k2)" by fastforce
  have h: "n = sint hard" by (rule nofile_limit_hard [OF bk n])
  with n(2) sint_nonneg(1) [of hard] have nh: "n = int (unat hard)" by simp
  have pos: "0 \<le> fd" using run n fd by (auto simp: create_server_def Let_def split: if_splits)
  note o = listening_socket_open [OF bk opens fd pos]
  obtain r obj k3 where p: "sys_pipe2 kern (Obj_fds 0 0) (O_CLOEXEC OR O_NONBLOCK) k2 = (r, obj, k3)" using prod_cases3 by blast
  then have keep: "fd_open k3 fd" using bk o unfolding boot_kernel_def keeps_open_def by blast
  show "si_size svr = svr_len watch (int (unat hard))" and "0 \<le> si_listen_fd svr"
    and "fd_open k' (si_listen_fd svr)" and "si_listen_fd svr < int (unat hard)"
    using run n fd nh pos o keep p
    by (auto simp: create_server_def Let_def split: if_splits option.splits cobj.splits)
qed

lemma svr_len_conns:
  assumes "unat (hard :: u64) < 2 ^ 58"
  shows "(unat (svr_len watch (int (unat hard))) - unat (sizeof_server_info watch)) div unat sizeof_server_connection = unat hard"
proof -
  have "to_size_t (int (unat hard)) = hard" by (simp add: to_size_t_def)
  moreover have "unat (w + 40 * hard) = unat w + 40 * unat hard" if "unat w \<le> 24" for w
    using assms that by (simp add: unat_word_ariths)
  ultimately show ?thesis
    by (simp add: svr_len_def sizeof_server_info_def sizeof_server_connection_def)
qed

text \<open>\<open>main\<close> reads back any number of threads written in decimal.\<close>

lemma digit_facts:
  assumes "d < 10"
  shows "is_digit (char_of (48 + d))" and "digit_value (char_of (48 + d)) = d"
proof -
  have "d = 0 \<or> d = 1 \<or> d = 2 \<or> d = 3 \<or> d = 4 \<or> d = 5 \<or> d = 6 \<or> d = 7 \<or> d = 8 \<or> d = 9" using assms by arith
  then show "is_digit (char_of (48 + d))"
    by (elim disjE) (simp_all add: is_digit_def char_of_def bit_0)
  show "digit_value (char_of (48 + d)) = d" using assms by (simp add: digit_value_def of_char_digit)
qed

lemma dec_nat_digits: "list_all is_digit (dec_nat n)"
proof (induction n rule: dec_nat.induct)
  case (1 n)
  then show ?case using digit_facts(1) [of n] digit_facts(1) [of "n mod 10"] by (subst dec_nat.simps) simp
qed

lemma number_dec_nat: "number (dec_nat n) = n"
proof (induction n rule: dec_nat.induct)
  case (1 n)
  show ?case
  proof (cases "n < 10")
    case True
    then show ?thesis by (subst dec_nat.simps) (simp add: number_def digit_facts(2))
  next
    case False
    with 1 show ?thesis by (subst dec_nat.simps) (simp add: number_def digit_facts(2))
  qed
qed

lemma atoi_dec_nat:
  assumes "n < 2 ^ 31"
  shows "atoi (dec_nat n) = Some (int n)"
proof -
  obtain c cs where c: "dec_nat n = c # cs" using dec_nat_nonempty [of n] by (cases "dec_nat n") auto
  then have d: "is_digit c" using dec_nat_digits [of n] by simp
  then have "\<not> is_space c" "c \<noteq> CHR ''-''" "c \<noteq> CHR ''+''" by (auto simp: is_digit_def is_space_def)
  moreover have "takeWhile is_digit (dec_nat n) = dec_nat n"
    using dec_nat_digits [of n] by (simp add: takeWhile_eq_all_conv list_all_iff)
  ultimately show ?thesis using assms number_dec_nat [of n] c by (simp add: atoi_def)
qed

section \<open>Properties\<close>

text \<open>
  C14. From \<open>main\<close> to the loop, when it is started without additional threads (no argument,
  or one that is not positive): the thread that calls \<open>start_listening\<close> is then the only one
  that ever runs the loop; and if \<open>main\<close> gets its server and the loop is entered, the
  listening socket is open, its connection lies inside the object, which holds exactly one
  connection per descriptor below the limit, and the loop starts in an initial state of its
  transition system, so that the invariants hold from there on: in every state the server
  reaches, exactly one accept is outstanding.
\<close>

theorem main_starts_loop:
  assumes bk: "boot_kernel (se_kern se) fd_open hard" and small: "unat hard < 2 ^ 58" and fk: "fd_kernel se fd_open"
    and main: "sample_main watch (se_kern se) inet_aton pf malloc argv k = Some (Some (svr, n), k')"
    and single: "n \<le> 0"
    and start: "io_uring_listen_start (loop_env watch mem se routes slot svr) 0 True k' u = Some (Some s)"
    and run: "(server_step (loop_env watch mem se routes slot svr) fd_open)\<^sup>*\<^sup>* s t"
  shows "(\<forall>ts. reach threads_init (threads_step tm (nat n)) ts \<longrightarrow> dom (th_pc ts) \<subseteq> {0})
     \<and> sv_nfds (loop_env watch mem se routes slot svr) = unat hard
     \<and> sv_listen (loop_env watch mem se routes slot svr) < unat hard
     \<and> conn_offset watch (nat (si_listen_fd svr)) + unat sizeof_server_connection \<le> unat (si_size svr)
     \<and> reachable (loop_env watch mem se routes slot svr) fd_open t
     \<and> length (ops t (nat (si_listen_fd svr))) + length (cqs t (nat (si_listen_fd svr))) = 1"
proof -
  let ?env = "loop_env watch mem se routes slot svr"
  have cs: "create_server watch (se_kern se) inet_aton pf malloc ''0.0.0.0'' 8080 k = Some (Some svr, k')"
    using main by (auto simp: sample_main_def bind_Some_iff split: option.splits)
  have opens: "\<forall>path fl k. keeps_open fd_open k (snd (sys_open (se_kern se) path fl k))"
    using fk unfolding fd_kernel_def by blast
  note c = created_server [OF bk small opens cs]
  have l: "int (sv_listen ?env) = si_listen_fd svr" using c(2) by (simp add: loop_env_def)
  then have lt: "nat (si_listen_fd svr) < unat hard" using c(4) by linarith
  have nfds: "sv_nfds ?env = unat hard" using c(1) svr_len_conns [OF small] by (simp add: loop_env_def)
  have "w_kst (ss_world s) = k'" using start
    by (auto simp: io_uring_listen_start_def push_defs bind_Some_iff split: if_splits)
  then have "server_init ?env fd_open s" using start c(3) l unfolding server_init_def by auto
  then have r: "reachable ?env fd_open t" by (intro reach_steps [OF run]) (rule reach_init)
  then have inv: "server_inv ?env fd_open t" using server.reach_inv [OF r] fk by (simp add: loop_env_def)
  have "conn_offset watch (nat (si_listen_fd svr)) + unat sizeof_server_connection \<le> unat (si_size svr)"
    unfolding c(1) by (rule svr_len_room [OF small lt])
  moreover have "length (ops t (sv_listen ?env)) + length (cqs t (sv_listen ?env)) = 1"
    using server_invD(1) [OF inv] by (auto simp: listen_ok_def Let_def)
  moreover have "dom (th_pc ts) \<subseteq> {0}" if "reach threads_init (threads_step tm (nat n)) ts" for ts
    using that single single_thread [of tm ts] by simp
  ultimately show ?thesis using nfds lt r by (simp add: loop_env_def)
qed


text \<open>A kernel with the set of open descriptors as its state and a limit of 16.\<close>

definition boot_demo :: "int set kernel" where
  "boot_demo = (\<lambda>regs k.
     if regs RAX = Some (Arg_int NR_getrlimit) then (0, Some (Obj_rlimit 8 16), k)
     else if regs RAX = Some (Arg_int NR_socket) then (3, None, insert 3 k)
     else if regs RAX = Some (Arg_int NR_open) then (if 4 \<in> k then (- 24, None, k) else (4, None, insert 4 k))
     else if regs RAX = Some (Arg_int NR_close)
       then (0, None, case regs RDI of Some (Arg_int fd) \<Rightarrow> k - {fd} | _ \<Rightarrow> k)
     else (0, None, k))"

definition boot_static :: "int set static_env" where
  "boot_static = \<lparr>se_kern = boot_demo, se_magic = (\<lambda>fd k. (None, k)), se_mmap = (\<lambda>fd sz k. (None, k))\<rparr>"

lemmas boot_demo_simps = boot_demo_def sys_close_def sys_open_def sys_fstat_def sys_socket_def sys_bind_def sys_listen_def
  sys_pipe2_def sys_getrlimit_def sys_setrlimit_def syscall_defs NR_defs c_result_def c_result_int_def int_of_rax_def

lemma boot_demo_kernel: "boot_kernel boot_demo fd_in 16" "fd_kernel boot_static fd_in"
  by (auto simp: boot_kernel_def fd_kernel_def boot_static_def boot_demo_simps keeps_open_def fd_in_def)

theorem main_starts_loop_witness:
  "\<exists>svr s. sample_main False boot_demo (\<lambda>_. Some 0) (Some ''8'') (\<lambda>n. True) [] {} = Some (Some (svr, 0), {3, 4})
     \<and> io_uring_listen_start (loop_env False some_env boot_static (app_routes some_env) (\<lambda>_. True) svr) 0 True {3, 4} (0, 1)
         = Some (Some s)
     \<and> sv_nfds (loop_env False some_env boot_static (app_routes some_env) (\<lambda>_. True) svr) = 16
     \<and> length (ops s 3) + length (cqs s 3) = 1"
proof -
  obtain svr where m: "sample_main False boot_demo (\<lambda>_. Some 0) (Some ''8'') (\<lambda>n. True) [] {} = Some (Some (svr, 0), {3, 4})"
    "si_listen_fd svr = 3"
    by (simp add: sample_main_def create_server_def create_listening_socket_def get_nofile_limit_def boot_demo_simps somaxconn_8
        Let_def to_int_def insert_commute)
  let ?env = "loop_env False some_env boot_static (app_routes some_env) (\<lambda>_. True) svr"
  obtain s where s: "io_uring_listen_start ?env 0 True {3, 4} (0, 1) = Some (Some s)"
    by (simp add: io_uring_listen_start_def push_defs loop_env_def)
  have k: "boot_kernel (se_kern boot_static) fd_in 16" "unat (16 :: u64) < 2 ^ 58" "se_kern boot_static = boot_demo"
    using boot_demo_kernel(1) by (simp_all add: boot_static_def)
  from main_starts_loop [OF k(1,2) boot_demo_kernel(2) _ _ s, of "\<lambda>_. Some 0" "Some ''8''" "\<lambda>n. True" "[]" "{}" 0 s] m k(3)
  show ?thesis using s by (intro exI [of _ svr] exI [of _ s]) simp
qed

end
