(* ===== verification/Murmur3_Spec.thy ===== *)
theory Murmur3_Spec
  imports C_Prelude
begin

text \<open>
  MurmurHash3 x64\_128 as published, apart from the program: on natural numbers with the
  reductions modulo \<^term>\<open>2 ^ 64\<close> written out, on a key that is consumed 16 bytes at a
  time. No definition of the model of \<open>lib/murmurhash3.c\<close> is used; the two are compared in
  the theory of that model. The constants are those of the published algorithm.
\<close>

section \<open>Arithmetic modulo two to the 64\<close>

definition m64 :: "nat \<Rightarrow> nat" where
  "m64 n = n mod 2 ^ 64"

text \<open>Rotation to the left by \<open>r\<close>: what overflows comes back at the bottom.\<close>

definition rol64 :: "nat \<Rightarrow> nat \<Rightarrow> nat" where
  "rol64 r x = m64 (x * 2 ^ r) + x div 2 ^ (64 - r)"

text \<open>The number a list of bytes is in little-endian order.\<close>

fun le_num :: "nat list \<Rightarrow> nat" where
  "le_num [] = 0"
| "le_num (b # bs) = b + 256 * le_num bs"

section \<open>Rounds\<close>

definition mul_c1 :: nat where "mul_c1 = 0x87c37b91114253d5"
definition mul_c2 :: nat where "mul_c2 = 0x4cf5ad432745937f"

definition mix_k1 :: "nat \<Rightarrow> nat" where
  "mix_k1 k = m64 (rol64 31 (m64 (k * mul_c1)) * mul_c2)"

definition mix_k2 :: "nat \<Rightarrow> nat" where
  "mix_k2 k = m64 (rol64 33 (m64 (k * mul_c2)) * mul_c1)"

definition mix_h1 :: "nat \<Rightarrow> nat \<Rightarrow> nat \<Rightarrow> nat" where
  "mix_h1 k h1 h2 = m64 ((rol64 27 (h1 XOR mix_k1 k) + h2) * 5 + 0x52dce729)"

definition mix_h2 :: "nat \<Rightarrow> nat \<Rightarrow> nat \<Rightarrow> nat" where
  "mix_h2 k h2 h1 = m64 ((rol64 31 (h2 XOR mix_k2 k) + h1) * 5 + 0x38495ab5)"

text \<open>Blocks of 16 bytes first; the at most 15 bytes left enter without the second mixing.\<close>

function absorb :: "nat list \<Rightarrow> nat \<times> nat \<Rightarrow> nat \<times> nat" where
  "absorb bs (h1, h2) =
     (if length bs < 16
      then (h1 XOR mix_k1 (le_num (take 8 bs)), h2 XOR mix_k2 (le_num (drop 8 bs)))
      else let h1' = mix_h1 (le_num (take 8 bs)) h1 h2;
               h2' = mix_h2 (le_num (take 8 (drop 8 bs))) h2 h1'
           in absorb (drop 16 bs) (h1', h2'))"
  by pat_completeness auto
termination by (relation "measure (length \<circ> fst)") auto

section \<open>Finalisation\<close>

definition avalanche :: "nat \<Rightarrow> nat" where
  "avalanche k =
     (let a = m64 ((k XOR k div 2 ^ 33) * 0xff51afd7ed558ccd);
          b = m64 ((a XOR a div 2 ^ 33) * 0xc4ceb9fe1a85ec53)
      in b XOR b div 2 ^ 33)"

fun with_length :: "nat \<Rightarrow> nat \<times> nat \<Rightarrow> nat \<times> nat" where
  "with_length n (a, b) = (a XOR n, b XOR n)"

fun sum_up :: "nat \<times> nat \<Rightarrow> nat \<times> nat" where
  "sum_up (a, b) = (m64 (a + b), m64 (b + m64 (a + b)))"

definition murmur3_x64_128 :: "nat list \<Rightarrow> nat \<Rightarrow> nat \<times> nat" where
  "murmur3_x64_128 bs seed =
     sum_up (map_prod avalanche avalanche (sum_up (with_length (length bs) (absorb bs (seed, seed)))))"

text \<open>
  Two published values of the function: the keys are \<open>hello\<close> and \<open>The quick brown fox
  jumps over the lazy dog\<close>, which has two blocks and 11 bytes left.
\<close>

lemmas murmur3_eval = avalanche_def mix_h1_def mix_h2_def mix_k1_def mix_k2_def mul_c1_def mul_c2_def rol64_def m64_def

lemma murmur3_hello:
  "murmur3_x64_128 [104, 101, 108, 108, 111] 0 = (0xcbd8a7b341bd9b02, 0x5b1e906a48ae1d19)"
proof -
  have "length [104, 101, 108, 108, 111 :: nat] = 5" by simp
  then show ?thesis unfolding murmur3_x64_128_def by (simp only:) (simp add: murmur3_eval)
qed

lemma murmur3_fox:
  "murmur3_x64_128
   [84, 104, 101, 32, 113, 117, 105, 99, 107, 32, 98, 114, 111, 119, 110, 32, 102, 111, 120, 32, 106,
   117, 109, 112, 115, 32, 111, 118, 101, 114, 32, 116, 104, 101, 32, 108, 97, 122, 121, 32, 100, 111,
   103] 0
     = (0xe34bbc7bbc071b6c, 0x7a433ca9c49a9347)"
  (is "murmur3_x64_128 ?k 0 = _")
proof -
  have "length ?k = 43" by simp
  then show ?thesis unfolding murmur3_x64_128_def by (simp only:) (simp add: murmur3_eval)
qed

end
