(* ===== verification/Murmur3.thy ===== *)
theory Murmur3
  imports Murmur3_Spec
begin

text \<open>
  The three hash functions of \<open>lib/murmurhash3.c\<close>. A key is the object behind the pointer,
  a list of bytes; reading outside it is \<^term>\<open>None\<close>. Lengths are not negative (the callers
  pass \<open>strlen\<close> and \<open>sizeof\<close> values). The blocks are read as little-endian words, as on
  x86. The locale \<open>mixer\<close> is the contract of a mixing step, that it can be undone; it is
  interpreted on the steps of the code, from which the injectivity results follow.
\<close>

section \<open>Model\<close>

subsection \<open>Rotations, blocks and finalisers\<close>

definition rotl32 :: "u32 \<Rightarrow> nat \<Rightarrow> u32" where
  "rotl32 x r = push_bit r x OR drop_bit (32 - r) x"

definition rotl64 :: "u64 \<Rightarrow> nat \<Rightarrow> u64" where
  "rotl64 x r = push_bit r x OR drop_bit (64 - r) x"

definition byte_at :: "byte list \<Rightarrow> nat \<Rightarrow> byte option" where
  "byte_at d i = (if i < length d then Some (d ! i) else None)"

definition getblock32 :: "byte list \<Rightarrow> nat \<Rightarrow> u32 option" where
  "getblock32 d i = (if 4 * i + 4 \<le> length d
     then Some (ucast (d ! (4 * i)) OR push_bit 8 (ucast (d ! (4 * i + 1)))
       OR push_bit 16 (ucast (d ! (4 * i + 2))) OR push_bit 24 (ucast (d ! (4 * i + 3)))) else None)"

definition getblock64 :: "byte list \<Rightarrow> nat \<Rightarrow> u64 option" where
  "getblock64 d i = (if 8 * i + 8 \<le> length d
     then Some (ucast (d ! (8 * i)) OR push_bit 8 (ucast (d ! (8 * i + 1)))
       OR push_bit 16 (ucast (d ! (8 * i + 2))) OR push_bit 24 (ucast (d ! (8 * i + 3)))
       OR push_bit 32 (ucast (d ! (8 * i + 4))) OR push_bit 40 (ucast (d ! (8 * i + 5)))
       OR push_bit 48 (ucast (d ! (8 * i + 6))) OR push_bit 56 (ucast (d ! (8 * i + 7)))) else None)"

definition fmix32 :: "u32 \<Rightarrow> u32" where
  "fmix32 h =
     (let h1 = h XOR drop_bit 16 h; h2 = h1 * 0x85ebca6b; h3 = h2 XOR drop_bit 13 h2; h4 = h3 * 0xc2b2ae35
      in h4 XOR drop_bit 16 h4)"

definition fmix64 :: "u64 \<Rightarrow> u64" where
  "fmix64 k =
     (let k1 = k XOR drop_bit 33 k; k2 = k1 * 0xff51afd7ed558ccd; k3 = k2 XOR drop_bit 33 k2;
          k4 = k3 * 0xc4ceb9fe1a85ec53
      in k4 XOR drop_bit 33 k4)"

text \<open>The three statements \<open>k *= a; k = ROTL(k, r); k *= b;\<close>.\<close>

definition scramble32 :: "u32 \<Rightarrow> nat \<Rightarrow> u32 \<Rightarrow> u32 \<Rightarrow> u32" where
  "scramble32 a r b k = rotl32 (k * a) r * b"

definition scramble64 :: "u64 \<Rightarrow> nat \<Rightarrow> u64 \<Rightarrow> u64 \<Rightarrow> u64" where
  "scramble64 a r b k = rotl64 (k * a) r * b"

text \<open>
  The fall-through of \<open>case n: k ^= tail[n - 1] << 8 * (n - 1)\<close> down to \<open>case 1\<close>, for the
  bytes from offset \<open>p\<close> on.
\<close>

fun xor_tail :: "byte list \<Rightarrow> nat \<Rightarrow> nat \<Rightarrow> 'a::len word \<Rightarrow> 'a word option" where
  "xor_tail d p 0 k = Some k"
| "xor_tail d p (Suc n) k =
     do { b \<leftarrow> byte_at d (p + n); xor_tail d p n (k XOR push_bit (8 * n) (ucast b)) }"

subsection \<open>MurmurHash3\_x86\_32\<close>

text \<open>The loop \<open>for (int i = -nblocks; i; i++)\<close> with \<open>-i\<close> rounds to go.\<close>

fun x86_32_body :: "byte list \<Rightarrow> nat \<Rightarrow> nat \<Rightarrow> u32 \<Rightarrow> u32 option" where
  "x86_32_body d nblocks 0 h1 = Some h1"
| "x86_32_body d nblocks (Suc n) h1 =
     do {
       k1 \<leftarrow> getblock32 d (nblocks - Suc n);
       x86_32_body d nblocks n (rotl32 (h1 XOR scramble32 0xcc9e2d51 15 0x1b873593 k1) 13 * 5 + 0xe6546b64)
     }"

definition x86_32_tail :: "byte list \<Rightarrow> nat \<Rightarrow> nat \<Rightarrow> u32 \<Rightarrow> u32 option" where
  "x86_32_tail d p n h1 =
     (if n = 0 then Some h1
      else do { k1 \<leftarrow> xor_tail d p n 0; Some (h1 XOR scramble32 0xcc9e2d51 15 0x1b873593 k1) })"

definition MurmurHash3_x86_32 :: "byte list \<Rightarrow> nat \<Rightarrow> u32 \<Rightarrow> u32 option" where
  "MurmurHash3_x86_32 key len seed =
     do {
       let nblocks = len div 4;
       h1 \<leftarrow> x86_32_body key nblocks nblocks seed;
       h1 \<leftarrow> x86_32_tail key (4 * nblocks) (len mod 4) h1;
       Some (fmix32 (h1 XOR of_nat len))
     }"

subsection \<open>MurmurHash3\_x86\_128\<close>

type_synonym h128 = "u32 \<times> u32 \<times> u32 \<times> u32"

definition x86_128_round :: "h128 \<Rightarrow> h128 \<Rightarrow> h128" where
  "x86_128_round k h = (case (k, h) of ((k1, k2, k3, k4), (h1, h2, h3, h4)) \<Rightarrow>
     let h1 = h1 XOR scramble32 0x239b961b 15 0xab0e9789 k1;
         h1 = (rotl32 h1 19 + h2) * 5 + 0x561ccd1b;
         h2 = h2 XOR scramble32 0xab0e9789 16 0x38b34ae5 k2;
         h2 = (rotl32 h2 17 + h3) * 5 + 0x0bcaa747;
         h3 = h3 XOR scramble32 0x38b34ae5 17 0xa1e38b93 k3;
         h3 = (rotl32 h3 15 + h4) * 5 + 0x96cd1c35;
         h4 = h4 XOR scramble32 0xa1e38b93 18 0x239b961b k4;
         h4 = (rotl32 h4 13 + h1) * 5 + 0x32ac3b17
     in (h1, h2, h3, h4))"

fun x86_128_body :: "byte list \<Rightarrow> nat \<Rightarrow> nat \<Rightarrow> h128 \<Rightarrow> h128 option" where
  "x86_128_body d nblocks 0 h = Some h"
| "x86_128_body d nblocks (Suc n) h =
     do {
       let i = nblocks - Suc n;
       k1 \<leftarrow> getblock32 d (i * 4 + 0);
       k2 \<leftarrow> getblock32 d (i * 4 + 1);
       k3 \<leftarrow> getblock32 d (i * 4 + 2);
       k4 \<leftarrow> getblock32 d (i * 4 + 3);
       x86_128_body d nblocks n (x86_128_round (k1, k2, k3, k4) h)
     }"

text \<open>One word of the tail: the cases from \<open>p + n\<close> down to \<open>p + 1\<close>, if any is taken.\<close>

definition x86_128_word :: "byte list \<Rightarrow> nat \<Rightarrow> nat \<Rightarrow> u32 \<Rightarrow> nat \<Rightarrow> u32 \<Rightarrow> u32 \<Rightarrow> u32 option" where
  "x86_128_word d p n a r b h =
     (if n = 0 then Some h else do { k \<leftarrow> xor_tail d p n 0; Some (h XOR scramble32 a r b k) })"

definition x86_128_tail :: "byte list \<Rightarrow> nat \<Rightarrow> nat \<Rightarrow> h128 \<Rightarrow> h128 option" where
  "x86_128_tail d p n h = (case h of (h1, h2, h3, h4) \<Rightarrow>
     do {
       h4 \<leftarrow> x86_128_word d (p + 12) (n - 12) 0xa1e38b93 18 0x239b961b h4;
       h3 \<leftarrow> x86_128_word d (p + 8) (min 4 (n - 8)) 0x38b34ae5 17 0xa1e38b93 h3;
       h2 \<leftarrow> x86_128_word d (p + 4) (min 4 (n - 4)) 0xab0e9789 16 0x38b34ae5 h2;
       h1 \<leftarrow> x86_128_word d p (min 4 n) 0x239b961b 15 0xab0e9789 h1;
       Some (h1, h2, h3, h4)
     })"

text \<open>The statements \<open>h1 += h2; h1 += h3; h1 += h4; h2 += h1; h3 += h1; h4 += h1;\<close>.\<close>

definition add_all :: "h128 \<Rightarrow> h128" where
  "add_all h = (case h of (h1, h2, h3, h4) \<Rightarrow>
     let h1 = h1 + h2 + h3 + h4 in (h1, h2 + h1, h3 + h1, h4 + h1))"

definition x86_128_final :: "nat \<Rightarrow> h128 \<Rightarrow> h128" where
  "x86_128_final len h = (case h of (h1, h2, h3, h4) \<Rightarrow>
     case add_all (h1 XOR of_nat len, h2 XOR of_nat len, h3 XOR of_nat len, h4 XOR of_nat len) of
       (h1, h2, h3, h4) \<Rightarrow> add_all (fmix32 h1, fmix32 h2, fmix32 h3, fmix32 h4))"

definition MurmurHash3_x86_128 :: "byte list \<Rightarrow> nat \<Rightarrow> u32 \<Rightarrow> h128 option" where
  "MurmurHash3_x86_128 key len seed =
     do {
       let nblocks = len div 16;
       h \<leftarrow> x86_128_body key nblocks nblocks (seed, seed, seed, seed);
       h \<leftarrow> x86_128_tail key (16 * nblocks) (len mod 16) h;
       Some (x86_128_final len h)
     }"

subsection \<open>MurmurHash3\_x64\_128\<close>

definition x64_128_round :: "u64 \<times> u64 \<Rightarrow> u64 \<times> u64 \<Rightarrow> u64 \<times> u64" where
  "x64_128_round k h = (case (k, h) of ((k1, k2), (h1, h2)) \<Rightarrow>
     let h1 = h1 XOR scramble64 0x87c37b91114253d5 31 0x4cf5ad432745937f k1;
         h1 = (rotl64 h1 27 + h2) * 5 + 0x52dce729;
         h2 = h2 XOR scramble64 0x4cf5ad432745937f 33 0x87c37b91114253d5 k2;
         h2 = (rotl64 h2 31 + h1) * 5 + 0x38495ab5
     in (h1, h2))"

text \<open>The loop \<open>for (int i = 0; i < nblocks; i++)\<close> with \<open>n\<close> rounds to go.\<close>

fun x64_128_body :: "byte list \<Rightarrow> nat \<Rightarrow> nat \<Rightarrow> u64 \<times> u64 \<Rightarrow> (u64 \<times> u64) option" where
  "x64_128_body d i 0 h = Some h"
| "x64_128_body d i (Suc n) h =
     do {
       k1 \<leftarrow> getblock64 d (i * 2 + 0);
       k2 \<leftarrow> getblock64 d (i * 2 + 1);
       x64_128_body d (i + 1) n (x64_128_round (k1, k2) h)
     }"

definition x64_128_word :: "byte list \<Rightarrow> nat \<Rightarrow> nat \<Rightarrow> u64 \<Rightarrow> nat \<Rightarrow> u64 \<Rightarrow> u64 \<Rightarrow> u64 option" where
  "x64_128_word d p n a r b h =
     (if n = 0 then Some h else do { k \<leftarrow> xor_tail d p n 0; Some (h XOR scramble64 a r b k) })"

definition x64_128_tail :: "byte list \<Rightarrow> nat \<Rightarrow> nat \<Rightarrow> u64 \<times> u64 \<Rightarrow> (u64 \<times> u64) option" where
  "x64_128_tail d p n h = (case h of (h1, h2) \<Rightarrow>
     do {
       h2 \<leftarrow> x64_128_word d (p + 8) (n - 8) 0x4cf5ad432745937f 33 0x87c37b91114253d5 h2;
       h1 \<leftarrow> x64_128_word d p (min 8 n) 0x87c37b91114253d5 31 0x4cf5ad432745937f h1;
       Some (h1, h2)
     })"

definition x64_128_final :: "nat \<Rightarrow> u64 \<times> u64 \<Rightarrow> u64 \<times> u64" where
  "x64_128_final len h = (case h of (h1, h2) \<Rightarrow>
     let h1 = h1 XOR of_nat len; h2 = h2 XOR of_nat len;
         h1 = h1 + h2; h2 = h2 + h1;
         h1 = fmix64 h1; h2 = fmix64 h2;
         h1 = h1 + h2; h2 = h2 + h1
     in (h1, h2))"

definition MurmurHash3_x64_128 :: "byte list \<Rightarrow> nat \<Rightarrow> u32 \<Rightarrow> (u64 \<times> u64) option" where
  "MurmurHash3_x64_128 key len seed =
     do {
       let nblocks = len div 16;
       h \<leftarrow> x64_128_body key 0 nblocks (ucast seed, ucast seed);
       h \<leftarrow> x64_128_tail key (16 * nblocks) (len mod 16) h;
       Some (x64_128_final len h)
     }"

section \<open>The hashes as folds over the blocks\<close>

text \<open>The little-endian word of a list of bytes.\<close>

fun le :: "byte list \<Rightarrow> 'a::len word" where
  "le [] = 0"
| "le (b # bs) = ucast b OR push_bit 8 (le bs)"

lemma bit_le: "bit (le bs :: 'a::len word) i \<longleftrightarrow> i < LENGTH('a) \<and> i div 8 < length bs \<and> bit (bs ! (i div 8)) (i mod 8)"
proof (induction bs arbitrary: i)
  case (Cons b bs)
  show ?case
  proof (cases "i < 8")
    case True
    then show ?thesis by (auto simp: bit_simps)
  next
    case False
    then obtain j where i: "i = j + 8" using le_Suc_ex [of 8 i] by (auto simp: add.commute)
    have "\<not> bit b i" using bit_imp_le_length [of b i] i by auto
    moreover have "(j + 8) div 8 = Suc (j div 8)" by simp
    ultimately show ?thesis using Cons.IH [of j] by (auto simp: bit_simps i)
  qed
qed simp

lemma le_snoc: "8 * length bs < LENGTH('a) \<Longrightarrow> (le (bs @ [b]) :: 'a::len word) = le bs XOR push_bit (8 * length bs) (ucast b)"
proof (rule bit_word_eqI)
  fix i assume "8 * length bs < LENGTH('a)" "i < LENGTH('a)"
  have "i div 8 = length bs \<longleftrightarrow> 8 * length bs \<le> i \<and> i - 8 * length bs < 8" by auto
  moreover have "i mod 8 = i - 8 * length bs" if "i div 8 = length bs" using that minus_mult_div_eq_mod [of i 8] by simp
  moreover have "bit b n \<Longrightarrow> n < 8" for n using bit_imp_le_length [of b n] by simp
  moreover have "i div 8 < length bs \<Longrightarrow> \<not> 8 * length bs \<le> i" by auto
  ultimately show "bit (le (bs @ [b]) :: 'a word) i = bit (le bs XOR push_bit (8 * length bs) (ucast b) :: 'a word) i"
    using \<open>i < _\<close> by (auto simp: bit_le bit_simps nth_append less_Suc_eq)
qed

lemma drop_bit_twice: "LENGTH('a) \<le> 2 * n \<Longrightarrow> drop_bit n (drop_bit n (x :: 'a::len word)) = 0"
  by (rule bit_word_eqI) (auto simp: bit_simps dest: bit_imp_le_length)

lemma rotate_back:
  fixes x :: "'a::len word"
  assumes "0 < r" and "r < LENGTH('a)"
  shows "push_bit (LENGTH('a) - r) (push_bit r x OR drop_bit (LENGTH('a) - r) x)
       OR drop_bit r (push_bit r x OR drop_bit (LENGTH('a) - r) x) = x"
  using assms by (intro bit_word_eqI) (auto simp: bit_simps dest: bit_imp_le_length)

text \<open>The key as a list of blocks, and the hash as a fold over them.\<close>

definition words32 :: "byte list \<Rightarrow> u32 list" where
  "words32 bs = map (\<lambda>i. le (take 4 (drop (4 * i) bs))) [0..<length bs div 4]"

definition quads32 :: "byte list \<Rightarrow> h128 list" where
  "quads32 bs = map (\<lambda>i. (le (take 4 (drop (16 * i) bs)), le (take 4 (drop (16 * i + 4) bs)),
     le (take 4 (drop (16 * i + 8) bs)), le (take 4 (drop (16 * i + 12) bs)))) [0..<length bs div 16]"

definition pairs64 :: "byte list \<Rightarrow> (u64 \<times> u64) list" where
  "pairs64 bs = map (\<lambda>i. (le (take 8 (drop (16 * i) bs)), le (take 8 (drop (16 * i + 8) bs)))) [0..<length bs div 16]"

text \<open>The bytes after the last whole block of \<open>n\<close>.\<close>

definition rest :: "nat \<Rightarrow> byte list \<Rightarrow> byte list" where
  "rest n bs = drop (n * (length bs div n)) bs"

definition x86_32_spec :: "byte list \<Rightarrow> u32 \<Rightarrow> u32" where
  "x86_32_spec bs seed =
     (let h = fold (\<lambda>k h. rotl32 (h XOR scramble32 0xcc9e2d51 15 0x1b873593 k) 13 * 5 + 0xe6546b64) (words32 bs) seed
      in fmix32 (h XOR scramble32 0xcc9e2d51 15 0x1b873593 (le (rest 4 bs)) XOR of_nat (length bs)))"

definition x86_128_spec :: "byte list \<Rightarrow> u32 \<Rightarrow> h128" where
  "x86_128_spec bs seed =
     (case fold x86_128_round (quads32 bs) (seed, seed, seed, seed) of (h1, h2, h3, h4) \<Rightarrow>
        let t = rest 16 bs in
        x86_128_final (length bs)
          (h1 XOR scramble32 0x239b961b 15 0xab0e9789 (le (take 4 t)),
           h2 XOR scramble32 0xab0e9789 16 0x38b34ae5 (le (take 4 (drop 4 t))),
           h3 XOR scramble32 0x38b34ae5 17 0xa1e38b93 (le (take 4 (drop 8 t))),
           h4 XOR scramble32 0xa1e38b93 18 0x239b961b (le (drop 12 t))))"

definition x64_128_spec :: "byte list \<Rightarrow> u32 \<Rightarrow> u64 \<times> u64" where
  "x64_128_spec bs seed =
     (case fold x64_128_round (pairs64 bs) (ucast seed, ucast seed) of (h1, h2) \<Rightarrow>
        let t = rest 16 bs in
        x64_128_final (length bs)
          (h1 XOR scramble64 0x87c37b91114253d5 31 0x4cf5ad432745937f (le (take 8 t)),
           h2 XOR scramble64 0x4cf5ad432745937f 33 0x87c37b91114253d5 (le (drop 8 t))))"

section \<open>The code computes the folds\<close>

lemma take_nths:
  "i + 4 \<le> length d \<Longrightarrow> take 4 (drop i d) = [d ! i, d ! (i + 1), d ! (i + 2), d ! (i + 3)]"
  "i + 8 \<le> length d \<Longrightarrow> take 8 (drop i d) =
     [d ! i, d ! (i + 1), d ! (i + 2), d ! (i + 3), d ! (i + 4), d ! (i + 5), d ! (i + 6), d ! (i + 7)]"
  by (intro nth_equalityI; simp; force simp: less_Suc_eq nth_Cons' numeral_eq_Suc)+

lemma getblock32_le: "4 * i + 4 \<le> length d \<Longrightarrow> getblock32 d i = Some (le (take 4 (drop (4 * i) d)))"
  by (simp add: getblock32_def take_nths(1) push_bit_or push_bit_push_bit or.assoc)

lemma getblock64_le: "8 * i + 8 \<le> length d \<Longrightarrow> getblock64 d i = Some (le (take 8 (drop (8 * i) d)))"
  by (simp add: getblock64_def take_nths(2) push_bit_or push_bit_push_bit or.assoc)

lemma xor_tail_le:
  "p + n \<le> length d \<Longrightarrow> 8 * n \<le> LENGTH('a) \<Longrightarrow>
     xor_tail d p n (k :: 'a::len word) = Some (k XOR le (take n (drop p d)))"
proof (induction n arbitrary: k)
  case (Suc n)
  then have "take (Suc n) (drop p d) = take n (drop p d) @ [d ! (p + n)]" "length (take n (drop p d)) = n"
    by (simp_all add: take_Suc_conv_app_nth)
  with Suc show ?case by (simp add: byte_at_def le_snoc ac_simps)
qed simp

lemma scramble_zero [simp]: "scramble32 a r b 0 = 0" "scramble64 c r e 0 = 0"
  by (simp_all add: scramble32_def scramble64_def rotl32_def rotl64_def)

lemma upt_step: "n < m \<Longrightarrow> [n..<m] = n # [Suc n..<m]"
  by (rule upt_conv_Cons)

lemma x86_32_body_fold:
  assumes "n \<le> nb" and "4 * nb \<le> length d"
  shows "x86_32_body d nb n h =
     Some (fold (\<lambda>k h. rotl32 (h XOR scramble32 0xcc9e2d51 15 0x1b873593 k) 13 * 5 + 0xe6546b64)
       (map (\<lambda>i. le (take 4 (drop (4 * i) d))) [nb - n..<nb]) h)"
  using assms
proof (induction n arbitrary: h)
  case (Suc n)
  then have "[nb - Suc n..<nb] = (nb - Suc n) # [nb - n..<nb]" by (simp add: upt_step Suc_diff_Suc)
  moreover have "getblock32 d (nb - Suc n) = Some (le (take 4 (drop (4 * (nb - Suc n)) d)))"
    using Suc.prems by (intro getblock32_le) auto
  ultimately show ?case using Suc.IH Suc.prems by (simp del: upt.simps)
qed simp

lemma x86_128_body_fold:
  assumes "n \<le> nb" and "16 * nb \<le> length d"
  shows "x86_128_body d nb n h =
     Some (fold x86_128_round (map (\<lambda>i. (le (take 4 (drop (16 * i) d)), le (take 4 (drop (16 * i + 4) d)),
       le (take 4 (drop (16 * i + 8) d)), le (take 4 (drop (16 * i + 12) d)))) [nb - n..<nb]) h)"
  using assms
proof (induction n arbitrary: h)
  case (Suc n)
  let ?i = "nb - Suc n"
  from Suc have "[?i..<nb] = ?i # [nb - n..<nb]" by (simp add: upt_step Suc_diff_Suc)
  moreover have "getblock32 d (?i * 4 + j) = Some (le (take 4 (drop (16 * ?i + 4 * j) d)))" if "j < 4" for j
    using Suc.prems that getblock32_le [of "?i * 4 + j" d] by (simp add: algebra_simps)
  from this [of 0] this [of 1] this [of 2] this [of 3]
  have "getblock32 d (?i * 4) = Some (le (take 4 (drop (16 * ?i) d)))"
    "getblock32 d (?i * 4 + 1) = Some (le (take 4 (drop (16 * ?i + 4) d)))"
    "getblock32 d (?i * 4 + 2) = Some (le (take 4 (drop (16 * ?i + 8) d)))"
    "getblock32 d (?i * 4 + 3) = Some (le (take 4 (drop (16 * ?i + 12) d)))" by simp_all
  ultimately show ?case using Suc.IH Suc.prems by (simp add: Let_def del: upt.simps)
qed simp

lemma x64_128_body_fold:
  assumes "16 * (i + n) \<le> length d"
  shows "x64_128_body d i n h =
     Some (fold x64_128_round (map (\<lambda>i. (le (take 8 (drop (16 * i) d)), le (take 8 (drop (16 * i + 8) d)))) [i..<i + n]) h)"
  using assms
proof (induction n arbitrary: i h)
  case (Suc n)
  have "[i..<i + Suc n] = i # [i + 1..<(i + 1) + n]" by (simp add: upt_step)
  moreover have "getblock64 d (i * 2) = Some (le (take 8 (drop (16 * i) d)))"
    "getblock64 d (i * 2 + 1) = Some (le (take 8 (drop (16 * i + 8) d)))"
    using Suc.prems getblock64_le [of "i * 2" d] getblock64_le [of "i * 2 + 1" d] by (simp_all add: algebra_simps)
  ultimately show ?case using Suc.IH [of "i + 1"] Suc.prems by (simp del: upt.simps)
qed simp

text \<open>A word of the rest of \<open>n\<close> bytes at \<open>p\<close>, from its byte \<open>j\<close> on.\<close>

lemma tail_word:
  assumes "p + n \<le> length d" and "m = min 4 (n - j)"
  shows "x86_128_word d (p + j) m a r b h = Some (h XOR scramble32 a r b (le (take 4 (drop j (take n (drop p d))))))"
proof (cases "m = 0")
  case True
  with assms(2) show ?thesis by (simp add: x86_128_word_def)
next
  case False
  with assms have "p + j + m \<le> length d" "m \<le> 4" by auto
  then have "xor_tail d (p + j) m (0 :: u32) = Some (0 XOR le (take m (drop (p + j) d)))" by (intro xor_tail_le) simp_all
  moreover have "take m (drop (p + j) d) = take 4 (drop j (take n (drop p d)))"
    using assms(2) by (simp add: drop_take add.commute min.commute)
  ultimately show ?thesis using False by (simp add: x86_128_word_def)
qed

lemma tail_word64:
  assumes "p + n \<le> length d" and "m = min 8 (n - j)"
  shows "x64_128_word d (p + j) m a r b h = Some (h XOR scramble64 a r b (le (take 8 (drop j (take n (drop p d))))))"
proof (cases "m = 0")
  case True
  with assms(2) show ?thesis by (simp add: x64_128_word_def)
next
  case False
  with assms have "p + j + m \<le> length d" "m \<le> 8" by auto
  then have "xor_tail d (p + j) m (0 :: u64) = Some (0 XOR le (take m (drop (p + j) d)))" by (intro xor_tail_le) simp_all
  moreover have "take m (drop (p + j) d) = take 8 (drop j (take n (drop p d)))"
    using assms(2) by (simp add: drop_take add.commute min.commute)
  ultimately show ?thesis using False by (simp add: x64_128_word_def)
qed

lemma x86_128_tail_words:
  assumes "p + n \<le> length d" and "n < 16" and "t = take n (drop p d)"
  shows "x86_128_tail d p n (h1, h2, h3, h4) =
     Some (h1 XOR scramble32 0x239b961b 15 0xab0e9789 (le (take 4 t)),
           h2 XOR scramble32 0xab0e9789 16 0x38b34ae5 (le (take 4 (drop 4 t))),
           h3 XOR scramble32 0x38b34ae5 17 0xa1e38b93 (le (take 4 (drop 8 t))),
           h4 XOR scramble32 0xa1e38b93 18 0x239b961b (le (drop 12 t)))"
proof -
  have "take 4 (drop 12 t) = drop 12 t" using assms(2,3) by simp
  moreover have "n - 12 = min 4 (n - 12)" using assms(2) by simp
  ultimately show ?thesis
    using tail_word [OF assms(1), of _ 0] tail_word [OF assms(1), of _ 4] tail_word [OF assms(1), of _ 8]
      tail_word [OF assms(1), of _ 12] assms(3) by (simp add: x86_128_tail_def)
qed

lemma x64_128_tail_words:
  assumes "p + n \<le> length d" and "n < 16" and "t = take n (drop p d)"
  shows "x64_128_tail d p n (h1, h2) =
     Some (h1 XOR scramble64 0x87c37b91114253d5 31 0x4cf5ad432745937f (le (take 8 t)),
           h2 XOR scramble64 0x4cf5ad432745937f 33 0x87c37b91114253d5 (le (drop 8 t)))"
proof -
  have "take 8 (drop 8 t) = drop 8 t" using assms(2,3) by simp
  moreover have "n - 8 = min 8 (n - 8)" using assms(2) by simp
  ultimately show ?thesis
    using tail_word64 [OF assms(1), of _ 0] tail_word64 [OF assms(1), of _ 8] assms(3) by (simp add: x64_128_tail_def)
qed

lemma rest_take: "len \<le> length key \<Longrightarrow> rest n (take len key) = take (len mod n) (drop (n * (len div n)) key)"
  by (simp add: rest_def drop_take min_def minus_mult_div_eq_mod)

lemma block_bound: "n * (len div n) + len mod n \<le> length key" if "len \<le> length key" for key :: "byte list"
  using that by simp

section \<open>Mixing steps can be undone\<close>

locale mixer =
  fixes f g :: "'a \<Rightarrow> 'a"
  assumes undo: "g (f x) = x" and redo: "f (g x) = x"
begin

lemma mix_inj: "f x = f y \<longleftrightarrow> x = y"
  by (metis undo)

lemma mix_bij: "bij f"
  by (metis bijI' redo undo)

end

text \<open>The rotation for words of any length, and the shape of \<open>scramble32\<close> and \<open>scramble64\<close>.\<close>

definition rot :: "nat \<Rightarrow> 'a::len word \<Rightarrow> 'a word" where
  "rot r x = push_bit r x OR drop_bit (LENGTH('a) - r) x"

locale scrambler =
  fixes a b a' b' :: "'a::len word" and r :: nat
  assumes inverses: "a * a' = 1" "b * b' = 1" and range: "0 < r" "r < LENGTH('a)"
begin

lemma rot_undo: "rot (LENGTH('a) - r) (rot r x) = (x :: 'a word)" "rot r (rot (LENGTH('a) - r) x) = x"
  using range rotate_back [of r x] rotate_back [of "LENGTH('a) - r" x] by (simp_all add: rot_def or.commute)

end

sublocale scrambler \<subseteq> mixer "\<lambda>k. rot r (k * a) * b" "\<lambda>k. rot (LENGTH('a) - r) (k * b') * a'"
proof
  have c: "x * a * a' = x" "x * a' * a = x" "x * b * b' = x" "x * b' * b = x" for x
    using inverses by (simp_all add: mult.assoc mult.commute [of a' a] mult.commute [of b' b])
  show "rot (LENGTH('a) - r) (rot r (x * a) * b * b') * a' = x" for x by (simp add: c rot_undo)
  show "rot r (rot (LENGTH('a) - r) (x * b') * a' * a) * b = x" for x by (simp add: c rot_undo)
qed

interpretation scr1: scrambler "0xcc9e2d51 :: u32" "0x1b873593" "0xdee13bb1" "0x56ed309b" 15
  by unfold_locales simp_all
interpretation scr128_1: scrambler "0x239b961b :: u32" "0xab0e9789" "0x89c95413" "0xdf130eb9" 15
  by unfold_locales simp_all
interpretation scr128_2: scrambler "0xab0e9789 :: u32" "0x38b34ae5" "0xdf130eb9" "0x747862ed" 16
  by unfold_locales simp_all
interpretation scr128_3: scrambler "0x38b34ae5 :: u32" "0xa1e38b93" "0x747862ed" "0x58d64a9b" 17
  by unfold_locales simp_all
interpretation scr128_4: scrambler "0xa1e38b93 :: u32" "0x239b961b" "0x58d64a9b" "0x89c95413" 18
  by unfold_locales simp_all
interpretation scr64_1: scrambler "0x87c37b91114253d5 :: u64" "0x4cf5ad432745937f" "0xa98409e882ce4d7d"
  "0xa81e14edd9de2c7f" 31
  by unfold_locales simp_all
interpretation scr64_2: scrambler "0x4cf5ad432745937f :: u64" "0x87c37b91114253d5" "0xa81e14edd9de2c7f"
  "0xa98409e882ce4d7d" 33
  by unfold_locales simp_all

lemma scramble_rot: "scramble32 a r b k = rot r (k * a) * b" "scramble64 c r e l = rot r (l * c) * e"
  by (simp_all add: scramble32_def scramble64_def rot_def rotl32_def rotl64_def)

lemmas scramble_inj = scr1.mix_inj scr128_1.mix_inj scr128_2.mix_inj scr128_3.mix_inj scr128_4.mix_inj
  scr64_1.mix_inj scr64_2.mix_inj

text \<open>The finalisers.\<close>

definition xorshift :: "nat \<Rightarrow> 'a::len word \<Rightarrow> 'a word" where
  "xorshift n x = x XOR drop_bit n x"

definition unshift_13 :: "u32 \<Rightarrow> u32" where
  "unshift_13 x = x XOR drop_bit 13 x XOR drop_bit 26 x"

lemma xorshift_half:
  assumes "LENGTH('a) \<le> 2 * n"
  shows "xorshift n (xorshift n x) = (x :: 'a::len word)"
  using drop_bit_twice [OF assms, of x] by (simp add: xorshift_def drop_bit_xor xor.assoc xor.left_commute)

lemma xorshift_13: "unshift_13 (xorshift 13 x) = x" "xorshift 13 (unshift_13 x) = x"
proof -
  have "drop_bit 39 x = 0" by (rule bit_word_eqI) (auto simp: bit_simps dest: bit_imp_le_length)
  then show "unshift_13 (xorshift 13 x) = x" "xorshift 13 (unshift_13 x) = x"
    by (simp_all add: xorshift_def unshift_13_def drop_bit_xor xor.assoc xor.left_commute)
qed

lemma fmix32_steps: "fmix32 h = xorshift 16 (xorshift 13 (xorshift 16 h * 0x85ebca6b) * 0xc2b2ae35)"
  by (simp add: fmix32_def xorshift_def Let_def)

lemma fmix64_steps:
  "fmix64 k = xorshift 33 (xorshift 33 (xorshift 33 k * 0xff51afd7ed558ccd) * 0xc4ceb9fe1a85ec53)"
  by (simp add: fmix64_def xorshift_def Let_def)

definition unfmix32 :: "u32 \<Rightarrow> u32" where
  "unfmix32 h = xorshift 16 (unshift_13 (xorshift 16 h * 0x7ed1b41d) * 0xa5cb9243)"

definition unfmix64 :: "u64 \<Rightarrow> u64" where
  "unfmix64 k = xorshift 33 (xorshift 33 (xorshift 33 k * 0x9cb4b2f8129337db) * 0x4f74430c22a54005)"

lemma inverse_cancel: "c * d = 1 \<Longrightarrow> x * c * d = (x :: 'a::len word)"
  by (simp add: mult.assoc)

lemma fmix32_cancel:
  "x * 0x85ebca6b * 0xa5cb9243 = (x :: u32)" "x * 0xa5cb9243 * 0x85ebca6b = (x :: u32)"
  "x * 0xc2b2ae35 * 0x7ed1b41d = (x :: u32)" "x * 0x7ed1b41d * 0xc2b2ae35 = (x :: u32)"
  by (rule inverse_cancel, simp)+

lemma fmix64_cancel:
  "x * 0xff51afd7ed558ccd * 0x4f74430c22a54005 = (x :: u64)" "x * 0x4f74430c22a54005 * 0xff51afd7ed558ccd = (x :: u64)"
  "x * 0xc4ceb9fe1a85ec53 * 0x9cb4b2f8129337db = (x :: u64)" "x * 0x9cb4b2f8129337db * 0xc4ceb9fe1a85ec53 = (x :: u64)"
  by (rule inverse_cancel, simp)+

lemma xorshift_16: "xorshift 16 (xorshift 16 x) = (x :: u32)"
  by (rule xorshift_half) simp

lemma xorshift_33: "xorshift 33 (xorshift 33 x) = (x :: u64)"
  by (rule xorshift_half) simp

interpretation fmix32: mixer fmix32 unfmix32
  by unfold_locales (simp_all only: fmix32_steps unfmix32_def xorshift_16 xorshift_13 fmix32_cancel)

interpretation fmix64: mixer fmix64 unfmix64
  by unfold_locales (simp_all only: fmix64_steps unfmix64_def xorshift_33 fmix64_cancel)

section \<open>Rounds and finalisation keep keys apart\<close>

lemma rotl32_inj:
  assumes "0 < r" and "r < 32"
  shows "rotl32 x r = rotl32 y r \<longleftrightarrow> x = y"
proof -
  have "push_bit (32 - r) (rotl32 z r) OR drop_bit r (rotl32 z r) = z" for z
    using rotate_back [of r z] assms by (simp add: rotl32_def)
  then show ?thesis by metis
qed

lemma rotl64_inj:
  assumes "0 < r" and "r < 64"
  shows "rotl64 x r = rotl64 y r \<longleftrightarrow> x = y"
proof -
  have "push_bit (64 - r) (rotl64 z r) OR drop_bit r (rotl64 z r) = z" for z
    using rotate_back [of r z] assms by (simp add: rotl64_def)
  then show ?thesis by metis
qed

lemma times5_inj: "x * 5 = y * 5 \<longleftrightarrow> x = (y :: u32)" "u * 5 = v * 5 \<longleftrightarrow> u = (v :: u64)"
proof -
  have c: "x * 5 * 0xcccccccd = x" for x :: u32 by (rule inverse_cancel) simp
  have d: "u * 5 * 0xcccccccccccccccd = u" for u :: u64 by (rule inverse_cancel) simp
  show "x * 5 = y * 5 \<longleftrightarrow> x = y" by (metis c)
  show "u * 5 = v * 5 \<longleftrightarrow> u = v" by (metis d)
qed

lemma xor_inj: "a XOR x = a XOR y \<longleftrightarrow> x = (y :: 'a::len word)" "x XOR a = y XOR a \<longleftrightarrow> x = y"
  by (metis xor.assoc xor.commute xor_self_eq xor.right_neutral)+

lemmas round_inj = rotl32_inj rotl64_inj times5_inj xor_inj scramble_inj

lemma x86_32_round_inj:
  "rotl32 (h XOR scramble32 0xcc9e2d51 15 0x1b873593 k) 13 * 5 + 0xe6546b64
     = rotl32 (h XOR scramble32 0xcc9e2d51 15 0x1b873593 k') 13 * 5 + 0xe6546b64 \<longleftrightarrow> k = k'"
  "rotl32 (h XOR scramble32 0xcc9e2d51 15 0x1b873593 k) 13 * 5 + 0xe6546b64
     = rotl32 (h' XOR scramble32 0xcc9e2d51 15 0x1b873593 k) 13 * 5 + 0xe6546b64 \<longleftrightarrow> h = h'"
  by (simp_all add: round_inj scramble_rot)

lemma x64_128_round_inj: "x64_128_round k h = x64_128_round k' h \<longleftrightarrow> k = k'"
  "x64_128_round k h = x64_128_round k h' \<longleftrightarrow> h = h'"
  by (auto simp: x64_128_round_def Let_def round_inj scramble_rot simp del: distrib_right_numeral split: prod.splits)

lemma x86_128_round_inj: "x86_128_round k h = x86_128_round k' h \<longleftrightarrow> k = k'"
  "x86_128_round k h = x86_128_round k h' \<longleftrightarrow> h = h'"
  by (auto simp: x86_128_round_def Let_def round_inj scramble_rot simp del: distrib_right_numeral split: prod.splits)

text \<open>The additions before and after the finalisers.\<close>

definition sub_all :: "h128 \<Rightarrow> h128" where
  "sub_all h = (case h of (s, b, c, d) \<Rightarrow> (s - (b - s) - (c - s) - (d - s), b - s, c - s, d - s))"

interpretation add_all: mixer add_all sub_all
  by unfold_locales (auto simp: add_all_def sub_all_def Let_def simp flip: diff_diff_add)

definition add_both :: "u64 \<times> u64 \<Rightarrow> u64 \<times> u64" where
  "add_both h = (case h of (a, b) \<Rightarrow> (a + b, b + (a + b)))"

definition sub_both :: "u64 \<times> u64 \<Rightarrow> u64 \<times> u64" where
  "sub_both h = (case h of (s, t) \<Rightarrow> (s - (t - s), t - s))"

interpretation add_both: mixer add_both sub_both
  by unfold_locales (auto simp: add_both_def sub_both_def)

lemma x86_128_final_inj: "x86_128_final n h = x86_128_final n h' \<longleftrightarrow> h = h'"
proof -
  let ?x = "\<lambda>(h :: h128). (case h of (a, b, c, d) \<Rightarrow> (a XOR of_nat n, b XOR of_nat n, c XOR of_nat n, d XOR of_nat n))"
  let ?m = "\<lambda>h. (case h of (a, b, c, d) \<Rightarrow> (fmix32 a, fmix32 b, fmix32 c, fmix32 d))"
  have "x86_128_final n h = add_all (?m (add_all (?x h)))" for h
    by (simp add: x86_128_final_def split: prod.splits)
  moreover have "?m a = ?m b \<longleftrightarrow> a = b" for a b by (auto simp: fmix32.mix_inj split: prod.splits)
  moreover have "?x a = ?x b \<longleftrightarrow> a = b" for a b by (auto simp: xor_inj split: prod.splits)
  ultimately show ?thesis by (simp only: add_all.mix_inj)
qed

lemma x64_128_final_inj: "x64_128_final n h = x64_128_final n h' \<longleftrightarrow> h = h'"
proof -
  let ?x = "\<lambda>(h :: u64 \<times> u64). (case h of (a, b) \<Rightarrow> (a XOR of_nat n, b XOR of_nat n))"
  let ?m = "\<lambda>h. (case h of (a, b) \<Rightarrow> (fmix64 a, fmix64 b))"
  have "x64_128_final n h = add_both (?m (add_both (?x h)))" for h
    by (simp add: x64_128_final_def add_both_def Let_def split: prod.splits)
  moreover have "?m a = ?m b \<longleftrightarrow> a = b" for a b by (auto simp: fmix64.mix_inj split: prod.splits)
  moreover have "?x a = ?x b \<longleftrightarrow> a = b" for a b by (auto simp: xor_inj split: prod.splits)
  ultimately show ?thesis by (simp only: add_both.mix_inj)
qed

text \<open>Changing one element of a fold of such rounds changes the result.\<close>

lemma fold_one_change:
  assumes "\<And>k k' h. f k h = f k' h \<longleftrightarrow> k = k'" and "\<And>k h h'. f k h = f k h' \<longleftrightarrow> h = h'"
  shows "fold f (xs @ k # ys) h = fold f (xs @ k' # ys) h \<longleftrightarrow> k = k'"
proof -
  have "fold f ys a = fold f ys b \<longleftrightarrow> a = b" for a b
    by (induction ys arbitrary: a b) (auto simp: assms(2))
  then show ?thesis by (simp add: assms(1))
qed

lemma le_inj:
  assumes "length bs = length bs'" and "8 * length bs \<le> LENGTH('a)"
  shows "(le bs :: 'a::len word) = le bs' \<longleftrightarrow> bs = bs'"
proof
  assume eq: "(le bs :: 'a word) = le bs'"
  show "bs = bs'"
  proof (intro nth_equalityI bit_word_eqI)
    fix i n
    assume i: "i < length bs" and "n < LENGTH(8)"
    then have n: "n < 8" "8 * i + n < LENGTH('a)" using assms(2) by simp_all
    have "bit (le bs :: 'a word) (8 * i + n) = bit (le bs' :: 'a word) (8 * i + n)" using eq by simp
    with i n assms(1) show "bit (bs ! i) n = bit (bs' ! i) n" by (simp add: bit_le)
  qed (rule assms(1))
qed simp

text \<open>The whole blocks of a key, and keys that differ in one of them.\<close>

definition blocks :: "nat \<Rightarrow> byte list \<Rightarrow> byte list list" where
  "blocks n bs = map (\<lambda>i. take n (drop (n * i) bs)) [0..<length bs div n]"

lemma blocks_append:
  assumes "length xs = n * m" and "0 < n"
  shows "blocks n (xs @ ys) = blocks n xs @ blocks n ys"
proof -
  have d: "length xs div n = m" "length (xs @ ys) div n = m + length ys div n" using assms by simp_all
  have "[0..<m + length ys div n] = [0..<m] @ map (\<lambda>i. i + m) [0..<length ys div n]"
    using upt_add_eq_append [of 0 m "length ys div n"] map_add_upt [of m "length ys div n"]
    by (simp only: le0 add_0 simp_thms add.commute [of m])
  moreover have "take n (drop (n * i) (xs @ ys)) = take n (drop (n * i) xs)" if "i < m" for i
  proof -
    have "n * Suc i \<le> n * m" using that by (intro mult_le_mono2) simp
    then show ?thesis using assms(1) by simp
  qed
  moreover have "drop (n * (i + m)) (xs @ ys) = drop (n * i) ys" for i
    using assms(1) by (simp add: distrib_left)
  ultimately show ?thesis unfolding blocks_def d
    by (simp only: map_append map_map comp_def) (simp cong: map_cong)
qed

lemma blocks_one: "length b = n \<Longrightarrow> 0 < n \<Longrightarrow> blocks n b = [b]"
  by (simp add: blocks_def)

lemma blocks_change:
  assumes "length xs = n * m" and "length b = n" and "0 < n"
  shows "blocks n (xs @ b @ ys) = blocks n xs @ b # blocks n ys" and "rest n (xs @ b @ ys) = rest n ys"
proof -
  show "blocks n (xs @ b @ ys) = blocks n xs @ b # blocks n ys"
    using blocks_append [of xs n m "b @ ys"] blocks_append [of b n 1 ys] blocks_one [of b n] assms by simp
  have "length (xs @ b @ ys) = length ys + (m + 1) * n" using assms by simp
  then have "length (xs @ b @ ys) div n = m + 1 + length ys div n" using assms(3) by (simp only: div_mult_self1)
  then show "rest n (xs @ b @ ys) = rest n ys" using assms by (simp add: rest_def distrib_left)
qed

lemma words_blocks:
  "words32 bs = map le (blocks 4 bs)"
  "quads32 bs = map (\<lambda>b. (le (take 4 b), le (take 4 (drop 4 b)), le (take 4 (drop 8 b)), le (take 4 (drop 12 b)))) (blocks 16 bs)"
  "pairs64 bs = map (\<lambda>b. (le (take 8 b), le (take 8 (drop 8 b)))) (blocks 16 bs)"
  by (simp_all add: words32_def quads32_def pairs64_def blocks_def drop_take min_def add.commute)

lemma parts_inj:
  fixes b b' :: "byte list"
  assumes "length b = 16" and "length b' = 16"
  shows "b = b' \<longleftrightarrow> take 4 b = take 4 b' \<and> take 4 (drop 4 b) = take 4 (drop 4 b') \<and> take 4 (drop 8 b) = take 4 (drop 8 b')
       \<and> take 4 (drop 12 b) = take 4 (drop 12 b')"
    and "b = b' \<longleftrightarrow> take 8 b = take 8 b' \<and> take 8 (drop 8 b) = take 8 (drop 8 b')"
proof -
  have "z = take 4 z @ take 4 (drop 4 z) @ take 4 (drop 8 z) @ take 4 (drop 12 z)" if "length z = 16" for z :: "byte list"
    using that append_take_drop_id [of 4 z] append_take_drop_id [of 4 "drop 4 z"] append_take_drop_id [of 4 "drop 8 z"] by simp
  then show "b = b' \<longleftrightarrow> take 4 b = take 4 b' \<and> take 4 (drop 4 b) = take 4 (drop 4 b') \<and> take 4 (drop 8 b) = take 4 (drop 8 b')
       \<and> take 4 (drop 12 b) = take 4 (drop 12 b')" using assms by metis
  have "z = take 8 z @ take 8 (drop 8 z)" if "length z = 16" for z :: "byte list"
    using that append_take_drop_id [of 8 z] by simp
  then show "b = b' \<longleftrightarrow> take 8 b = take 8 b' \<and> take 8 (drop 8 b) = take 8 (drop 8 b')" using assms by metis
qed

lemma x86_32_reference_at:
  assumes "len \<le> length key"
  shows "MurmurHash3_x86_32 key len seed = Some (x86_32_spec (take len key) seed)"
proof -
  let ?bs = "take len key" and ?nb = "len div 4"
  have nb: "4 * ?nb + len mod 4 = len" by simp
  have "map (\<lambda>i. le (take 4 (drop (4 * i) key))) [0..<?nb] = words32 ?bs"
    using assms by (auto simp: words32_def min_def take_drop intro!: arg_cong [of _ _ le])
  then have body: "x86_32_body key ?nb ?nb seed =
      Some (fold (\<lambda>k h. rotl32 (h XOR scramble32 0xcc9e2d51 15 0x1b873593 k) 13 * 5 + 0xe6546b64) (words32 ?bs) seed)"
    using x86_32_body_fold [of ?nb ?nb key seed] nb assms by simp
  have "take (len mod 4) (drop (4 * ?nb) key) = rest 4 ?bs"
    using assms nb by (simp add: rest_def take_drop min_def add.commute)
  moreover have "x86_32_tail key (4 * ?nb) (len mod 4) h =
      Some (h XOR scramble32 0xcc9e2d51 15 0x1b873593 (le (take (len mod 4) (drop (4 * ?nb) key))))" for h
    using xor_tail_le [of "4 * ?nb" "len mod 4" key "0 :: u32"] assms nb by (simp add: x86_32_tail_def)
  ultimately show ?thesis
    using assms body by (simp add: MurmurHash3_x86_32_def x86_32_spec_def Let_def xor.assoc)
qed

lemma x86_128_reference_at:
  assumes "len \<le> length key"
  shows "MurmurHash3_x86_128 key len seed = Some (x86_128_spec (take len key) seed)"
proof -
  let ?bs = "take len key" and ?nb = "len div 16" and ?n = "len mod 16"
  let ?p = "16 * ?nb" and ?t = "rest 16 (take len key)"
  have nb: "?p + ?n = len" by simp
  have q: "take 4 (drop (16 * i + j) key) = take 4 (drop (16 * i + j) ?bs)" if "i < ?nb" "j \<le> 12" for i j
    using that nb by (simp add: take_drop min_def)
  have "map (\<lambda>i. (le (take 4 (drop (16 * i) key)), le (take 4 (drop (16 * i + 4) key)),
       le (take 4 (drop (16 * i + 8) key)), le (take 4 (drop (16 * i + 12) key)))) [0..<?nb] = quads32 ?bs"
    using assms q [where j = 0] q by (auto simp: quads32_def min_def)
  then have body: "x86_128_body key ?nb ?nb h = Some (fold x86_128_round (quads32 ?bs) h)" for h
    using x86_128_body_fold [of ?nb ?nb key h] nb assms by simp
  have "x86_128_tail key ?p ?n (h1, h2, h3, h4) =
      Some (h1 XOR scramble32 0x239b961b 15 0xab0e9789 (le (take 4 ?t)),
           h2 XOR scramble32 0xab0e9789 16 0x38b34ae5 (le (take 4 (drop 4 ?t))),
           h3 XOR scramble32 0x38b34ae5 17 0xa1e38b93 (le (take 4 (drop 8 ?t))),
           h4 XOR scramble32 0xa1e38b93 18 0x239b961b (le (drop 12 ?t)))" for h1 h2 h3 h4
    using assms by (intro x86_128_tail_words block_bound rest_take) simp_all
  then show ?thesis
    using assms body by (simp add: MurmurHash3_x86_128_def x86_128_spec_def Let_def split: prod.splits)
qed

lemma x64_128_reference_at:
  assumes "len \<le> length key"
  shows "MurmurHash3_x64_128 key len seed = Some (x64_128_spec (take len key) seed)"
proof -
  let ?bs = "take len key" and ?nb = "len div 16" and ?n = "len mod 16"
  let ?p = "16 * ?nb" and ?t = "rest 16 (take len key)"
  have nb: "?p + ?n = len" by simp
  have q: "take 8 (drop (16 * i + j) key) = take 8 (drop (16 * i + j) ?bs)" if "i < ?nb" "j \<le> 8" for i j
    using that nb by (simp add: take_drop min_def)
  have "map (\<lambda>i. (le (take 8 (drop (16 * i) key)), le (take 8 (drop (16 * i + 8) key)))) [0..<?nb] = pairs64 ?bs"
    using assms q [where j = 0] q by (auto simp: pairs64_def min_def)
  then have body: "x64_128_body key 0 ?nb h = Some (fold x64_128_round (pairs64 ?bs) h)" for h
    using x64_128_body_fold [of 0 ?nb key h] nb assms by simp
  have "x64_128_tail key ?p ?n (h1, h2) =
     Some (h1 XOR scramble64 0x87c37b91114253d5 31 0x4cf5ad432745937f (le (take 8 ?t)),
           h2 XOR scramble64 0x4cf5ad432745937f 33 0x87c37b91114253d5 (le (drop 8 ?t)))" for h1 h2
    using assms by (intro x64_128_tail_words block_bound rest_take) simp_all
  then show ?thesis
    using assms body by (simp add: MurmurHash3_x64_128_def x64_128_spec_def Let_def split: prod.splits)
qed

section \<open>The published algorithm on numbers\<close>

lemma or_add:
  assumes "a mod 2 ^ n = 0" and "b < (2 :: nat) ^ n"
  shows "a OR b = a + b"
proof -
  have "\<not> bit a i \<or> \<not> bit b i" for i
  proof (cases "i < n")
    case True
    have "take_bit n a = 0" using assms(1) by (simp add: take_bit_eq_mod)
    with True show ?thesis by (metis bit_0_eq bit_take_bit_iff bot2E bot_apply bot_bool_def)
  next
    case False
    have "b = take_bit n b" using assms(2) by (simp add: take_bit_nat_eq_self)
    with False show ?thesis by (metis bit_take_bit_iff)
  qed
  then show ?thesis by (simp add: disjunctive_add)
qed

lemma unat_shift64:
  "unat (push_bit r (x :: u64)) = unat x * 2 ^ r mod 2 ^ 64" "unat (drop_bit r (x :: u64)) = unat x div 2 ^ r"
proof -
  show "unat (push_bit r x) = unat x * 2 ^ r mod 2 ^ 64"
    by (simp only: unsigned_push_bit_eq) (simp add: take_bit_eq_mod push_bit_eq_mult)
  show "unat (drop_bit r x) = unat x div 2 ^ r" by (simp only: unat_drop_bit_eq) (simp add: drop_bit_eq_div)
qed

lemma unat_ucast64: "unat (ucast (b :: byte) :: u64) = unat b" "unat (ucast (s :: u32) :: u64) = unat s"
proof -
  have "unat b < 2 ^ 64" "unat s < 2 ^ 64"
    using unsigned_less [of b, where 'a = nat] unsigned_less [of s, where 'a = nat] by simp_all
  then show "unat (ucast b :: u64) = unat b" "unat (ucast s :: u64) = unat s"
    by (simp_all add: unsigned_ucast_eq take_bit_nat_eq_self)
qed

lemma unat_rotl64:
  assumes "0 < r" and "r < 64"
  shows "unat (rotl64 x r) = rol64 r (unat x)"
proof -
  have m: "2 ^ r dvd (2 :: nat) ^ 64" using assms by (intro le_imp_power_dvd) simp
  have "(unat x * 2 ^ r mod 2 ^ 64) mod 2 ^ r = 0" using mod_mod_cancel [OF m, of "unat x * 2 ^ r"] by simp
  moreover have "unat x div 2 ^ (64 - r) < 2 ^ r"
  proof -
    have "unat x < 2 ^ (64 - r) * 2 ^ r" using assms unsigned_less [of x, where 'a = nat] by (simp flip: power_add)
    then show ?thesis by (simp add: less_mult_imp_div_less mult.commute)
  qed
  moreover have "unat (rotl64 x r) = (unat x * 2 ^ r mod 2 ^ 64) OR (unat x div 2 ^ (64 - r))"
    by (simp only: rotl64_def unsigned_or_eq unat_shift64)
  ultimately show ?thesis by (simp add: or_add rol64_def m64_def)
qed

lemma unat_arith64:
  "unat (x + y :: u64) = m64 (unat x + unat y)" "unat (x * y :: u64) = m64 (unat x * unat y)"
  by (simp_all add: m64_def unat_word_ariths)

lemma m64_absorb: "m64 (m64 a + b) = m64 (a + b)" "m64 (a + m64 b) = m64 (a + b)" "m64 (m64 a * b) = m64 (a * b)"
  by (simp_all add: m64_def mod_simps)

lemma unat_scramble64:
  "unat (scramble64 0x87c37b91114253d5 31 0x4cf5ad432745937f k) = mix_k1 (unat k)"
  "unat (scramble64 0x4cf5ad432745937f 33 0x87c37b91114253d5 k) = mix_k2 (unat k)"
  by (simp_all add: scramble64_def unat_arith64 unat_rotl64 mix_k1_def mix_k2_def mul_c1_def mul_c2_def)

lemma unat_round:
  assumes "x64_128_round (k1, k2) (h1, h2) = (g1, g2)"
  shows "unat g1 = mix_h1 (unat k1) (unat h1) (unat h2)" and "unat g2 = mix_h2 (unat k2) (unat h2) (unat g1)"
proof -
  note e = unat_arith64 unat_rotl64 unat_scramble64 unsigned_xor_eq m64_absorb mix_h1_def mix_h2_def
  have g1: "g1 = (rotl64 (h1 XOR scramble64 0x87c37b91114253d5 31 0x4cf5ad432745937f k1) 27 + h2) * 5 + 0x52dce729"
    and g2: "g2 = (rotl64 (h2 XOR scramble64 0x4cf5ad432745937f 33 0x87c37b91114253d5 k2) 31 + g1) * 5 + 0x38495ab5"
    using assms by (auto simp: x64_128_round_def Let_def)
  show "unat g1 = mix_h1 (unat k1) (unat h1) (unat h2)" unfolding g1 by (simp add: e del: distrib_right_numeral)
  show "unat g2 = mix_h2 (unat k2) (unat h2) (unat g1)" unfolding g2 by (simp add: e del: distrib_right_numeral)
qed

lemma unat_fmix64: "unat (fmix64 k) = avalanche (unat k)"
proof -
  have "unat (0xff51afd7ed558ccd :: u64) = 0xff51afd7ed558ccd" "unat (0xc4ceb9fe1a85ec53 :: u64) = 0xc4ceb9fe1a85ec53"
    by simp_all
  then show ?thesis by (simp only: fmix64_def avalanche_def Let_def unsigned_xor_eq unat_shift64(2) unat_arith64)
qed

lemma unat_final:
  assumes "n < 2 ^ 64" and "x64_128_final n (h1, h2) = (g1, g2)"
  shows "(unat g1, unat g2) = sum_up (map_prod avalanche avalanche (sum_up (with_length n (unat h1, unat h2))))"
proof -
  have "unat (of_nat n :: u64) = n" using assms(1) by (simp add: unat_of_nat)
  moreover have "g1 = fmix64 ((h1 XOR of_nat n) + (h2 XOR of_nat n))
       + fmix64 ((h2 XOR of_nat n) + ((h1 XOR of_nat n) + (h2 XOR of_nat n)))"
    and "g2 = fmix64 ((h2 XOR of_nat n) + ((h1 XOR of_nat n) + (h2 XOR of_nat n))) + g1"
    using assms(2) by (simp_all only: x64_128_final_def Let_def prod.case prod.inject) blast+
  ultimately show ?thesis
    by (simp only: with_length.simps sum_up.simps map_prod_simp unat_arith64 unat_fmix64 unsigned_xor_eq)
qed

lemma unat_le: "length bs \<le> 8 \<Longrightarrow> unat (le bs :: u64) = le_num (map unat bs) \<and> le_num (map unat bs) < 256 ^ length bs"
proof (induction bs)
  case (Cons b bs)
  then have n: "unat (le bs :: u64) = le_num (map unat bs)" "le_num (map unat bs) < 256 ^ length bs" by simp_all
  have b: "unat b < 256" using unsigned_less [of b, where 'a = nat] by simp
  have "(256 :: nat) ^ Suc (length bs) \<le> 256 ^ 8" using Cons.prems by (intro power_increasing) simp_all
  with n(2) have "256 * le_num (map unat bs) < 2 ^ 64" by simp
  then have "unat (le (b # bs) :: u64) = unat b OR 256 * le_num (map unat bs)"
    using b by (simp only: le.simps unsigned_or_eq unat_shift64(1) n(1) unat_ucast64) (simp add: mult.commute)
  also have "\<dots> = unat b + 256 * le_num (map unat bs)"
    using or_add [of "256 * le_num (map unat bs)" 8 "unat b"] b by (simp add: or.commute)
  finally show ?case using n(2) b by simp
qed simp

lemma pairs64_step:
  assumes "16 \<le> length bs"
  shows "pairs64 bs = (le (take 8 bs), le (take 8 (drop 8 bs))) # pairs64 (drop 16 bs)" and "rest 16 bs = rest 16 (drop 16 bs)"
proof -
  note b = blocks_change [of "[]" 16 0 "take 16 bs" "drop 16 bs"]
  show "pairs64 bs = (le (take 8 bs), le (take 8 (drop 8 bs))) # pairs64 (drop 16 bs)"
    using b(1) assms by (simp add: words_blocks drop_take) (simp add: blocks_def)
  show "rest 16 bs = rest 16 (drop 16 bs)" using b(2) assms by simp
qed

lemma absorb_published:
  assumes "fold x64_128_round (pairs64 bs) (h1, h2) = (g1, g2)"
  shows "absorb (map unat bs) (unat h1, unat h2) =
     (unat (g1 XOR scramble64 0x87c37b91114253d5 31 0x4cf5ad432745937f (le (take 8 (rest 16 bs)))),
      unat (g2 XOR scramble64 0x4cf5ad432745937f 33 0x87c37b91114253d5 (le (drop 8 (rest 16 bs)))))"
  using assms
proof (induction "length bs" arbitrary: bs h1 h2 rule: less_induct)
  case less
  show ?case
  proof (cases "length bs < 16")
    case True
    then have "pairs64 bs = []" "rest 16 bs = bs" by (simp_all add: pairs64_def rest_def)
    with less.prems True unat_le [of "take 8 bs"] unat_le [of "drop 8 bs"] show ?thesis
      by (simp add: unsigned_xor_eq unat_scramble64 take_map drop_map)
  next
    case False
    obtain f1 f2 where f: "x64_128_round (le (take 8 bs), le (take 8 (drop 8 bs))) (h1, h2) = (f1, f2)"
      by (cases "x64_128_round (le (take 8 bs), le (take 8 (drop 8 bs))) (h1, h2)")
    with less.prems False have "fold x64_128_round (pairs64 (drop 16 bs)) (f1, f2) = (g1, g2)" by (simp add: pairs64_step)
    with less.hyps [of "drop 16 bs"] False
    have "absorb (map unat (drop 16 bs)) (unat f1, unat f2) =
       (unat (g1 XOR scramble64 0x87c37b91114253d5 31 0x4cf5ad432745937f (le (take 8 (rest 16 bs)))),
        unat (g2 XOR scramble64 0x4cf5ad432745937f 33 0x87c37b91114253d5 (le (drop 8 (rest 16 bs)))))"
      by (simp add: pairs64_step(2) [of bs])
    with False unat_round [OF f] unat_le [of "take 8 bs"] unat_le [of "take 8 (drop 8 bs)"] show ?thesis
      by (simp add: take_map drop_map)
  qed
qed

lemma x64_128_spec_published:
  assumes "length bs < 2 ^ 64" and "x64_128_spec bs seed = (h1, h2)"
  shows "(unat h1, unat h2) = murmur3_x64_128 (map unat bs) (unat seed)"
proof -
  obtain g1 g2 where g: "fold x64_128_round (pairs64 bs) (ucast seed, ucast seed) = (g1, g2)"
    by (cases "fold x64_128_round (pairs64 bs) (ucast seed, ucast seed)")
  have "unat (ucast seed :: u64) = unat seed" by (rule unat_ucast64)
  with absorb_published [OF g] assms(2) g show ?thesis
    using unat_final [OF assms(1)] by (simp add: x64_128_spec_def murmur3_x64_128_def Let_def del: absorb.simps)
qed

section \<open>Properties\<close>

text \<open>
  C11. \<open>MurmurHash3_x64_128\<close> reads only the first \<open>len\<close> bytes of the key and returns the
  two numbers of the published algorithm, as the stand-alone specification on natural
  numbers computes them.
\<close>

theorem x64_128_reference:
  assumes "len \<le> length key" and "len < 2 ^ 31"
  shows "\<exists>h1 h2. MurmurHash3_x64_128 key len seed = Some (h1, h2)
     \<and> (unat h1, unat h2) = murmur3_x64_128 (map unat (take len key)) (unat seed)"
proof -
  obtain h1 h2 where h: "x64_128_spec (take len key) seed = (h1, h2)" by (cases "x64_128_spec (take len key) seed")
  have "length (take len key) < 2 ^ 64" using assms by simp
  from x64_128_spec_published [OF this h] show ?thesis
    using x64_128_reference_at [OF assms(1)] h by simp
qed

text \<open>The published values for \<open>hello\<close> and the sentence about the fox.\<close>

theorem x64_128_reference_witness:
  "MurmurHash3_x64_128 (map of_char ''hello!!'') 5 0 = Some (0xcbd8a7b341bd9b02, 0x5b1e906a48ae1d19)
   \<and> MurmurHash3_x64_128 (map of_char ''The quick brown fox jumps over the lazy dog'') 43 0
      = Some (0xe34bbc7bbc071b6c, 0x7a433ca9c49a9347)"
proof -
  have w: "w = n \<longleftrightarrow> unat w = unat n" for w n :: u64 by (simp add: word_unat_eq_iff)
  let ?h = "map of_char ''hello!!'' :: byte list"
  have "map unat (take 5 ?h) = [104, 101, 108, 108, 111]" by (simp add: of_char_def)
  then obtain h1 h2 where "MurmurHash3_x64_128 ?h 5 0 = Some (h1, h2)"
      "(unat h1, unat h2) = (0xcbd8a7b341bd9b02, 0x5b1e906a48ae1d19)"
    using x64_128_reference [of 5 ?h 0] murmur3_hello by auto
  moreover
  let ?f = "map of_char ''The quick brown fox jumps over the lazy dog'' :: byte list"
  have "map unat (take 43 ?f) = 
     [84, 104, 101, 32, 113, 117, 105, 99, 107, 32, 98, 114, 111, 119, 110, 32, 102, 111, 120, 32, 106,
     117, 109, 112, 115, 32, 111, 118, 101, 114, 32, 116, 104, 101, 32, 108, 97, 122, 121, 32, 100, 111,
     103]" by (simp add: of_char_def)
  then obtain h1' h2' where "MurmurHash3_x64_128 ?f 43 0 = Some (h1', h2')"
      "(unat h1', unat h2') = (0xe34bbc7bbc071b6c, 0x7a433ca9c49a9347)"
    using x64_128_reference [of 43 ?f 0] murmur3_fox by auto
  ultimately show ?thesis by (simp add: w)
qed

text \<open>
  C34. None of the three functions maps two keys of the same length that differ in exactly
  one whole block (4 bytes for \<open>x86_32\<close>, 16 bytes for the others) to the same hash, for any
  seed; in particular the hash determines a key of one block.
\<close>

theorem one_block_change_detected:
  assumes "len = length (xs @ b @ ys)" and "length b' = length b" and "b \<noteq> b'"
  shows "(length xs = 4 * m \<and> length b = 4 \<longrightarrow>
       MurmurHash3_x86_32 (xs @ b @ ys) len seed \<noteq> MurmurHash3_x86_32 (xs @ b' @ ys) len seed)
     \<and> (length xs = 16 * m \<and> length b = 16 \<longrightarrow>
       MurmurHash3_x86_128 (xs @ b @ ys) len seed \<noteq> MurmurHash3_x86_128 (xs @ b' @ ys) len seed
       \<and> MurmurHash3_x64_128 (xs @ b @ ys) len seed \<noteq> MurmurHash3_x64_128 (xs @ b' @ ys) len seed)"
proof -
  have len: "len = length (xs @ b' @ ys)" using assms by simp
  have a: "x86_32_spec (xs @ b @ ys) seed \<noteq> x86_32_spec (xs @ b' @ ys) seed" if l: "length xs = 4 * m" "length b = 4"
  proof -
    have "le b \<noteq> (le b' :: u32)" using le_inj [of b b', where 'a = 32] assms l by simp
    then show ?thesis
      using fold_one_change [OF x86_32_round_inj] l assms
      by (simp add: x86_32_spec_def words_blocks blocks_change Let_def fmix32.mix_inj xor_inj)
  qed
  have c: "x86_128_spec (xs @ b @ ys) seed \<noteq> x86_128_spec (xs @ b' @ ys) seed" if l: "length xs = 16 * m" "length b = 16"
  proof -
    let ?k = "\<lambda>b. (le (take 4 b), le (take 4 (drop 4 b)), le (take 4 (drop 8 b)), le (take 4 (drop 12 b))) :: h128"
    have "?k b \<noteq> ?k b'" using parts_inj(1) [of b b'] assms l by (simp add: le_inj)
    then have "fold x86_128_round (map ?k (blocks 16 xs) @ ?k b # map ?k (blocks 16 ys)) (seed, seed, seed, seed)
        \<noteq> fold x86_128_round (map ?k (blocks 16 xs) @ ?k b' # map ?k (blocks 16 ys)) (seed, seed, seed, seed)"
      by (simp only: fold_one_change [OF x86_128_round_inj] not_False_eq_True)
    then show ?thesis using l assms
      by (auto simp: x86_128_spec_def words_blocks blocks_change Let_def x86_128_final_inj xor_inj split: prod.splits)
  qed
  have d: "x64_128_spec (xs @ b @ ys) seed \<noteq> x64_128_spec (xs @ b' @ ys) seed" if l: "length xs = 16 * m" "length b = 16"
  proof -
    let ?k = "\<lambda>b. (le (take 8 b), le (take 8 (drop 8 b))) :: u64 \<times> u64"
    have "?k b \<noteq> ?k b'" using parts_inj(2) [of b b'] assms l by (simp add: le_inj)
    then have "fold x64_128_round (map ?k (blocks 16 xs) @ ?k b # map ?k (blocks 16 ys)) (ucast seed, ucast seed)
        \<noteq> fold x64_128_round (map ?k (blocks 16 xs) @ ?k b' # map ?k (blocks 16 ys)) (ucast seed, ucast seed)"
      by (simp only: fold_one_change [OF x64_128_round_inj] not_False_eq_True)
    then show ?thesis using l assms
      by (auto simp: x64_128_spec_def words_blocks blocks_change Let_def x64_128_final_inj xor_inj split: prod.splits)
  qed
  have le: "len \<le> length (xs @ b @ ys)" "len \<le> length (xs @ b' @ ys)"
    by (rule eq_refl, rule assms(1)) (rule eq_refl, rule len)
  have tk: "take len (xs @ b @ ys) = xs @ b @ ys" "take len (xs @ b' @ ys) = xs @ b' @ ys"
    by (rule take_all, rule eq_refl, rule assms(1) [symmetric])
      (rule take_all, rule eq_refl, rule len [symmetric])
  from a c d show ?thesis
    by (simp only: x86_32_reference_at [OF le(1)] x86_32_reference_at [OF le(2)] x86_128_reference_at [OF le(1)]
        x86_128_reference_at [OF le(2)] x64_128_reference_at [OF le(1)] x64_128_reference_at [OF le(2)]
        tk option.inject) blast
qed

theorem one_block_change_detected_witness:
  "MurmurHash3_x86_32 (map of_char ''abcdefgh!'') 9 7 \<noteq> MurmurHash3_x86_32 (map of_char ''abcdEFGH!'') 9 7
   \<and> MurmurHash3_x64_128 (map of_char ''0123456789abcdef!'') 17 7
      \<noteq> MurmurHash3_x64_128 (map of_char ''0123456789abcdeg!'') 17 7"
  using one_block_change_detected [of 9 "map of_char ''abcd''" "map of_char ''efgh''" "map of_char ''!''"
        "map of_char ''EFGH''" 1 7]
    one_block_change_detected [of 17 "[]" "map of_char ''0123456789abcdef''" "map of_char ''!''"
        "map of_char ''0123456789abcdeg''" 0 7]
  by (simp add: of_char_def)

end
