(* ===== verification/Store_Spec.thy ===== *)
theory Store_Spec
  imports Main "HOL-Library.Monad_Syntax"
begin

text \<open>
  The contract of a lookup table in which the first insertion of a key wins. A store
  represents a finite map; a lookup returns the value or a null value; an insertion changes
  nothing if the key is present or the allocation it is given has failed. Programs of
  lookups and insertions then behave as on the map. An operation that is undefined is
  \<^term>\<open>None\<close>, so that the laws include that the operations are defined and return.
\<close>

datatype (keys: 'k, vals: 'v, res: 'a) store_op = Get 'k | Put 'k 'v 'a

fun op_res :: "('k, 'v, 'a) store_op \<Rightarrow> 'a list" where
  "op_res (Get k) = []"
| "op_res (Put k v a) = [a]"

text \<open>Running a program on an implementation, and on a map.\<close>

fun run_store ::
  "('s \<Rightarrow> 'k \<Rightarrow> 'v option) \<Rightarrow> ('k \<Rightarrow> 'v \<Rightarrow> 'a \<Rightarrow> 's \<Rightarrow> 's option) \<Rightarrow> ('k, 'v, 'a) store_op list \<Rightarrow> 's
     \<Rightarrow> ('v list \<times> 's) option"
where
  "run_store get put [] s = Some ([], s)"
| "run_store get put (Get k # ops) s =
     do { v \<leftarrow> get s k; (vs, s') \<leftarrow> run_store get put ops s; Some (v # vs, s') }"
| "run_store get put (Put k v a # ops) s = do { s' \<leftarrow> put k v a s; run_store get put ops s' }"

definition put_spec :: "bool \<Rightarrow> 'k \<Rightarrow> 'v \<Rightarrow> ('k \<rightharpoonup> 'v) \<Rightarrow> 'k \<rightharpoonup> 'v" where
  "put_spec failed k v m = (if failed \<or> k \<in> dom m then m else m(k \<mapsto> v))"

fun run_spec :: "'v \<Rightarrow> ('a \<Rightarrow> bool) \<Rightarrow> ('k, 'v, 'a) store_op list \<Rightarrow> ('k \<rightharpoonup> 'v) \<Rightarrow> 'v list \<times> ('k \<rightharpoonup> 'v)" where
  "run_spec null failed [] m = ([], m)"
| "run_spec null failed (Get k # ops) m =
     (case run_spec null failed ops m of (vs, m') \<Rightarrow> ((case m k of None \<Rightarrow> null | Some v \<Rightarrow> v) # vs, m'))"
| "run_spec null failed (Put k v a # ops) m = run_spec null failed ops (put_spec (failed a) k v m)"

locale first_insert_store =
  fixes rep :: "('k \<rightharpoonup> 'v) \<Rightarrow> 's \<Rightarrow> bool"
    and ok :: "'a list \<Rightarrow> 's \<Rightarrow> bool"
    and failed :: "'a \<Rightarrow> bool"
    and null :: 'v
    and get :: "'s \<Rightarrow> 'k \<Rightarrow> 'v option"
    and put :: "'k \<Rightarrow> 'v \<Rightarrow> 'a \<Rightarrow> 's \<Rightarrow> 's option"
  assumes get_rep: "rep m s \<Longrightarrow> get s k = Some (case m k of None \<Rightarrow> null | Some v \<Rightarrow> v)"
    and put_rep: "rep m s \<Longrightarrow> ok (a # as) s \<Longrightarrow>
      \<exists>s'. put k v a s = Some s' \<and> rep (put_spec (failed a) k v m) s' \<and> ok as s'"
begin

lemma run_store_refines:
  assumes "rep m s" and "ok (concat (map op_res ops) @ as) s"
  shows "\<exists>s'. run_store get put ops s = Some (fst (run_spec null failed ops m), s')
     \<and> rep (snd (run_spec null failed ops m)) s' \<and> ok as s'"
  using assms
proof (induction ops arbitrary: m s)
  case Nil
  then show ?case by simp
next
  case (Cons x ops)
  show ?case
  proof (cases x)
    case (Get k)
    with Cons.IH [of m s] Cons.prems get_rep [of m s k] show ?thesis
      by (auto split: prod.splits)
  next
    case (Put k v a)
    with Cons.prems put_rep [of m s a] obtain s'
      where "put k v a s = Some s'" "rep (put_spec (failed a) k v m) s'"
        "ok (concat (map op_res ops) @ as) s'"
      by fastforce
    with Put Cons.IH [of "put_spec (failed a) k v m" s'] show ?thesis by simp
  qed
qed

text \<open>A key keeps the value of its first successful insertion through any later program.\<close>

lemma put_spec_keeps: "m k = Some v \<Longrightarrow> put_spec f k' v' m k = Some v"
  by (auto simp: put_spec_def)

lemma first_value_kept:
  assumes "m k = Some v"
  shows "snd (run_spec null failed ops m) k = Some v"
  using assms by (induction null failed ops m rule: run_spec.induct) (simp_all add: put_spec_keeps case_prod_beta)

end

end
