(* ===== verification/Hashtable.thy ===== *)
theory Hashtable
  imports C_Strings Murmur3 Store_Spec
begin

text \<open>
  The chained hash table of \<open>lib/hashtable.c\<close>. Pointers are 64-bit words with 0 for NULL;
  the heap maps the address of a live \<open>struct hmap_element\<close> or \<open>struct hmap\<close> to its
  contents, and the address of a character object to its bytes. An access to an address
  that is not live, an index outside \<open>hl\<close> and an undefined shift are \<^term>\<open>None\<close>, and so
  is a loop along \<open>next\<close> that never ends. The result of \<open>malloc\<close> is an argument of the
  operations that allocate.

  The contract of a table in which the first insertion of a key wins is the locale
  \<open>first_insert_store\<close>; it is interpreted on the heap operations, from which the
  refinement of finite maps by \<open>str_hmap_new\<close>, \<open>hmap_get\<close>, \<open>hmap_insert\<close> and
  \<open>hmap_delete\<close> follows.
\<close>

section \<open>Model\<close>

record hlist_head =
  hl_first :: u64

record hlist_node =
  hn_next :: u64
  hn_pprev :: u64

record hmap_element =
  ele_key :: u64
  ele_value :: u64
  ele_node :: hlist_node

text \<open>The two functions that \<open>hash_func\<close> may point to.\<close>

datatype hash_fn = Hash_64 | Murmurhash_str

record hmap =
  hm_bits :: u8
  hm_hash_func :: hash_fn
  hm_hl :: "hlist_head list"

type_synonym elements = "u64 \<rightharpoonup> hmap_element"

record hheap =
  elems :: elements
  maps :: "u64 \<rightharpoonup> hmap"
  strs :: "u64 \<rightharpoonup> cbuf"

text \<open>
  \<open>node\<close> is at offset 16 of an element and \<open>next\<close> at offset 0 of a node, so that
  \<open>&ele->node\<close> and \<open>&ele->node.next\<close> are the same address; \<open>hl\<close> is at offset 16 of the
  table.
\<close>

definition node_of :: "u64 \<Rightarrow> u64" where
  "node_of e = e + 16"

definition container_of :: "u64 \<Rightarrow> u64" where
  "container_of n = n - 16"

definition head_addr :: "u64 \<Rightarrow> nat \<Rightarrow> u64" where
  "head_addr hm i = hm + 16 + 8 * of_nat i"

subsection \<open>Hash functions\<close>

definition GOLDEN_RATIO_64 :: u64 where
  "GOLDEN_RATIO_64 = 0x61C8864680B583EB"

definition seed_value :: u32 where
  "seed_value = 0x04b91209"

definition hash_64 :: "u64 \<Rightarrow> u8 \<Rightarrow> u64 option" where
  "hash_64 key bits =
     (if 1 \<le> unat bits \<and> unat bits \<le> 64
      then Some (drop_bit (64 - unat bits) (key * GOLDEN_RATIO_64)) else None)"

text \<open>Strings of \<open>2 ^ 31\<close> characters and more, whose length is not an \<open>int\<close>, are left out.\<close>

definition murmurhash_str :: "(u64 \<rightharpoonup> cbuf) \<Rightarrow> u64 \<Rightarrow> u8 \<Rightarrow> u64 option" where
  "murmurhash_str mem key bits =
     do {
       obj \<leftarrow> mem key;
       len \<leftarrow> strlen obj 0;
       hash \<leftarrow> (if len < 2 ^ 31 then MurmurHash3_x64_128 (map of_char obj) len seed_value else None);
       Some (snd hash)
     }"

definition hash_func :: "hheap \<Rightarrow> hmap \<Rightarrow> u64 \<Rightarrow> u64 option" where
  "hash_func s m key =
     (case hm_hash_func m of Hash_64 \<Rightarrow> hash_64 key (hm_bits m)
      | Murmurhash_str \<Rightarrow> murmurhash_str (strs s) key (hm_bits m))"

text \<open>The index of \<open>hashmap->hl[hashmap->hash_func(key, hashmap->bits)]\<close>.\<close>

definition bucket_index :: "hheap \<Rightarrow> hmap \<Rightarrow> u64 \<Rightarrow> nat option" where
  "bucket_index s m key =
     do { h \<leftarrow> hash_func s m key; if unat h < length (hm_hl m) then Some (unat h) else None }"

subsection \<open>Creation\<close>

text \<open>\<open>1 << bits\<close> is undefined from 31 bits on.\<close>

definition hmap_new :: "u8 \<Rightarrow> hash_fn \<Rightarrow> u64 \<Rightarrow> hheap \<Rightarrow> (u64 \<times> hheap) option" where
  "hmap_new bits f p s =
     (if 31 \<le> unat bits then None
      else if p = 0 then Some (0, s)
      else Some (p, s\<lparr>maps := (maps s)(p \<mapsto>
        \<lparr>hm_bits = bits, hm_hash_func = f, hm_hl = map (\<lambda>i. \<lparr>hl_first = 0\<rparr>) [0..<2 ^ unat bits]\<rparr>)\<rparr>))"

definition str_hmap_new :: "u8 \<Rightarrow> u64 \<Rightarrow> hheap \<Rightarrow> (u64 \<times> hheap) option" where
  "str_hmap_new bits = hmap_new bits Hash_64"

definition int_hmap_new :: "u8 \<Rightarrow> u64 \<Rightarrow> hheap \<Rightarrow> (u64 \<times> hheap) option" where
  "int_hmap_new bits = hmap_new bits Murmurhash_str"

subsection \<open>Search\<close>

partial_function (option) find_from :: "elements \<Rightarrow> u64 \<Rightarrow> u64 \<Rightarrow> u64 option" where
  "find_from es key pnode =
     (if pnode = 0 then Some 0
      else do {
        ele \<leftarrow> es (container_of pnode);
        if ele_key ele = key then Some (container_of pnode)
        else find_from es key (hn_next (ele_node ele))
      })"

definition hmap_find :: "hheap \<Rightarrow> u64 \<Rightarrow> u64 \<Rightarrow> u64 option" where
  "hmap_find s hm key =
     do {
       m \<leftarrow> maps s hm;
       i \<leftarrow> bucket_index s m key;
       find_from (elems s) key (hl_first (hm_hl m ! i))
     }"

definition hmap_get :: "hheap \<Rightarrow> u64 \<Rightarrow> u64 \<Rightarrow> u64 option" where
  "hmap_get s hm key =
     do {
       e \<leftarrow> hmap_find s hm key;
       if e \<noteq> 0 then do { ele \<leftarrow> elems s e; Some (ele_value ele) } else Some 0
     }"

subsection \<open>Insertion\<close>

text \<open>The assignment \<open>n->pprev = v\<close> through a node pointer.\<close>

definition set_pprev :: "elements \<Rightarrow> u64 \<Rightarrow> u64 \<Rightarrow> elements option" where
  "set_pprev es n v =
     do {
       ele \<leftarrow> es (container_of n);
       Some (es(container_of n \<mapsto> ele\<lparr>ele_node := (ele_node ele)\<lparr>hn_pprev := v\<rparr>\<rparr>))
     }"

text \<open>
  \<open>p\<close> is the result of \<open>malloc\<close>; the \<open>pprev\<close> of the new node is indeterminate (0 here)
  until the last statement assigns it. \<open>link_first\<close> writes the new element and links its
  node before the node \<open>first\<close>; \<open>pp\<close> is the address of the head.
\<close>

definition link_first :: "elements \<Rightarrow> u64 \<Rightarrow> u64 \<Rightarrow> u64 \<Rightarrow> u64 \<Rightarrow> u64 \<Rightarrow> elements option" where
  "link_first es p key val first pp =
     (let es = es(p \<mapsto> \<lparr>ele_key = key, ele_value = val,
                          ele_node = \<lparr>hn_next = first, hn_pprev = 0\<rparr>\<rparr>)
      in do {
        es \<leftarrow> (if first \<noteq> 0 then set_pprev es first (node_of p) else Some es);
        set_pprev es (node_of p) pp
      })"

definition hmap_insert :: "u64 \<Rightarrow> u64 \<Rightarrow> u64 \<Rightarrow> u64 \<Rightarrow> hheap \<Rightarrow> hheap option" where
  "hmap_insert hm key val p s =
     do {
       e \<leftarrow> hmap_find s hm key;
       if e \<noteq> 0 then Some s
       else if p = 0 then Some s
       else do {
         m \<leftarrow> maps s hm;
         i \<leftarrow> bucket_index s m key;
         es \<leftarrow> link_first (elems s) p key val (hl_first (hm_hl m ! i)) (head_addr hm i);
         Some (s\<lparr>elems := es,
                 maps := (maps s)(hm \<mapsto> m\<lparr>hm_hl := (hm_hl m)[i := \<lparr>hl_first = node_of p\<rparr>]\<rparr>)\<rparr>)
       }
     }"

subsection \<open>Deletion\<close>

text \<open>
  Freeing an element makes its address dead; \<open>next\<close> is read before. \<open>free_heads\<close> is the
  loop over the heads with the index \<open>i\<close> and \<open>n\<close> rounds to go.
\<close>

partial_function (option) free_chain :: "elements \<Rightarrow> u64 \<Rightarrow> elements option" where
  "free_chain es n =
     (if n = 0 then Some es
      else do {
        ele \<leftarrow> es (container_of n);
        free_chain (es(container_of n := None)) (hn_next (ele_node ele))
      })"

fun free_heads :: "hlist_head list \<Rightarrow> nat \<Rightarrow> nat \<Rightarrow> elements \<Rightarrow> elements option" where
  "free_heads hl i 0 es = Some es"
| "free_heads hl i (Suc n) es =
     (if i < length hl then do { es \<leftarrow> free_chain es (hl_first (hl ! i)); free_heads hl (Suc i) n es }
      else None)"

definition hmap_delete :: "u64 \<Rightarrow> hheap \<Rightarrow> hheap option" where
  "hmap_delete hm s =
     do {
       m \<leftarrow> maps s hm;
       es \<leftarrow> (if unat (hm_bits m) < 31 then free_heads (hm_hl m) 0 (2 ^ unat (hm_bits m)) (elems s) else None);
       Some (s\<lparr>elems := es, maps := (maps s)(hm := None)\<rparr>)
     }"

section \<open>Well-formed tables\<close>

text \<open>
  \<open>chain es pp n xs\<close>: from the node pointer \<open>n\<close> the \<open>next\<close> fields lead through the elements
  \<open>xs\<close> and end in NULL, and each \<open>pprev\<close> is the address of the pointer to its node, the
  first one \<open>pp\<close>.
\<close>

fun chain :: "elements \<Rightarrow> u64 \<Rightarrow> u64 \<Rightarrow> u64 list \<Rightarrow> bool" where
  "chain es pp n [] \<longleftrightarrow> n = 0"
| "chain es pp n (e # xs) \<longleftrightarrow> n = node_of e \<and> e \<noteq> 0 \<and> n \<noteq> 0
     \<and> (case es e of None \<Rightarrow> False
        | Some ele \<Rightarrow> hn_pprev (ele_node ele) = pp \<and> chain es n (hn_next (ele_node ele)) xs)"

definition key_at :: "elements \<Rightarrow> u64 \<Rightarrow> u64" where
  "key_at es e = (case es e of Some ele \<Rightarrow> ele_key ele | None \<Rightarrow> 0)"

definition value_at :: "elements \<Rightarrow> u64 \<Rightarrow> u64" where
  "value_at es e = (case es e of Some ele \<Rightarrow> ele_value ele | None \<Rightarrow> 0)"

text \<open>
  \<open>hmap_ok s hm m bs\<close>: \<open>hm\<close> is a live table with contents \<open>m\<close> whose heads lead to the
  element lists \<open>bs\<close>, every element is in the bucket of its key, and no element or key
  occurs twice.
\<close>

definition bucket_ok :: "hheap \<Rightarrow> u64 \<Rightarrow> hmap \<Rightarrow> u64 list list \<Rightarrow> nat \<Rightarrow> bool" where
  "bucket_ok s hm m bs i \<longleftrightarrow> chain (elems s) (head_addr hm i) (hl_first (hm_hl m ! i)) (bs ! i)
     \<and> (\<forall>e\<in>set (bs ! i). bucket_index s m (key_at (elems s) e) = Some i)"

definition hmap_ok :: "hheap \<Rightarrow> u64 \<Rightarrow> hmap \<Rightarrow> u64 list list \<Rightarrow> bool" where
  "hmap_ok s hm m bs \<longleftrightarrow> maps s hm = Some m \<and> unat (hm_bits m) < 31
     \<and> length (hm_hl m) = 2 ^ unat (hm_bits m) \<and> length bs = 2 ^ unat (hm_bits m)
     \<and> (\<forall>i<length bs. bucket_ok s hm m bs i)
     \<and> distinct (concat bs) \<and> distinct (map (key_at (elems s)) (concat bs))"

text \<open>The finite map a table stands for.\<close>

definition contents :: "elements \<Rightarrow> u64 list list \<Rightarrow> u64 \<rightharpoonup> u64" where
  "contents es bs = map_of (map (\<lambda>e. (key_at es e, value_at es e)) (concat bs))"

section \<open>Chains\<close>

lemma container_of_node [simp]: "container_of (node_of e) = e" "node_of (container_of n) = n"
  by (simp_all add: container_of_def node_of_def)

lemma node_of_eq [simp]: "node_of e = node_of e' \<longleftrightarrow> e = e'"
  by (simp add: node_of_def)

lemma chain_cong:
  assumes "\<And>e. e \<in> set xs \<Longrightarrow> es' e = es e"
  shows "chain es' pp n xs = chain es pp n xs"
  using assms by (induction xs arbitrary: pp n) (simp_all split: option.splits)

lemma chain_live: "chain es pp n xs \<Longrightarrow> e \<in> set xs \<Longrightarrow> \<exists>ele. es e = Some ele"
  by (induction xs arbitrary: pp n) (auto split: option.splits)

lemma chain_not_null: "chain es pp n xs \<Longrightarrow> 0 \<notin> set xs"
  by (induction xs arbitrary: pp n) (auto split: option.splits)

lemma find_from_chain:
  "chain es pp n xs \<Longrightarrow>
     find_from es key n = Some (case List.find (\<lambda>e. key_at es e = key) xs of None \<Rightarrow> 0 | Some e \<Rightarrow> e)"
proof (induction xs arbitrary: pp n)
  case Nil
  then show ?case by (simp add: find_from.simps)
next
  case (Cons e xs)
  then obtain ele where "es e = Some ele" "n = node_of e" "n \<noteq> 0" "chain es n (hn_next (ele_node ele)) xs"
    by (auto split: option.splits)
  with Cons.IH show ?case by (subst find_from.simps) (simp add: key_at_def)
qed

lemma free_chain_all:
  "chain es pp n xs \<Longrightarrow> distinct xs \<Longrightarrow> free_chain es n = Some (es |` (- set xs))"
proof (induction xs arbitrary: es pp n)
  case Nil
  then show ?case by (simp add: free_chain.simps)
next
  case (Cons e xs)
  then obtain ele where e: "es e = Some ele" "n = node_of e" "n \<noteq> 0" "chain es n (hn_next (ele_node ele)) xs"
    by (auto split: option.splits)
  with Cons.prems have "chain (es(e := None)) n (hn_next (ele_node ele)) xs"
    by (subst chain_cong [of _ _ es]) auto
  then have "free_chain (es(e := None)) (hn_next (ele_node ele)) = Some ((es(e := None)) |` (- set xs))"
    by (rule Cons.IH) (use Cons.prems in simp)
  moreover have "free_chain es n = free_chain (es(e := None)) (hn_next (ele_node ele))"
    using e by (subst free_chain.simps) simp
  ultimately have "free_chain es n = Some ((es(e := None)) |` (- set xs))" by (rule trans [rotated])
  also have "(es(e := None)) |` (- set xs) = es |` (- set (e # xs))"
    by (auto simp: restrict_map_def)
  finally show ?case .
qed

lemma link_first_chain:
  assumes "chain es pp n xs" and "distinct xs" and "es p = None" and "p \<noteq> 0" and "node_of p \<noteq> 0"
  shows "\<exists>es'. link_first es p key val n pp = Some es' \<and> chain es' pp (node_of p) (p # xs)
     \<and> key_at es' p = key \<and> value_at es' p = val
     \<and> (\<forall>e. e \<noteq> p \<longrightarrow> key_at es' e = key_at es e \<and> value_at es' e = value_at es e)
     \<and> (\<forall>e. e \<notin> set (p # xs) \<longrightarrow> es' e = es e)"
proof (cases xs)
  case Nil
  with assms show ?thesis
    by (auto simp: link_first_def set_pprev_def key_at_def value_at_def)
next
  case (Cons e ys)
  with assms(1) obtain ele where e: "es e = Some ele" "n = node_of e" "n \<noteq> 0" "e \<noteq> 0"
    "hn_pprev (ele_node ele) = pp" "chain es n (hn_next (ele_node ele)) ys"
    by (auto split: option.splits)
  with assms(3) have "e \<noteq> p" by auto
  have "p \<notin> set ys" using chain_live [OF assms(1)] assms(3) Cons by force
  with e have c: "chain (es(p \<mapsto> x, e \<mapsto> y)) n (hn_next (ele_node ele)) ys" for x y
    using assms(2) Cons by (subst chain_cong [of _ _ es]) auto
  with Cons e assms \<open>e \<noteq> p\<close> show ?thesis
    by (auto simp: link_first_def set_pprev_def key_at_def value_at_def fun_upd_twist)
qed

section \<open>Tables\<close>

lemma in_concat_nth: "e \<in> set (concat bs) \<longleftrightarrow> (\<exists>j<length bs. e \<in> set (bs ! j))"
  by (auto simp: in_set_conv_nth) (metis nth_mem in_set_conv_nth)+

lemma concat_bucket:
  assumes "i < length bs"
  obtains xs ys where "concat bs = xs @ bs ! i @ ys"
    and "\<And>zs. concat (bs[i := zs]) = xs @ zs @ ys"
  using assms by (simp add: upd_conv_take_nth_drop id_take_nth_drop [of i bs, THEN arg_cong [of _ _ concat]])

lemma bucket_elsewhere:
  assumes "distinct (concat bs)" and "i < length bs" and "j < length bs" and "i \<noteq> j" and "e \<in> set (bs ! i)"
  shows "e \<notin> set (bs ! j)"
proof
  assume e: "e \<in> set (bs ! j)"
  obtain xs ys where c: "concat bs = xs @ bs ! i @ ys" "\<And>zs. concat (bs[i := zs]) = xs @ zs @ ys"
    using concat_bucket [OF assms(2)] by blast
  have "e \<in> set (concat (bs[i := []]))" using e assms(3,4) by (subst in_concat_nth) auto
  with c assms(1,5) show False by auto
qed


lemma contents_Some:
  assumes "distinct (map (key_at es) (concat bs))"
  shows "contents es bs k = Some v \<longleftrightarrow> (\<exists>e\<in>set (concat bs). key_at es e = k \<and> value_at es e = v)"
  using assms by (auto simp: contents_def map_of_eq_Some_iff comp_def)

lemma bucket_index_length: "bucket_index s m k = Some i \<Longrightarrow> i < length (hm_hl m)"
  by (auto simp: bucket_index_def bind_Some_iff split: if_splits)

lemma hmap_okD:
  assumes "hmap_ok s hm m bs"
  shows "maps s hm = Some m" and "length bs = length (hm_hl m)" and "length bs = 2 ^ unat (hm_bits m)"
    and "unat (hm_bits m) < 31" and "distinct (concat bs)" and "distinct (map (key_at (elems s)) (concat bs))"
    and "i < length bs \<Longrightarrow> chain (elems s) (head_addr hm i) (hl_first (hm_hl m ! i)) (bs ! i)"
    and "i < length bs \<Longrightarrow> e \<in> set (bs ! i) \<Longrightarrow> bucket_index s m (key_at (elems s) e) = Some i"
  using assms by (simp_all add: hmap_ok_def bucket_ok_def)

text \<open>A search finds the element with the key, wherever it is, or NULL.\<close>

lemma hmap_find_contents:
  assumes "hmap_ok s hm m bs" and "bucket_index s m k = Some i"
  obtains "hmap_find s hm k = Some 0" and "contents (elems s) bs k = None"
  | e ele where "hmap_find s hm k = Some e" and "e \<noteq> 0" and "elems s e = Some ele"
    and "contents (elems s) bs k = Some (ele_value ele)"
proof -
  note ok = hmap_okD [OF assms(1)]
  have i: "i < length bs" using bucket_index_length [OF assms(2)] ok(2) by simp
  have f: "hmap_find s hm k = Some (case List.find (\<lambda>e. key_at (elems s) e = k) (bs ! i) of None \<Rightarrow> 0 | Some e \<Rightarrow> e)"
    using assms(2) ok(1) find_from_chain [OF ok(7) [OF i]] by (simp add: hmap_find_def)
  show ?thesis
  proof (cases "List.find (\<lambda>e. key_at (elems s) e = k) (bs ! i)")
    case None
    have "contents (elems s) bs k \<noteq> Some v" for v
    proof
      assume "contents (elems s) bs k = Some v"
      then obtain e j where e: "j < length bs" "e \<in> set (bs ! j)" "key_at (elems s) e = k"
        by (auto simp: contents_Some [OF ok(6)] in_concat_nth simp del: set_concat)
      with ok(8) [of j e] assms(2) have "j = i" by simp
      with e None show False by (auto simp: find_None_iff)
    qed
    then have "contents (elems s) bs k = None" by (cases "contents (elems s) bs k") auto
    with that(1) f None show ?thesis by simp
  next
    case (Some e)
    then have e: "e \<in> set (bs ! i)" "key_at (elems s) e = k" by (auto simp: find_Some_iff)
    then obtain ele where "elems s e = Some ele" "e \<noteq> 0"
      using chain_live [OF ok(7) [OF i]] chain_not_null [OF ok(7) [OF i]] by metis
    moreover from this e i have "contents (elems s) bs k = Some (ele_value ele)"
      by (auto simp: contents_Some [OF ok(6)] value_at_def intro!: bexI [of _ e] bexI [of _ "bs ! i"])
    ultimately show ?thesis using that(2) f Some by simp
  qed
qed

lemma hmap_get_contents:
  assumes "hmap_ok s hm m bs" and "bucket_index s m k = Some i"
  shows "hmap_get s hm k = Some (case contents (elems s) bs k of None \<Rightarrow> 0 | Some v \<Rightarrow> v)"
  using assms by (rule hmap_find_contents) (simp_all add: hmap_get_def)

lemma hmap_insert_kept:
  assumes "hmap_ok s hm m bs" and "bucket_index s m k = Some i"
    and "k \<in> dom (contents (elems s) bs) \<or> p = 0"
  shows "hmap_insert hm k v p s = Some s"
  using assms(1,2) by (rule hmap_find_contents) (use assms(3) in \<open>auto simp: hmap_insert_def\<close>)

text \<open>An element \<open>p\<close> that the other elements are unaffected by, put first in a bucket.\<close>

definition added :: "elements \<Rightarrow> elements \<Rightarrow> u64 \<Rightarrow> u64 \<Rightarrow> u64 \<Rightarrow> bool" where
  "added es es' p k v \<longleftrightarrow> key_at es' p = k \<and> value_at es' p = v
     \<and> (\<forall>e. e \<noteq> p \<longrightarrow> key_at es' e = key_at es e \<and> value_at es' e = value_at es e)"

lemma contents_added:
  assumes add: "added es es' p k v" and i: "i < length bs" and p: "p \<notin> set (concat bs)"
    and dist: "distinct (map (key_at es) (concat bs))" and new: "contents es bs k = None"
  shows "distinct (map (key_at es') (concat (bs[i := p # bs ! i])))"
    and "contents es' (bs[i := p # bs ! i]) = (contents es bs)(k \<mapsto> v)"
proof -
  obtain xs ys where c: "concat bs = xs @ bs ! i @ ys" "\<And>zs. concat (bs[i := zs]) = xs @ zs @ ys"
    using concat_bucket [OF i] by blast
  have keys: "map (key_at es') (concat bs) = map (key_at es) (concat bs)"
    using p add by (intro map_cong refl) (metis added_def)
  have nk: "k \<notin> set (map (key_at es) (concat bs))"
    using new contents_Some [OF dist, of k] by (auto simp del: set_concat)
  show dk: "distinct (map (key_at es') (concat (bs[i := p # bs ! i])))"
  proof -
    have "distinct (k # map (key_at es') (concat bs))" using dist nk by (simp only: keys distinct.simps) simp
    then show ?thesis using add unfolding c by (auto simp: added_def)
  qed
  show "contents es' (bs[i := p # bs ! i]) = (contents es bs)(k \<mapsto> v)"
  proof (rule ext)
    fix k'
    have eq: "contents es' (bs[i := p # bs ! i]) k' = Some w
        \<longleftrightarrow> ((contents es bs)(k \<mapsto> v)) k' = Some w" for w
    proof -
      have "set (concat (bs[i := p # bs ! i])) = insert p (set (concat bs))" by (simp only: c) auto
      then have "contents es' (bs[i := p # bs ! i]) k' = Some w
          \<longleftrightarrow> (k = k' \<and> v = w) \<or> (\<exists>e\<in>set (concat bs). key_at es' e = k' \<and> value_at es' e = w)"
        unfolding contents_Some [OF dk] using add by (simp only: bex_simps added_def)
      also have "(\<exists>e\<in>set (concat bs). key_at es' e = k' \<and> value_at es' e = w) \<longleftrightarrow> contents es bs k' = Some w"
        unfolding contents_Some [OF dist] using add p unfolding added_def by metis
      finally show ?thesis using new by (cases "k = k'") auto
    qed
    then show "contents es' (bs[i := p # bs ! i]) k' = ((contents es bs)(k \<mapsto> v)) k'"
      by (metis option.exhaust)
  qed
qed

text \<open>What an insertion of a new key at a fresh address leaves alone.\<close>

definition bucket_added :: "hheap \<Rightarrow> u64 list list \<Rightarrow> hheap \<Rightarrow> u64 list list \<Rightarrow> u64 \<Rightarrow> bool" where
  "bucket_added s bs s' bs' p \<longleftrightarrow> set (concat bs') = insert p (set (concat bs)) \<and> strs s' = strs s
     \<and> (\<forall>e. e \<notin> set (concat bs') \<longrightarrow> elems s' e = elems s e)"

lemma hmap_insert_added:
  assumes ok: "hmap_ok s hm m bs" and i: "bucket_index s m k = Some i"
    and new: "contents (elems s) bs k = None" and p: "elems s p = None" "p \<noteq> 0" "node_of p \<noteq> 0"
  shows "\<exists>s' m' bs'. hmap_insert hm k v p s = Some s' \<and> hmap_ok s' hm m' bs'
     \<and> contents (elems s') bs' = (contents (elems s) bs)(k \<mapsto> v)
     \<and> hm_bits m' = hm_bits m \<and> hm_hash_func m' = hm_hash_func m
     \<and> maps s' = (maps s)(hm \<mapsto> m') \<and> bucket_added s bs s' bs' p"
proof -
  note okD = hmap_okD [OF ok]
  have il: "i < length bs" using bucket_index_length [OF i] okD(2) by simp
  have dead: "p \<notin> set (bs ! j)" if "j < length bs" for j
    using chain_live [OF okD(7) [OF that]] p(1) by force
  then have pn: "p \<notin> set (concat bs)" by (simp add: in_concat_nth del: set_concat)
  have dist: "distinct (bs ! i)" using okD(5) il by (auto simp: distinct_concat_iff)
  obtain es' where es': "link_first (elems s) p k v (hl_first (hm_hl m ! i)) (head_addr hm i) = Some es'"
    and ch: "chain es' (head_addr hm i) (node_of p) (p # bs ! i)"
    and add: "added (elems s) es' p k v" and same: "\<And>e. e \<notin> set (p # bs ! i) \<Longrightarrow> es' e = elems s e"
    using link_first_chain [OF okD(7) [OF il] dist p] unfolding added_def by blast
  let ?m = "m\<lparr>hm_hl := (hm_hl m)[i := \<lparr>hl_first = node_of p\<rparr>]\<rparr>"
  let ?s = "s\<lparr>elems := es', maps := (maps s)(hm \<mapsto> ?m)\<rparr>" and ?bs = "bs[i := p # bs ! i]"
  note con = contents_added [OF add il pn okD(6) new]
  obtain xs ys where c: "concat bs = xs @ bs ! i @ ys" "\<And>zs. concat (bs[i := zs]) = xs @ zs @ ys"
    using concat_bucket [OF il] by blast
  have idx: "bucket_index ?s ?m key = bucket_index s m key" for key
    by (simp add: bucket_index_def hash_func_def split: hash_fn.split)
  have "bucket_ok ?s hm ?m ?bs j" if j: "j < length bs" for j
  proof (cases "j = i")
    case True
    have "bucket_index s m (key_at es' e) = Some i" if "e \<in> set (p # bs ! i)" for e
      using that add i okD(8) [OF il, of e] by (cases "e = p") (auto simp: added_def)
    with True ch il okD(2) show ?thesis by (simp add: bucket_ok_def idx)
  next
    case False
    have e: "e \<noteq> p \<and> e \<notin> set (bs ! i)" if "e \<in> set (bs ! j)" for e
      using that bucket_elsewhere [OF okD(5) j il False that] dead [OF j] by auto
    with same have "chain es' (head_addr hm j) (hl_first (hm_hl m ! j)) (bs ! j)"
      using okD(7) [OF j] by (subst chain_cong [of _ _ "elems s"]) auto
    with False e add okD(8) [OF j] show ?thesis by (simp add: bucket_ok_def idx added_def)
  qed
  with okD(1-5) con(1) pn have "hmap_ok ?s hm ?m ?bs" unfolding hmap_ok_def by (auto simp: c)
  moreover have "hmap_insert hm k v p s = Some ?s"
    by (rule hmap_find_contents [OF ok i]) (use new i es' okD(1) p(2) in \<open>simp_all add: hmap_insert_def\<close>)
  moreover have "bucket_added s bs ?s ?bs p"
    using same by (auto simp: bucket_added_def c simp del: set_concat)
  ultimately show ?thesis using con(2) by (intro exI [of _ ?s] exI [of _ ?m] exI [of _ ?bs]) simp
qed

text \<open>Deletion frees every element of the table and nothing else.\<close>

lemma free_heads_all:
  assumes "i + n = length bs" and "length hl = length bs" and "distinct (concat bs)"
    and "\<And>j. i \<le> j \<Longrightarrow> j < length bs \<Longrightarrow> chain es (pp j) (hl_first (hl ! j)) (bs ! j)"
  shows "free_heads hl i n es = Some (es |` (- set (concat (drop i bs))))"
  using assms(1,4)
proof (induction n arbitrary: i es)
  case 0
  then show ?case by (simp add: restrict_map_def)
next
  case (Suc n)
  then have i: "i < length bs" by simp
  have "free_chain es (hl_first (hl ! i)) = Some (es |` (- set (bs ! i)))"
    using Suc.prems(2) [of i] i assms(3) by (intro free_chain_all) (auto simp: distinct_concat_iff)
  moreover have "free_heads hl (Suc i) n (es |` (- set (bs ! i)))
      = Some ((es |` (- set (bs ! i))) |` (- set (concat (drop (Suc i) bs))))"
  proof (rule Suc.IH)
    fix j
    assume j: "Suc i \<le> j" "j < length bs"
    then have "e \<notin> set (bs ! i)" if "e \<in> set (bs ! j)" for e
      using bucket_elsewhere [OF assms(3) _ i _ that] by simp
    with Suc.prems(2) [of j] j show "chain (es |` (- set (bs ! i))) (pp j) (hl_first (hl ! j)) (bs ! j)"
      by (subst chain_cong [of _ _ es]) simp_all
  qed (use Suc.prems(1) in simp)
  moreover have "- set (bs ! i) \<inter> - set (concat (drop (Suc i) bs)) = - set (concat (drop i bs))"
    using i by (simp add: Cons_nth_drop_Suc [symmetric])
  ultimately show ?case using i assms(2) by (simp add: Int_commute)
qed

lemma hmap_delete_all:
  assumes "hmap_ok s hm m bs"
  shows "hmap_delete hm s = Some (s\<lparr>elems := elems s |` (- set (concat bs)), maps := (maps s)(hm := None)\<rparr>)"
proof -
  note ok = hmap_okD [OF assms]
  have "free_heads (hm_hl m) 0 (length bs) (elems s) = Some (elems s |` (- set (concat (drop 0 bs))))"
    using ok(2,5,7) by (intro free_heads_all [where pp = "head_addr hm"]) simp_all
  with ok(1,4) show ?thesis by (simp add: hmap_delete_def ok(3) [symmetric] del: set_concat)
qed

section \<open>The table as a store\<close>

text \<open>
  \<open>hmap_store fr hm M s\<close>: the table \<open>hm\<close>, hashed by \<open>hash_64\<close> with 1 to 30 bits, represents
  the map \<open>M\<close>, and the rest of the heap is \<open>fr\<close>.
\<close>

definition hmap_store :: "hheap \<Rightarrow> u64 \<Rightarrow> (u64 \<rightharpoonup> u64) \<Rightarrow> hheap \<Rightarrow> bool" where
  "hmap_store fr hm M s \<longleftrightarrow> (\<exists>m bs. hmap_ok s hm m bs \<and> M = contents (elems s) bs
     \<and> 0 < unat (hm_bits m) \<and> hm_hash_func m = Hash_64
     \<and> elems s |` (- set (concat bs)) = elems fr \<and> (maps s)(hm := None) = maps fr \<and> strs s = strs fr)"

text \<open>Results that \<open>malloc\<close> may give: NULL, or fresh addresses of distinct 32-byte objects.\<close>

fun fresh :: "u64 list \<Rightarrow> hheap \<Rightarrow> bool" where
  "fresh ps s \<longleftrightarrow> distinct (filter (\<lambda>p. p \<noteq> 0) ps) \<and> (\<forall>p\<in>set ps. p \<noteq> 0 \<longrightarrow> elems s p = None \<and> node_of p \<noteq> 0)"

lemma hash_64_index:
  assumes "hm_hash_func m = Hash_64" and "0 < unat (hm_bits m)" and "unat (hm_bits m) < 31"
    and "length (hm_hl m) = 2 ^ unat (hm_bits m)"
  shows "\<exists>i. bucket_index s m k = Some i"
proof -
  have "unat (drop_bit (64 - unat (hm_bits m)) w) < 2 ^ unat (hm_bits m)" for w :: u64
  proof -
    have "unat w < 2 ^ (64 - unat (hm_bits m)) * 2 ^ unat (hm_bits m)"
      using assms(3) unat_less_size_t [of w] by (simp flip: power_add)
    moreover have "unat (drop_bit (64 - unat (hm_bits m)) w) = unat w div 2 ^ (64 - unat (hm_bits m))"
      by (simp add: unat_drop_bit_eq) (simp add: drop_bit_eq_div)
    ultimately show ?thesis by (simp only: less_mult_imp_div_less mult.commute)
  qed
  with assms show ?thesis by (simp add: bucket_index_def hash_func_def hash_64_def)
qed

lemma hmap_store_index:
  assumes "hmap_ok s hm m bs" and "0 < unat (hm_bits m)" and "hm_hash_func m = Hash_64"
  obtains i where "bucket_index s m k = Some i"
  using hash_64_index [of m s k] hmap_okD(2,3,4) [OF assms(1)] assms(2,3) by auto

lemma hmap_store_get:
  assumes "hmap_store fr hm M s"
  shows "hmap_get s hm k = Some (case M k of None \<Rightarrow> 0 | Some v \<Rightarrow> v)"
proof -
  from assms obtain m bs where ok: "hmap_ok s hm m bs" and M: "M = contents (elems s) bs"
    and "0 < unat (hm_bits m)" "hm_hash_func m = Hash_64"
    unfolding hmap_store_def by blast
  then obtain i where "bucket_index s m k = Some i" using hmap_store_index by blast
  from hmap_get_contents [OF ok this] M show ?thesis by simp
qed

lemma hmap_store_put:
  assumes st: "hmap_store fr hm M s" and fresh: "fresh (p # ps) s"
  shows "\<exists>s'. hmap_insert hm k v p s = Some s' \<and> hmap_store fr hm (put_spec (p = 0) k v M) s' \<and> fresh ps s'"
proof -
  from st obtain m bs where ok: "hmap_ok s hm m bs" and M: "M = contents (elems s) bs"
    and m: "0 < unat (hm_bits m)" "hm_hash_func m = Hash_64"
    and frame: "elems s |` (- set (concat bs)) = elems fr" "(maps s)(hm := None) = maps fr" "strs s = strs fr"
    unfolding hmap_store_def by blast
  obtain i where i: "bucket_index s m k = Some i" using hmap_store_index [OF ok m] by blast
  show ?thesis
  proof (cases "p = 0 \<or> k \<in> dom M")
    case True
    with hmap_insert_kept [OF ok i, of p v] M st fresh show ?thesis
      by (auto simp: put_spec_def split: if_splits)
  next
    case False
    then have p: "elems s p = None" "p \<noteq> 0" "node_of p \<noteq> 0" and new: "contents (elems s) bs k = None"
      using fresh M by auto
    from hmap_insert_added [OF ok i new p, of v] obtain s' m' bs'
      where s': "hmap_insert hm k v p s = Some s'" "hmap_ok s' hm m' bs'"
        "contents (elems s') bs' = (contents (elems s) bs)(k \<mapsto> v)"
        "hm_bits m' = hm_bits m" "hm_hash_func m' = hm_hash_func m" "maps s' = (maps s)(hm \<mapsto> m')"
        and add: "bucket_added s bs s' bs' p" by blast
    have "elems s' |` (- set (concat bs')) = elems s |` (- set (concat bs))"
      using add p(1) by (intro ext) (auto simp: bucket_added_def restrict_map_def simp del: set_concat)
    moreover have "maps s' = (maps s)(hm \<mapsto> m')" by fact
    ultimately have "hmap_store fr hm (M(k \<mapsto> v)) s'"
      unfolding hmap_store_def using s' m M frame add
      by (intro exI [of _ m'] exI [of _ bs']) (simp add: bucket_added_def del: set_concat)
    moreover have "fresh ps s'"
    proof -
      have "elems s' q = None" if "q \<in> set ps" "q \<noteq> 0" for q
      proof -
        have "q \<noteq> p" "elems s q = None" using that fresh p(2) by auto
        moreover have "q \<notin> set (concat bs)" using chain_live hmap_okD(7,2) [OF ok] \<open>elems s q = None\<close>
          by (metis in_concat_nth option.distinct(1))
        ultimately show ?thesis using add by (auto simp: bucket_added_def simp del: set_concat)
      qed
      with fresh show ?thesis by (auto split: if_splits)
    qed
    ultimately show ?thesis using s'(1) False by (auto simp: put_spec_def)
  qed
qed

interpretation hstore: first_insert_store "hmap_store fr hm" fresh "\<lambda>p. p = 0" 0
  "\<lambda>s. hmap_get s hm" "hmap_insert hm" for fr hm
  by unfold_locales (rule hmap_store_get hmap_store_put; assumption)+

lemma hmap_store_new:
  assumes "str_hmap_new bits p s = Some (hm, s')" and "p \<noteq> 0" and "maps s p = None"
    and "1 \<le> unat bits"
  shows "hm = p" and "hmap_store s hm Map.empty s'" and "elems s' = elems s"
proof -
  from assms show hm: "hm = p" and es: "elems s' = elems s"
    by (auto simp: str_hmap_new_def hmap_new_def split: if_splits)
  let ?m = "\<lparr>hm_bits = bits, hm_hash_func = Hash_64, hm_hl = map (\<lambda>i. \<lparr>hl_first = 0\<rparr>) [0..<2 ^ unat bits]\<rparr>"
  have "hmap_ok s' hm ?m (replicate (2 ^ unat bits) [])"
    using assms by (auto simp: str_hmap_new_def hmap_new_def hmap_ok_def bucket_ok_def split: if_splits)
  moreover have "s' = s\<lparr>maps := (maps s)(p \<mapsto> ?m)\<rparr>"
    using assms by (auto simp: str_hmap_new_def hmap_new_def split: if_splits)
  ultimately show "hmap_store s hm Map.empty s'"
    unfolding hmap_store_def using assms(3,4) hm
    by (intro exI [of _ ?m] exI [of _ "replicate (2 ^ unat bits) []"])
      (simp add: contents_def restrict_map_def fun_upd_idem)
qed

lemma hmap_store_delete:
  assumes "hmap_store fr hm M s"
  shows "hmap_delete hm s = Some fr"
proof -
  from assms obtain m bs where "hmap_ok s hm m bs"
    and "elems s |` (- set (concat bs)) = elems fr" "(maps s)(hm := None) = maps fr" "strs s = strs fr"
    unfolding hmap_store_def by blast
  with hmap_delete_all [of s hm m bs] show ?thesis by simp
qed

section \<open>Properties\<close>

text \<open>
  C4. A table made by \<open>str_hmap_new\<close> with 1 to 30 bits refines a finite map from pointers:
  every program of \<open>hmap_get\<close> and \<open>hmap_insert\<close> calls on it is defined, returns what the
  same program returns on the map in which the first insertion of a key wins and a failed
  allocation inserts nothing, and \<open>hmap_delete\<close> afterwards frees every object the program
  allocated, each once, and leaves the heap as it was before the table was made.
\<close>

theorem str_hmap_refines:
  assumes "str_hmap_new bits p s = Some (hm, s1)" and "p \<noteq> 0" and "maps s p = None"
    and "1 \<le> unat bits" and "fresh (concat (map op_res ops)) s"
  shows "\<exists>s2. run_store (\<lambda>s. hmap_get s hm) (hmap_insert hm) ops s1
       = Some (fst (run_spec 0 (\<lambda>p. p = 0) ops Map.empty), s2)
     \<and> hmap_delete hm s2 = Some s"
proof -
  note new = hmap_store_new [OF assms(1-4)]
  have "fresh (concat (map op_res ops) @ []) s1" using assms(5) new(3) by simp
  from hstore.run_store_refines [OF new(2) this] obtain s2
    where "run_store (\<lambda>s. hmap_get s hm) (hmap_insert hm) ops s1
        = Some (fst (run_spec 0 (\<lambda>p. p = 0) ops Map.empty), s2)"
      and "hmap_store s hm (snd (run_spec 0 (\<lambda>p. p = 0) ops Map.empty)) s2" by blast
  with hmap_store_delete show ?thesis by blast
qed

abbreviation empty_heap :: hheap where
  "empty_heap \<equiv> \<lparr>elems = Map.empty, maps = Map.empty, strs = Map.empty\<rparr>"

theorem str_hmap_refines_witness:
  "\<exists>hm s1 s2. str_hmap_new 4 0x1000 empty_heap = Some (hm, s1)
     \<and> run_store (\<lambda>s. hmap_get s hm) (hmap_insert hm)
          [Put 7 70 0x2000, Get 7, Put 7 71 0x3000, Put 9 90 0, Get 7, Get 9] s1 = Some ([70, 70, 0], s2)
     \<and> hmap_delete hm s2 = Some empty_heap"
proof -
  obtain hm s1 where new: "str_hmap_new 4 0x1000 empty_heap = Some (hm, s1)"
    by (simp add: str_hmap_new_def hmap_new_def)
  from str_hmap_refines [OF this, of "[Put 7 70 0x2000, Get 7, Put 7 71 0x3000, Put 9 90 0, Get 7, Get 9]"]
  have "\<exists>s2. run_store (\<lambda>s. hmap_get s hm) (hmap_insert hm)
       [Put 7 70 0x2000, Get 7, Put 7 71 0x3000, Put 9 90 0, Get 7, Get 9] s1 = Some ([70, 70, 0], s2)
     \<and> hmap_delete hm s2 = Some empty_heap"
    by (simp add: node_of_def put_spec_def)
  with new show ?thesis by blast
qed

text \<open>
  C26. On a well-formed table, with either hash function, and for a key whose bucket is
  inside the table, the loops along the chains end: \<open>hmap_find\<close> returns, \<open>hmap_insert\<close>
  returns and keeps the table well-formed (chains end in NULL, \<open>pprev\<close> leads to the pointer
  to the node, elements in the bucket of their key, no key twice), \<open>hmap_delete\<close> returns.
\<close>

theorem hmap_loops_terminate:
  assumes "hmap_ok s hm m bs" and "bucket_index s m k = Some i" and "fresh [p] s"
  shows "(\<exists>e. hmap_find s hm k = Some e)
     \<and> (\<exists>s' m' bs'. hmap_insert hm k v p s = Some s' \<and> hmap_ok s' hm m' bs')
     \<and> (\<exists>s'. hmap_delete hm s = Some s')"
proof (intro conjI)
  show "\<exists>e. hmap_find s hm k = Some e" by (rule hmap_find_contents [OF assms(1,2)]) blast+
  show "\<exists>s'. hmap_delete hm s = Some s'" using hmap_delete_all [OF assms(1)] by blast
  show "\<exists>s' m' bs'. hmap_insert hm k v p s = Some s' \<and> hmap_ok s' hm m' bs'"
  proof (cases "p = 0 \<or> k \<in> dom (contents (elems s) bs)")
    case True
    with hmap_insert_kept [OF assms(1,2), of p v] assms(1) show ?thesis by blast
  next
    case False
    with assms(3) have "elems s p = None" "p \<noteq> 0" "node_of p \<noteq> 0" "contents (elems s) bs k = None"
      by auto
    with hmap_insert_added [OF assms(1,2), of p v] show ?thesis by blast
  qed
qed

definition example_heap :: hheap where
  "example_heap = \<lparr>
     elems = [0x2000 \<mapsto> \<lparr>ele_key = 7, ele_value = 70, ele_node = \<lparr>hn_next = 0, hn_pprev = 0x1018\<rparr>\<rparr>],
     maps = [0x1000 \<mapsto> \<lparr>hm_bits = 1, hm_hash_func = Hash_64, hm_hl = [\<lparr>hl_first = 0\<rparr>, \<lparr>hl_first = 0x2010\<rparr>]\<rparr>],
     strs = Map.empty\<rparr>"

theorem hmap_loops_terminate_witness:
  "(\<exists>e. hmap_find example_heap 0x1000 9 = Some e) \<and> (\<exists>s'. hmap_delete 0x1000 example_heap = Some s')"
proof -
  let ?m = "\<lparr>hm_bits = 1 :: u8, hm_hash_func = Hash_64, hm_hl = [\<lparr>hl_first = 0\<rparr>, \<lparr>hl_first = 0x2010\<rparr>]\<rparr>"
  have h: "bucket_index example_heap ?m 7 = Some 1" "bucket_index example_heap ?m 9 = Some 0"
    by (simp_all add: bucket_index_def hash_func_def hash_64_def GOLDEN_RATIO_64_def)
  then have "hmap_ok example_heap 0x1000 ?m [[], [0x2000]]"
    by (auto simp: hmap_ok_def bucket_ok_def example_heap_def key_at_def node_of_def head_addr_def less_Suc_eq)
  from hmap_loops_terminate [OF this h(2), of 0] show ?thesis by simp
qed

text \<open>
  C35. A table made by \<open>int_hmap_new\<close> cannot be used with integer keys: the hash function
  reads the key as a pointer to a string, which is undefined if no object is there; and
  with a string whose 64-bit hash is not below the number of buckets both operations index
  outside the table, since the hash is not reduced to \<open>bits\<close> bits.
\<close>

theorem int_hmap_out_of_range:
  assumes "int_hmap_new bits p s = Some (hm, s1)" and "p \<noteq> 0"
    and "strs s key = None
      \<or> (\<exists>rest. strs s key = Some (str @ NUL # rest) \<and> NUL \<notin> set str \<and> length str < 2 ^ 31
          \<and> 2 ^ unat bits \<le> unat (snd (x64_128_spec (map of_char str) seed_value)))"
  shows "hmap_get s1 hm key = None \<and> hmap_insert hm key val q s1 = None"
proof -
  have "hmap_find s1 hm key = None"
  proof -
    from assms(1,2) have s1: "strs s1 = strs s" "maps s1 hm = Some \<lparr>hm_bits = bits, hm_hash_func = Murmurhash_str,
        hm_hl = map (\<lambda>i. \<lparr>hl_first = 0\<rparr>) [0..<2 ^ unat bits]\<rparr>"
      by (auto simp: int_hmap_new_def hmap_new_def split: if_splits)
    show ?thesis using assms(3)
    proof
      assume "strs s key = None"
      with s1 show ?thesis by (simp add: hmap_find_def bucket_index_def hash_func_def murmurhash_str_def)
    next
      assume "\<exists>rest. strs s key = Some (str @ NUL # rest) \<and> NUL \<notin> set str \<and> length str < 2 ^ 31
          \<and> 2 ^ unat bits \<le> unat (snd (x64_128_spec (map of_char str) seed_value))"
      then obtain rest where r: "strs s key = Some (str @ NUL # rest)" "NUL \<notin> set str" "length str < 2 ^ 31"
        "\<not> unat (snd (x64_128_spec (map of_char str) seed_value)) < 2 ^ unat bits" by auto
      then have "takeWhile (\<lambda>c. c \<noteq> NUL) (str @ NUL # rest) = str" by (subst takeWhile_append2) auto
      then have "strlen (str @ NUL # rest) 0 = Some (length str)"
        by (simp add: strlen_def cstr_def upto_nul_def)
      with r s1 x64_128_reference_at [of "length str" "map of_char (str @ NUL # rest)" seed_value]
      show ?thesis by (simp add: hmap_find_def bucket_index_def hash_func_def murmurhash_str_def)
    qed
  qed
  then show ?thesis by (simp add: hmap_get_def hmap_insert_def)
qed

theorem int_hmap_out_of_range_witness:
  "\<exists>hm s1. int_hmap_new 4 0x1000 (empty_heap\<lparr>strs := [0x5000 \<mapsto> ''hello'' @ [NUL]]\<rparr>) = Some (hm, s1)
     \<and> hmap_get s1 hm 42 = None \<and> hmap_get s1 hm 0x5000 = None \<and> hmap_insert hm 0x5000 1 0x2000 s1 = None"
proof -
  let ?s = "empty_heap\<lparr>strs := [0x5000 \<mapsto> ''hello'' @ [NUL]]\<rparr>"
  obtain hm s1 where new: "int_hmap_new 4 0x1000 ?s = Some (hm, s1)"
    by (simp add: int_hmap_new_def hmap_new_def)
  have h: "2 ^ unat (4 :: u8) \<le> unat (snd (x64_128_spec (map of_char ''hello'') seed_value))"
  proof -
    have "snd (x64_128_spec (map of_char ''hello'') seed_value) = 0x7019e2362a147721" by code_simp
    then show ?thesis by simp
  qed
  have "hmap_get s1 hm 42 = None" using int_hmap_out_of_range [OF new, where key = 42] by simp
  moreover have "hmap_get s1 hm 0x5000 = None \<and> hmap_insert hm 0x5000 1 0x2000 s1 = None"
    using int_hmap_out_of_range [OF new, where key = "0x5000" and str = "''hello''"] h by simp
  ultimately show ?thesis using new by blast
qed

end
