(* ===== verification/Coro.thy ===== *)
theory Coro
  imports C_Prelude
begin

text \<open>
  The stackful coroutines of \<open>lib/coro.c\<close> on x86-64. The machine has the registers
  \<open>swap_context\<close> uses, an instruction pointer, and a memory of 8-byte cells: it maps the
  address of a mapped cell to its contents, and an access to an unmapped or unaligned cell
  is \<^term>\<open>None\<close>. \<open>swap_context\<close> is its instruction list, run by a small interpreter; a
  \<open>coroutine\<close> is its layout in memory. A C function that calls \<open>swap_context\<close> pushes the
  address \<open>ret\<close> at which it goes on. The address of \<open>entry_point\<close>, the result of
  \<open>posix_memalign\<close> and the function a coroutine runs are parameters.
\<close>

section \<open>Model\<close>

subsection \<open>The machine\<close>

datatype gpr = REG_RBX | REG_RBP | REG_R12 | REG_R13 | REG_R14 | REG_R15 | REG_RDI | REG_RSI
  | REG_RDX | REG_RCX | REG_R8 | REG_R9 | REG_R10 | REG_RSP

record machine =
  regs :: "gpr \<Rightarrow> u64"
  rip :: u64
  mem :: "u64 \<rightharpoonup> u64"

definition load :: "machine \<Rightarrow> u64 \<Rightarrow> u64 option" where
  "load m a = (if take_bit 3 a = 0 then mem m a else None)"

definition store :: "u64 \<Rightarrow> u64 \<Rightarrow> machine \<Rightarrow> machine option" where
  "store a v m = (if take_bit 3 a = 0 \<and> mem m a \<noteq> None then Some (m\<lparr>mem := (mem m)(a \<mapsto> v)\<rparr>) else None)"

definition set_reg :: "gpr \<Rightarrow> u64 \<Rightarrow> machine \<Rightarrow> machine" where
  "set_reg r v m = m\<lparr>regs := (regs m)(r := v)\<rparr>"

text \<open>
  \<open>movq %r, d(%b)\<close>, \<open>movq d(%b), %r\<close>, \<open>leaq d(%b), %r\<close> and \<open>jmpq *%r\<close>.
\<close>

datatype instr = Store gpr u64 gpr | Load u64 gpr gpr | Lea u64 gpr gpr | Jmp gpr

fun exec :: "instr \<Rightarrow> machine \<Rightarrow> machine option" where
  "exec (Store r d b) m = store (regs m b + d) (regs m r) m"
| "exec (Load d b r) m = do { v \<leftarrow> load m (regs m b + d); Some (set_reg r v m) }"
| "exec (Lea d b r) m = Some (set_reg r (regs m b + d) m)"
| "exec (Jmp r) m = Some (m\<lparr>rip := regs m r\<rparr>)"

fun run :: "instr list \<Rightarrow> machine \<Rightarrow> machine option" where
  "run [] m = Some m"
| "run (i # is) m = do { m \<leftarrow> exec i m; run is m }"

subsection \<open>swap\_context\<close>

definition save_code :: "instr list" where
  "save_code = [
     Store REG_RBX 0 REG_RDI,
     Store REG_RBP 8 REG_RDI,
     Store REG_R12 16 REG_RDI,
     Store REG_R13 24 REG_RDI,
     Store REG_R14 32 REG_RDI,
     Store REG_R15 40 REG_RDI,
     Store REG_RDI 48 REG_RDI,
     Store REG_RSI 56 REG_RDI,
     Store REG_RDX 64 REG_RDI,
     Store REG_RCX 72 REG_RDI,
     Store REG_R8 80 REG_RDI,
     Store REG_R9 88 REG_RDI,
     Load 0 REG_RSP REG_RCX,
     Store REG_RCX 96 REG_RDI,
     Lea 8 REG_RSP REG_RCX,
     Store REG_RCX 104 REG_RDI]"

definition restore_code :: "instr list" where
  "restore_code = [
     Load 104 REG_RSI REG_RSP,
     Load 0 REG_RSI REG_RBX,
     Load 8 REG_RSI REG_RBP,
     Load 16 REG_RSI REG_R12,
     Load 24 REG_RSI REG_R13,
     Load 32 REG_RSI REG_R14,
     Load 40 REG_RSI REG_R15,
     Load 48 REG_RSI REG_RDI,
     Load 64 REG_RSI REG_RDX,
     Load 72 REG_RSI REG_RCX,
     Load 80 REG_RSI REG_R8,
     Load 88 REG_RSI REG_R9,
     Load 96 REG_RSI REG_R10,
     Load 56 REG_RSI REG_RSI,
     Jmp REG_R10]"

definition swap_context :: "machine \<Rightarrow> machine option" where
  "swap_context m = run (save_code @ restore_code) m"

text \<open>A call \<open>swap_context(a, b)\<close> that is to return to \<open>ret\<close>.\<close>

definition call_swap :: "u64 \<Rightarrow> u64 \<Rightarrow> u64 \<Rightarrow> machine \<Rightarrow> machine option" where
  "call_swap a b ret m =
     do {
       m \<leftarrow> store (regs m REG_RSP - 8) ret (set_reg REG_RSP (regs m REG_RSP - 8) m);
       swap_context (set_reg REG_RSI b (set_reg REG_RDI a m))
     }"

subsection \<open>The coroutine object\<close>

datatype co_status = CO_STATUS_CREATED | CO_STATUS_STARTED | CO_STATUS_STOPPED

text \<open>Offsets of the members of \<open>coroutine\<close>; \<open>status\<close> is the lower half of its cell.\<close>

definition STACK_SZ :: u64 where "STACK_SZ = 0x8000"
definition off_context :: u64 where "off_context = 0"
definition off_caller :: u64 where "off_caller = 112"
definition off_yielded :: u64 where "off_yielded = 224"
definition off_status :: u64 where "off_status = 232"
definition off_padding :: u64 where "off_padding = 240"
definition off_stack :: u64 where "off_stack = 248"
definition sizeof_coroutine :: nat where "sizeof_coroutine = 248 + 0x8000"

lemmas offsets = STACK_SZ_def off_context_def off_caller_def off_yielded_def off_status_def off_padding_def off_stack_def

fun status_code :: "co_status \<Rightarrow> u32" where
  "status_code CO_STATUS_CREATED = 0"
| "status_code CO_STATUS_STARTED = 1"
| "status_code CO_STATUS_STOPPED = 2"

definition set_status :: "u64 \<Rightarrow> co_status \<Rightarrow> machine \<Rightarrow> machine option" where
  "set_status co st m =
     do {
       c \<leftarrow> load m (co + off_status);
       store (co + off_status) (push_bit 32 (drop_bit 32 c) OR ucast (status_code st)) m
     }"

definition get_status :: "u64 \<Rightarrow> machine \<Rightarrow> u32 option" where
  "get_status co m = map_option ucast (load m (co + off_status))"

definition in_coroutine :: "u64 \<Rightarrow> u64 \<Rightarrow> bool" where
  "in_coroutine co a \<longleftrightarrow> unat (a - co) < sizeof_coroutine \<and> take_bit 3 (a - co) = 0"

text \<open>\<open>memset(co, 0, sizeof(coroutine))\<close> on fresh memory: all its cells are mapped and zero.\<close>

definition zero_cells :: "u64 \<Rightarrow> (u64 \<rightharpoonup> u64) \<Rightarrow> u64 \<rightharpoonup> u64" where
  "zero_cells co mm = (\<lambda>a. if in_coroutine co a then Some 0 else mm a)"

text \<open>
  \<open>p\<close> is the address \<open>posix_memalign\<close> returns, \<^term>\<open>None\<close> if it fails. The result is the
  coroutine, 0 for NULL.
\<close>

definition co_new :: "u64 option \<Rightarrow> u64 \<Rightarrow> u64 \<Rightarrow> u64 \<Rightarrow> machine \<Rightarrow> (u64 \<times> machine) option" where
  "co_new p entry func data m =
     (case p of None \<Rightarrow> Some (0, m)
      | Some co \<Rightarrow>
        let m = m\<lparr>mem := zero_cells co (mem m)\<rparr>;
            rsp = co + off_stack + STACK_SZ
        in do {
          m \<leftarrow> set_status co CO_STATUS_CREATED m;
          m \<leftarrow> store (co + off_context + 8 * 6) co m;
          m \<leftarrow> store (co + off_context + 8 * 7) func m;
          m \<leftarrow> store (co + off_context + 8 * 8) data m;
          m \<leftarrow> store (co + off_context + 8 * 12) entry m;
          m \<leftarrow> store (co + off_context + 8 * 13) ((rsp AND NOT 0xF) - 8) m;
          Some (co, m)
        })"

definition co_free :: "u64 \<Rightarrow> machine \<Rightarrow> machine" where
  "co_free co m = m\<lparr>mem := (\<lambda>a. if in_coroutine co a then None else mem m a)\<rparr>"

subsection \<open>Yield and resume\<close>

datatype co_outcome = Process_exit int | Switched machine

text \<open>\<open>if (co->padding) exit(-1)\<close> before the rest of a function.\<close>

definition check_padding :: "u64 \<Rightarrow> machine \<Rightarrow> (machine \<Rightarrow> machine option) \<Rightarrow> co_outcome option" where
  "check_padding co m f =
     do {
       pad \<leftarrow> load m (co + off_padding);
       if pad \<noteq> 0 then Some (Process_exit (- 1)) else map_option Switched (f m)
     }"

definition co_yield :: "u64 \<Rightarrow> u64 \<Rightarrow> u64 \<Rightarrow> machine \<Rightarrow> co_outcome option" where
  "co_yield co val ret m = check_padding co m (\<lambda>m.
     do {
       m \<leftarrow> store (co + off_yielded) val m;
       call_swap (co + off_context) (co + off_caller) ret m
     })"

definition co_resume :: "u64 \<Rightarrow> u64 \<Rightarrow> machine \<Rightarrow> co_outcome option" where
  "co_resume co ret m = check_padding co m (call_swap (co + off_caller) (co + off_context) ret)"

definition co_resume_value :: "u64 \<Rightarrow> u64 \<Rightarrow> u64 \<Rightarrow> machine \<Rightarrow> co_outcome option" where
  "co_resume_value co val ret m = check_padding co m (\<lambda>m.
     do {
       m \<leftarrow> store (co + off_yielded) val m;
       call_swap (co + off_caller) (co + off_context) ret m
     })"

text \<open>What \<open>co_resume\<close> and \<open>co_resume_value\<close> return once control is back at \<open>ret\<close>.\<close>

definition resume_result :: "u64 \<Rightarrow> machine \<Rightarrow> u64 option" where
  "resume_result co m = load m (co + off_yielded)"

text \<open>
  \<open>entry_point\<close>, with what \<open>func\<close> does between its call and its return as a parameter.
\<close>

definition entry_point ::
  "(u64 \<Rightarrow> u64 \<Rightarrow> machine \<Rightarrow> machine option) \<Rightarrow> u64 \<Rightarrow> u64 \<Rightarrow> u64 \<Rightarrow> machine \<Rightarrow> co_outcome option"
where
  "entry_point func co data ret m =
     do {
       m \<leftarrow> set_status co CO_STATUS_STARTED m;
       m \<leftarrow> func co data m;
       m \<leftarrow> set_status co CO_STATUS_STOPPED m;
       co_yield co (- 1) ret m
     }"

section \<open>Saved contexts\<close>

abbreviation aligned :: "u64 \<Rightarrow> bool" where
  "aligned a \<equiv> take_bit 3 a = 0"

lemma low_bits_unat: "take_bit k (a :: u64) = 0 \<longleftrightarrow> 2 ^ k dvd unat a"
proof -
  have "take_bit k a = 0 \<longleftrightarrow> take_bit k (unat a) = 0"
    by (metis unsigned_take_bit_eq unat_0 unat_eq_zero)
  then show ?thesis by (simp add: take_bit_eq_mod dvd_eq_mod_eq_0)
qed

lemma aligned_unat: "aligned a \<longleftrightarrow> 8 dvd unat a"
  by (simp add: low_bits_unat)

lemma aligned_add: "aligned a \<Longrightarrow> aligned d \<Longrightarrow> aligned (a + d)"
  by (simp add: aligned_unat unat_word_ariths dvd_mod)

text \<open>
  The cells of the context at \<open>a\<close>, the contents a context has, and the memory after they
  are written.
\<close>

definition slots :: "u64 \<Rightarrow> u64 set" where
  "slots a = (\<lambda>i. a + 8 * of_nat i) ` {..<14}"

definition has_context :: "(u64 \<rightharpoonup> u64) \<Rightarrow> u64 \<Rightarrow> u64 list \<Rightarrow> bool" where
  "has_context mm a vs \<longleftrightarrow> length vs = 14 \<and> (\<forall>i<14. mm (a + 8 * of_nat i) = Some (vs ! i))"

fun put_context :: "u64 \<Rightarrow> u64 list \<Rightarrow> (u64 \<rightharpoonup> u64) \<Rightarrow> u64 \<rightharpoonup> u64" where
  "put_context a [] mm = mm"
| "put_context a (v # vs) mm = put_context (a + 8) vs (mm(a \<mapsto> v))"

lemma put_context_other:
  "(\<And>i. i < length vs \<Longrightarrow> b \<noteq> a + 8 * of_nat i) \<Longrightarrow> put_context a vs mm b = mm b"
proof (induction vs arbitrary: a mm)
  case (Cons v vs)
  have "b \<noteq> a" using Cons.prems [of 0] by simp
  moreover have "b \<noteq> a + 8 + 8 * of_nat i" if "i < length vs" for i
    using Cons.prems [of "Suc i"] that by (simp add: algebra_simps)
  ultimately show ?case using Cons.IH by simp
qed simp

lemma slot_inj:
  assumes "i < 2 ^ 60" and "j < 2 ^ 60"
  shows "(8 * of_nat i :: u64) = 8 * of_nat j \<longleftrightarrow> i = j"
proof -
  have "(8 * of_nat i :: u64) = 8 * of_nat j \<longleftrightarrow> (of_nat (8 * i) :: u64) = of_nat (8 * j)" by simp
  also have "\<dots> \<longleftrightarrow> 8 * i = 8 * j"
    using assms by (simp add: word_of_nat_eq_iff take_bit_nat_eq_self del: of_nat_mult of_nat_numeral)
  finally show ?thesis by simp
qed

lemma put_context_here:
  "i < length vs \<Longrightarrow> length vs < 2 ^ 60 \<Longrightarrow> put_context a vs mm (a + 8 * of_nat i) = Some (vs ! i)"
proof (induction vs arbitrary: a mm i)
  case (Cons v vs)
  show ?case
  proof (cases i)
    case 0
    have "a \<noteq> a + 8 + 8 * of_nat j" if "j < length vs" for j
      using slot_inj [of 0 "Suc j"] that Cons.prems(2) by (auto simp: algebra_simps)
    then show ?thesis using 0 put_context_other [of vs a "a + 8"] by simp
  next
    case (Suc j)
    with Cons.IH [of j "a + 8"] Cons.prems show ?thesis by (simp add: algebra_simps)
  qed
qed simp

lemma has_context_put: "length vs = 14 \<Longrightarrow> has_context (put_context a vs mm) a vs"
  by (simp add: has_context_def put_context_here)

lemma has_context_same:
  "(\<And>b. b \<in> slots a \<Longrightarrow> mm' b = mm b) \<Longrightarrow> has_context mm' a vs = has_context mm a vs"
  by (auto simp: has_context_def slots_def)

lemma put_context_slots: "length vs = 14 \<Longrightarrow> b \<notin> slots a \<Longrightarrow> put_context a vs mm b = mm b"
  by (rule put_context_other) (auto simp: slots_def)

lemma slots_cells: "slots a = {a, a + 8, a + 16, a + 24, a + 32, a + 40, a + 48, a + 56, a + 64, a + 72,
    a + 80, a + 88, a + 96, a + 104}"
  by (simp add: slots_def lessThan_nat_numeral lessThan_Suc insert_commute)

lemma All_less_14: "(\<forall>i<14. P i) \<longleftrightarrow> P (0::nat) \<and> P 1 \<and> P 2 \<and> P 3 \<and> P 4 \<and> P 5 \<and> P 6 \<and> P 7 \<and> P 8
    \<and> P 9 \<and> P 10 \<and> P 11 \<and> P 12 \<and> P 13"
  by (simp add: numeral_eq_Suc All_less_Suc) blast

lemma has_context_cells:
  "has_context mm a [v0, v1, v2, v3, v4, v5, v6, v7, v8, v9, v10, v11, v12, v13] \<longleftrightarrow>
     mm a = Some v0 \<and> mm (a + 8) = Some v1 \<and> mm (a + 16) = Some v2 \<and> mm (a + 24) = Some v3
     \<and> mm (a + 32) = Some v4 \<and> mm (a + 40) = Some v5 \<and> mm (a + 48) = Some v6 \<and> mm (a + 56) = Some v7
     \<and> mm (a + 64) = Some v8 \<and> mm (a + 72) = Some v9 \<and> mm (a + 80) = Some v10 \<and> mm (a + 88) = Some v11
     \<and> mm (a + 96) = Some v12 \<and> mm (a + 104) = Some v13"
  by (simp add: has_context_def All_less_14)

lemma put_context_cells:
  "put_context a [v0, v1, v2, v3, v4, v5, v6, v7, v8, v9, v10, v11, v12, v13] mm =
     mm(a \<mapsto> v0, a + 8 \<mapsto> v1, a + 16 \<mapsto> v2, a + 24 \<mapsto> v3, a + 32 \<mapsto> v4, a + 40 \<mapsto> v5, a + 48 \<mapsto> v6,
        a + 56 \<mapsto> v7, a + 64 \<mapsto> v8, a + 72 \<mapsto> v9, a + 80 \<mapsto> v10, a + 88 \<mapsto> v11, a + 96 \<mapsto> v12, a + 104 \<mapsto> v13)"
  by (simp add: add.commute)

text \<open>What \<open>swap_context\<close> saves of a machine with the return address \<open>ra\<close>.\<close>

definition saved :: "machine \<Rightarrow> u64 \<Rightarrow> u64 list" where
  "saved m ra = map (regs m) [REG_RBX, REG_RBP, REG_R12, REG_R13, REG_R14, REG_R15, REG_RDI, REG_RSI,
     REG_RDX, REG_RCX, REG_R8, REG_R9] @ [ra, regs m REG_RSP + 8]"

definition restored :: "u64 list \<Rightarrow> machine \<Rightarrow> machine" where
  "restored vs m = m\<lparr>rip := vs ! 12, regs := (\<lambda>r. case r of
      REG_RBX \<Rightarrow> vs ! 0 | REG_RBP \<Rightarrow> vs ! 1 | REG_R12 \<Rightarrow> vs ! 2 | REG_R13 \<Rightarrow> vs ! 3 | REG_R14 \<Rightarrow> vs ! 4
    | REG_R15 \<Rightarrow> vs ! 5 | REG_RDI \<Rightarrow> vs ! 6 | REG_RSI \<Rightarrow> vs ! 7 | REG_RDX \<Rightarrow> vs ! 8 | REG_RCX \<Rightarrow> vs ! 9
    | REG_R8 \<Rightarrow> vs ! 10 | REG_R9 \<Rightarrow> vs ! 11 | REG_R10 \<Rightarrow> vs ! 12 | REG_RSP \<Rightarrow> vs ! 13)\<rparr>"

lemma run_append: "run (xs @ ys) m = run xs m \<bind> run ys"
  by (induction xs arbitrary: m) (simp_all cong: Option.bind_cong)

lemma run_save:
  assumes "regs m REG_RDI = a" and "aligned a" and "slots a \<subseteq> dom (mem m)"
    and "load m (regs m REG_RSP) = Some ra" and "regs m REG_RSP \<notin> slots a"
  shows "run save_code m = Some (m\<lparr>regs := (regs m)(REG_RCX := regs m REG_RSP + 8),
     mem := put_context a (saved m ra) (mem m)\<rparr>)"
proof -
  have al: "aligned (a + d)" if "aligned d" for d using assms(2) that by (rule aligned_add)
  from assms(3) have mapped: "b \<in> slots a \<Longrightarrow> \<exists>v. mem m b = Some v" for b by blast
  from assms(4) have "aligned (regs m REG_RSP)" and "mem m (regs m REG_RSP) = Some ra"
    by (auto simp: load_def split: if_splits)
  with assms(1,2,5) al mapped [unfolded slots_cells, simplified] show ?thesis
    by (simp add: save_code_def store_def saved_def set_reg_def load_def slots_cells put_context_cells
        del: put_context.simps)
qed


lemma run_restore:
  assumes "regs m REG_RSI = b" and "aligned b" and "has_context (mem m) b vs"
  shows "run restore_code m = Some (restored vs m)"
proof -
  obtain v0 v1 v2 v3 v4 v5 v6 v7 v8 v9 v10 v11 v12 v13
    where vs: "vs = [v0, v1, v2, v3, v4, v5, v6, v7, v8, v9, v10, v11, v12, v13]"
    using assms(3) by (auto simp: has_context_def length_Suc_conv numeral_eq_Suc)
  have al: "aligned (b + d)" if "aligned d" for d using assms(2) that by (rule aligned_add)
  have "(regs m)(REG_RSP := v13, REG_RBX := v0, REG_RBP := v1, REG_R12 := v2,
      REG_R13 := v3, REG_R14 := v4, REG_R15 := v5, REG_RDI := v6, REG_RDX := v8, REG_RCX := v9, REG_R8 := v10,
      REG_R9 := v11, REG_R10 := v12, REG_RSI := v7) = regs (restored vs m)"
    by (rule ext) (simp add: restored_def vs split: gpr.split)
  then have "m\<lparr>regs := (regs m)(REG_RSP := v13, REG_RBX := v0, REG_RBP := v1, REG_R12 := v2,
      REG_R13 := v3, REG_R14 := v4, REG_R15 := v5, REG_RDI := v6, REG_RDX := v8, REG_RCX := v9, REG_R8 := v10,
      REG_R9 := v11, REG_R10 := v12, REG_RSI := v7), rip := v12\<rparr> = restored vs m"
    by (simp add: restored_def vs)
  then show ?thesis using assms al unfolding vs has_context_cells
    by (simp add: restore_code_def set_reg_def load_def)
qed

section \<open>Calls of swap\_context\<close>

text \<open>
  \<open>switchable m a b\<close>: \<open>swap_context(a, b)\<close> can be called in \<open>m\<close>: the contexts are mapped and
  disjoint, and the return address is pushed outside them.
\<close>

definition switchable :: "machine \<Rightarrow> u64 \<Rightarrow> u64 \<Rightarrow> bool" where
  "switchable m a b \<longleftrightarrow> aligned a \<and> aligned b \<and> slots a \<union> slots b \<subseteq> dom (mem m) \<and> slots a \<inter> slots b = {}
     \<and> aligned (regs m REG_RSP - 8) \<and> regs m REG_RSP - 8 \<in> dom (mem m) - slots a - slots b"

text \<open>The context a call saves.\<close>

definition call_frame :: "machine \<Rightarrow> u64 \<Rightarrow> u64 \<Rightarrow> u64 \<Rightarrow> u64 list" where
  "call_frame m a b ret = map (regs m) [REG_RBX, REG_RBP, REG_R12, REG_R13, REG_R14, REG_R15] @ [a, b]
     @ map (regs m) [REG_RDX, REG_RCX, REG_R8, REG_R9] @ [ret, regs m REG_RSP]"

lemma length_call_frame [simp]: "length (call_frame m a b ret) = 14"
  by (simp add: call_frame_def)

lemma restored_regs [simp]: "restored vs (m\<lparr>regs := f, mem := g\<rparr>) = restored vs (m\<lparr>mem := g\<rparr>)"
  by (simp add: restored_def)

lemma mem_restored [simp]: "mem (restored vs m) = mem m"
  by (simp add: restored_def)

lemma call_swap_exec:
  assumes sw: "switchable m a b" and ctx: "has_context (mem m) b vs"
  shows "call_swap a b ret m = Some (restored vs
     (m\<lparr>mem := put_context a (call_frame m a b ret) ((mem m)(regs m REG_RSP - 8 \<mapsto> ret))\<rparr>))"
proof -
  let ?rsp = "regs m REG_RSP - 8"
  let ?m = "m\<lparr>mem := (mem m)(?rsp \<mapsto> ret), regs := (regs m)(REG_RSP := ?rsp, REG_RDI := a, REG_RSI := b)\<rparr>"
  have al: "aligned a" "aligned b" "aligned ?rsp" and rsp: "?rsp \<notin> slots a" "?rsp \<notin> slots b" "mem m ?rsp \<noteq> None"
    and dom: "slots a \<subseteq> dom (mem ?m)" and dis: "slots a \<inter> slots b = {}"
    using sw by (auto simp: switchable_def)
  have "run save_code ?m = Some (?m\<lparr>regs := (regs ?m)(REG_RCX := regs ?m REG_RSP + 8),
      mem := put_context a (saved ?m ret) (mem ?m)\<rparr>)"
    using al dom rsp by (intro run_save) (simp_all add: load_def)
  moreover have "saved ?m ret = call_frame m a b ret" by (simp add: saved_def call_frame_def)
  moreover have "has_context (put_context a (call_frame m a b ret) (mem ?m)) b vs"
  proof -
    have "put_context a (call_frame m a b ret) (mem ?m) c = mem m c" if "c \<in> slots b" for c
    proof -
      have "c \<notin> slots a" "c \<noteq> ?rsp" using that dis rsp by auto
      then show ?thesis by (simp add: put_context_slots)
    qed
    then show ?thesis using ctx by (subst has_context_same) simp_all
  qed
  ultimately show ?thesis using al rsp
    by (simp add: call_swap_def swap_context_def run_append store_def set_reg_def run_restore)
qed

lemma context_of_dom:
  assumes "slots b \<subseteq> dom mm"
  obtains vs where "has_context mm b vs"
proof -
  have "has_context mm b (map (\<lambda>i. the (mm (b + 8 * of_nat i))) [0..<14])"
    using assms by (auto simp: has_context_def slots_def dom_def)
  then show ?thesis by (rule that)
qed

text \<open>
  A call defines the machine it switches to; what it saves is found again by the call that
  switches back.
\<close>

lemma call_swap_saves:
  assumes "switchable m a b" and "call_swap a b ret m = Some m'"
  shows "has_context (mem m') a (call_frame m a b ret)" and "c \<notin> slots a \<Longrightarrow> c \<noteq> regs m REG_RSP - 8 \<Longrightarrow> mem m' c = mem m c"
proof -
  obtain vs where "has_context (mem m) b vs" using context_of_dom assms(1) by (auto simp: switchable_def)
  with call_swap_exec [OF assms(1) this] assms(2)
  have "mem m' = put_context a (call_frame m a b ret) ((mem m)(regs m REG_RSP - 8 \<mapsto> ret))" by auto
  then show "has_context (mem m') a (call_frame m a b ret)"
    and "c \<notin> slots a \<Longrightarrow> c \<noteq> regs m REG_RSP - 8 \<Longrightarrow> mem m' c = mem m c"
    by (simp_all add: has_context_put put_context_slots)
qed

definition callee_saved :: "gpr list" where
  "callee_saved = [REG_RBX, REG_RBP, REG_R12, REG_R13, REG_R14, REG_R15, REG_RSP]"

lemma restored_call_frame:
  "rip (restored (call_frame m a b ret) t) = ret"
  "r \<in> set callee_saved \<Longrightarrow> regs (restored (call_frame m a b ret) t) r = regs m r"
  by (auto simp: restored_def call_frame_def callee_saved_def)

section \<open>Coroutines\<close>

text \<open>
  \<open>co_ready co m\<close>: the object \<open>co\<close> is mapped, its \<open>padding\<close> is intact, and the stack of \<open>m\<close>
  is not in the part of \<open>co\<close> before \<open>co->stack\<close>.
\<close>

definition co_ready :: "u64 \<Rightarrow> machine \<Rightarrow> bool" where
  "co_ready co m \<longleftrightarrow> aligned co \<and> (\<forall>a. in_coroutine co a \<longrightarrow> mem m a \<noteq> None)
     \<and> mem m (co + off_padding) = Some 0 \<and> aligned (regs m REG_RSP - 8)
     \<and> mem m (regs m REG_RSP - 8) \<noteq> None \<and> 248 \<le> unat (regs m REG_RSP - 8 - co)"

lemma slot_offset:
  assumes "c \<in> slots (co + d)" and "unat d = 8 * k" and "k < 100"
  obtains i where "i < 14" and "c = co + d + 8 * of_nat i" and "unat (c - co) = 8 * (k + i)"
proof -
  from assms(1) obtain i where i: "i < 14" "c = co + d + 8 * of_nat i" by (auto simp: slots_def)
  have "d = of_nat (8 * k)" using assms(2) by (metis of_nat_unat ucast_id)
  with i have "c - co = of_nat (8 * (k + i))" by (simp add: distrib_left)
  moreover have "unat (of_nat (8 * (k + i)) :: u64) = 8 * (k + i)"
    using i(1) assms(3) by (subst unsigned_of_nat) (simp add: take_bit_nat_eq_self)
  ultimately have "unat (c - co) = 8 * (k + i)" by (simp only:)
  with i show ?thesis by (rule that)
qed

lemma contexts_apart:
  assumes "c \<in> slots (co + off_context)"
  shows "unat (c - co) < 112" and "aligned (c - co)"
  by (rule slot_offset [OF assms, of 0], simp_all add: offsets aligned_unat)+

lemma caller_apart:
  assumes "c \<in> slots (co + off_caller)"
  shows "112 \<le> unat (c - co)" and "unat (c - co) < 224" and "aligned (c - co)"
  by (rule slot_offset [OF assms, of 14], simp_all add: offsets aligned_unat)+

lemma co_ready_switchable:
  assumes "co_ready co m"
  shows "switchable m (co + off_context) (co + off_caller)" and "switchable m (co + off_caller) (co + off_context)"
proof -
  let ?a = "co + off_context" and ?b = "co + off_caller"
  note ca = contexts_apart [of _ co] and cb = caller_apart [of _ co]
  have al: "aligned ?a" "aligned ?b" using assms by (auto simp: co_ready_def offsets intro: aligned_add)
  have "in_coroutine co c" if "c \<in> slots ?a \<union> slots ?b" for c
    using that ca [of c] cb [of c] by (auto simp: in_coroutine_def sizeof_coroutine_def)
  then have "slots ?a \<union> slots ?b \<subseteq> dom (mem m)" using assms by (auto simp: co_ready_def)
  moreover have "slots ?a \<inter> slots ?b = {}" using ca(1) cb(1) by fastforce
  moreover have "regs m REG_RSP - 8 \<in> dom (mem m) - slots ?a - slots ?b"
    using assms ca(1) [of "regs m REG_RSP - 8"] cb(2) [of "regs m REG_RSP - 8"] by (auto simp: co_ready_def)
  ultimately show "switchable m ?a ?b" "switchable m ?b ?a"
    using al assms by (auto simp: switchable_def co_ready_def)
qed

lemma co_ready_stack:
  assumes "co_ready co m" and "unat d < 248"
  shows "regs m REG_RSP - 8 \<noteq> co + d"
proof
  assume "regs m REG_RSP - 8 = co + d"
  with assms show False by (simp add: co_ready_def)
qed

lemma co_ready_yielded:
  assumes "co_ready co m"
  shows "store (co + off_yielded) v m = Some (m\<lparr>mem := (mem m)(co + off_yielded \<mapsto> v)\<rparr>)"
    and "co_ready co (m\<lparr>mem := (mem m)(co + off_yielded \<mapsto> v)\<rparr>)"
    and "co + off_yielded \<notin> slots (co + off_context)" and "co + off_yielded \<notin> slots (co + off_caller)"
    and "regs m REG_RSP - 8 \<noteq> co + off_yielded"
proof -
  have "in_coroutine co (co + off_yielded)" by (simp add: in_coroutine_def sizeof_coroutine_def offsets)
  moreover have "aligned (co + off_yielded)"
    using assms by (auto simp: co_ready_def offsets intro: aligned_add)
  ultimately show "store (co + off_yielded) v m = Some (m\<lparr>mem := (mem m)(co + off_yielded \<mapsto> v)\<rparr>)"
    using assms by (simp add: co_ready_def store_def)
  show "co + off_yielded \<notin> slots (co + off_context)" "co + off_yielded \<notin> slots (co + off_caller)"
    using contexts_apart(1) [of "co + off_yielded" co] caller_apart(2) [of "co + off_yielded" co]
    by (auto simp: offsets)
  show "co_ready co (m\<lparr>mem := (mem m)(co + off_yielded \<mapsto> v)\<rparr>)"
    using assms by (auto simp: co_ready_def offsets)
  show "regs m REG_RSP - 8 \<noteq> co + off_yielded"
    using assms by (rule co_ready_stack) (simp add: offsets)
qed

lemma co_ready_padding: "co_ready co m \<Longrightarrow> check_padding co m f = map_option Switched (f m)"
  by (auto simp: check_padding_def co_ready_def load_def offsets intro: aligned_add)

text \<open>
  A call that saves to \<open>a\<close>, and a later one that switches back to \<open>a\<close>: the first returns as a
  function call does.
\<close>

lemma swap_back:
  assumes "switchable m a b" and "call_swap a b ret m = Some m1"
    and "switchable t c a" and "\<forall>x\<in>slots a. mem t x = mem m1 x"
  shows "\<exists>m2. call_swap c a ret' t = Some m2 \<and> rip m2 = ret \<and> (\<forall>r\<in>set callee_saved. regs m2 r = regs m r)
     \<and> (\<forall>x. x \<notin> slots c \<and> x \<noteq> regs t REG_RSP - 8 \<longrightarrow> mem m2 x = mem t x)"
proof -
  have "has_context (mem t) a (call_frame m a b ret)"
    using call_swap_saves(1) [OF assms(1,2)] assms(4) by (subst has_context_same) simp_all
  from call_swap_exec [OF assms(3) this, of ret'] show ?thesis
    by (auto simp: restored_call_frame put_context_slots)
qed

lemma co_resume_value_exec:
  assumes "co_ready co m"
  shows "co_resume_value co w ret m = map_option Switched
     (call_swap (co + off_caller) (co + off_context) ret (m\<lparr>mem := (mem m)(co + off_yielded \<mapsto> w)\<rparr>))"
  using co_ready_padding [OF assms] co_ready_yielded(1) [OF assms] by (simp add: co_resume_value_def)

lemma co_yield_exec:
  assumes "co_ready co m"
  shows "co_yield co v ret m = map_option Switched
     (call_swap (co + off_context) (co + off_caller) ret (m\<lparr>mem := (mem m)(co + off_yielded \<mapsto> v)\<rparr>))"
  using co_ready_padding [OF assms] co_ready_yielded(1) [OF assms] by (simp add: co_yield_def)

lemma load_yielded:
  "co_ready co m \<Longrightarrow> load m' (co + off_yielded) = mem m' (co + off_yielded)"
  by (auto simp: co_ready_def load_def offsets intro: aligned_add)

text \<open>Switching back from \<open>u\<close>, with the value \<open>w\<close> stored in \<open>yielded\<close> first.\<close>

lemma swap_back_value:
  assumes sw: "switchable m a b" "call_swap a b ret m = Some m1"
    and t: "co_ready co t" and dirs: "(c, a) = (co + off_caller, co + off_context) \<or> (c, a) = (co + off_context, co + off_caller)"
    and keep: "\<forall>x\<in>slots a. mem t x = mem m1 x"
  shows "\<exists>m2. call_swap c a ret' (t\<lparr>mem := (mem t)(co + off_yielded \<mapsto> w)\<rparr>) = Some m2 \<and> rip m2 = ret
     \<and> (\<forall>r\<in>set callee_saved. regs m2 r = regs m r) \<and> load m2 (co + off_yielded) = Some w
     \<and> (\<forall>x. x \<notin> slots c \<and> x \<noteq> regs t REG_RSP - 8 \<and> x \<noteq> co + off_yielded \<longrightarrow> mem m2 x = mem t x)"
proof -
  let ?t = "t\<lparr>mem := (mem t)(co + off_yielded \<mapsto> w)\<rparr>"
  note y = co_ready_yielded [OF t]
  have ca: "switchable ?t c a" using dirs co_ready_switchable [OF y(2)] by auto
  have ya: "co + off_yielded \<notin> slots a" "co + off_yielded \<notin> slots c" using dirs y(3,4) by auto
  then have "\<forall>x\<in>slots a. mem ?t x = mem m1 x" using keep by auto
  from swap_back [OF sw ca this] obtain m2
    where m2: "call_swap c a ret' ?t = Some m2" "rip m2 = ret" "\<forall>r\<in>set callee_saved. regs m2 r = regs m r"
      "\<forall>x. x \<notin> slots c \<and> x \<noteq> regs ?t REG_RSP - 8 \<longrightarrow> mem m2 x = mem ?t x" by blast
  then have "mem m2 (co + off_yielded) = Some w" using ya(2) y(5) by simp
  with m2 show ?thesis using load_yielded [OF t] by auto
qed

text \<open>The stack pointer \<open>co_new\<close> computes, and the context it stores.\<close>

lemma initial_rsp:
  assumes "take_bit 6 co = 0"
  shows "((co + off_stack + STACK_SZ) AND NOT 0xF) - 8 = co + 33000" and "take_bit 4 (co + 33008) = 0"
proof -
  have "2 ^ 6 dvd unat co" using assms by (simp only: low_bits_unat)
  then have "2 ^ 4 dvd unat co" by (rule dvd_trans [rotated]) simp
  then show x: "take_bit 4 (co + 33008) = 0" by (simp add: low_bits_unat unat_word_ariths dvd_mod)
  have n: "n < 4 \<Longrightarrow> \<not> bit (co + 33008) n" for n using arg_cong [OF x, of "\<lambda>w. bit w n"] by (simp add: bit_take_bit_iff)
  have b8: "bit (8 :: u64) n \<longleftrightarrow> n = 3" for n
    using bit_exp_iff [of 3 n, where 'a = u64] by auto
  have "co + 33008 + 8 = (co + 33008) OR 8"
    by (rule disjunctive_add, unfold b8) (use n [of 3] in auto)
  moreover have "((co + 33008) OR 8) AND NOT (mask 4) = co + 33008"
  proof (rule bit_word_eqI)
    fix k
    assume "k < LENGTH(64)"
    with n [of k] show "bit (((co + 33008) OR 8) AND NOT (mask 4)) k = bit (co + 33008) k"
      by (simp only: bit_and_iff bit_or_iff bit_not_iff bit_mask_iff b8) auto
  qed
  ultimately have "(co + 33008 + 8) AND NOT (mask 4) = co + 33008" by (simp only:)
  then show "((co + off_stack + STACK_SZ) AND NOT 0xF) - 8 = co + 33000"
    by (simp add: offsets mask_eq_exp_minus_1 add.commute)
qed

lemma co_new_context:
  assumes "take_bit 6 co = 0"
  shows "\<exists>m1. co_new (Some co) entry func data m = Some (co, m1) \<and> get_status co m1 = Some 0
     \<and> (\<forall>a. in_coroutine co a \<longrightarrow> mem m1 a \<noteq> None) \<and> mem m1 (co + off_padding) = Some 0 \<and> regs m1 = regs m
     \<and> (\<forall>a. \<not> in_coroutine co a \<longrightarrow> mem m1 a = mem m a)
     \<and> has_context (mem m1) (co + off_context) [0, 0, 0, 0, 0, 0, co, func, data, 0, 0, 0, entry, co + 33000]"
proof -
  have "2 ^ 6 dvd unat co" using assms by (simp only: low_bits_unat)
  then have "2 ^ 3 dvd unat co" by (rule dvd_trans [rotated]) simp
  then have "aligned co" by (simp only: low_bits_unat)
  then have al: "aligned (co + d)" if "aligned d" for d using that by (rule aligned_add)
  have cell: "in_coroutine co (co + d) \<longleftrightarrow> unat d < sizeof_coroutine \<and> aligned d" for d
    by (simp add: in_coroutine_def)
  note rsp = initial_rsp(1) [OF assms, unfolded offsets]
  show ?thesis
    using al \<open>aligned co\<close> rsp cell cell [of 0]
    by (auto simp: co_new_def set_status_def get_status_def load_def store_def zero_cells_def offsets
        has_context_cells sizeof_coroutine_def)
qed

text \<open>Setting the status.\<close>

lemma ucast_status: "(ucast (push_bit 32 (drop_bit 32 c) OR ucast s :: u64) :: u32) = s"
  by (intro bit_word_eqI) (auto simp: bit_simps)

lemma co_ready_status:
  assumes "co_ready co t"
  obtains t' where "set_status co st t = Some t'" and "co_ready co t'" and "regs t' = regs t"
    and "\<And>c. c \<in> slots (co + off_context) \<union> slots (co + off_caller) \<Longrightarrow> mem t' c = mem t c"
    and "get_status co t' = Some (status_code st)"
proof -
  have al: "aligned (co + off_status)" using assms by (auto simp: co_ready_def offsets intro: aligned_add)
  have "in_coroutine co (co + off_status)" by (simp add: in_coroutine_def sizeof_coroutine_def offsets)
  then obtain c where c: "mem t (co + off_status) = Some c" using assms by (auto simp: co_ready_def)
  let ?v = "push_bit 32 (drop_bit 32 c) OR ucast (status_code st)"
  let ?t = "t\<lparr>mem := (mem t)(co + off_status \<mapsto> ?v)\<rparr>"
  have "set_status co st t = Some ?t" using al c by (simp add: set_status_def load_def store_def)
  moreover have "co_ready co ?t" using assms by (auto simp: co_ready_def offsets)
  moreover have "x \<noteq> co + off_status" if "x \<in> slots (co + off_context) \<union> slots (co + off_caller)" for x
    using that contexts_apart(1) [of x co] caller_apart(2) [of x co] by (auto simp: offsets)
  moreover have "get_status co ?t = Some (status_code st)"
    using al by (simp add: get_status_def load_def ucast_status)
  ultimately show ?thesis using that [of ?t] by simp
qed

text \<open>A machine on which all memory is mapped and zero, and coroutines at \<open>0x1000\<close>.\<close>

definition flat :: machine where
  "flat = \<lparr>regs = (\<lambda>r. 0)(REG_RSP := 0x100000, REG_RBX := 5), rip = 0, mem = (\<lambda>a. Some 0)\<rparr>"

lemma put_context_total: "(\<And>c. \<exists>y. mm c = Some y) \<Longrightarrow> \<exists>y. put_context a vs mm c = Some y"
  by (induction vs arbitrary: a mm) simp_all

lemma has_context_flat: "has_context (\<lambda>a. Some 0) b (replicate 14 0)"
  by (simp add: has_context_def)

lemma flat_ready: "co_ready 0x1000 flat"
  by (simp add: co_ready_def flat_def aligned_unat)

text \<open>After the first switch from \<open>flat\<close> the other side runs with all registers zero.\<close>

lemma flat_resumed:
  obtains m1 where "co_resume_value 0x1000 3 7 flat = Some (Switched m1)" and "co_ready 0x1000 m1"
proof -
  let ?m = "flat\<lparr>mem := (mem flat)(0x1000 + off_yielded \<mapsto> 3)\<rparr>"
  have ctx: "has_context (mem ?m) (0x1000 + off_context) (replicate 14 0)"
    using has_context_flat by (subst has_context_same [of _ _ "\<lambda>a. Some 0"])
      (use co_ready_yielded(3) [OF flat_ready] in \<open>auto simp: flat_def\<close>)
  have sw: "switchable ?m (0x1000 + off_caller) (0x1000 + off_context)"
    using co_ready_switchable(2) co_ready_yielded(2) flat_ready by blast
  note m1 = call_swap_exec [OF sw ctx, of 7]
  let ?m1 = "the (call_swap (0x1000 + off_caller) (0x1000 + off_context) 7 ?m)"
  have "mem ?m1 c \<noteq> None" for c using m1 by (simp add: put_context_total flat_def)
  moreover have "mem ?m1 (0x1000 + off_padding) = Some 0"
    using call_swap_saves(2) [OF sw m1, of "0x1000 + off_padding"] caller_apart(2) [of "0x1000 + off_padding" "0x1000"] m1
    by (auto simp: flat_def offsets)
  moreover have "regs ?m1 REG_RSP = 0" using m1 by (simp add: restored_def)
  ultimately have "co_ready 0x1000 ?m1" by (simp add: co_ready_def aligned_unat)
  moreover have "co_resume_value 0x1000 3 7 flat = Some (Switched ?m1)"
    using m1 by (simp add: co_resume_value_exec [OF flat_ready])
  ultimately show ?thesis by (rule that [rotated])
qed

section \<open>Properties\<close>

text \<open>
  C9. \<open>swap_context\<close> keeps the calling convention across a switch: if a call
  \<open>swap_context(a, b)\<close> has saved to \<open>a\<close>, then any later call \<open>swap_context(c, a)\<close>, from any
  machine state that has not written to \<open>a\<close>, is defined and goes on at the return address
  of the first call with its \<open>rbx\<close>, \<open>rbp\<close>, \<open>r12\<close> to \<open>r15\<close> and its stack pointer.
\<close>

theorem swap_context_roundtrip:
  assumes "switchable m a b" and "call_swap a b ret m = Some m1"
    and "switchable t c a" and "\<forall>x\<in>slots a. mem t x = mem m1 x"
  shows "\<exists>m2. call_swap c a ret' t = Some m2 \<and> rip m2 = ret
     \<and> (\<forall>r\<in>{REG_RBX, REG_RBP, REG_R12, REG_R13, REG_R14, REG_R15, REG_RSP}. regs m2 r = regs m r)"
  using swap_back [OF assms] by (auto simp: callee_saved_def)

theorem swap_context_roundtrip_witness:
  "\<exists>m1 m2. call_swap 0x1000 0x2000 7 flat = Some m1 \<and> call_swap 0x3000 0x1000 9 m1 = Some m2
     \<and> rip m2 = 7 \<and> regs m2 REG_RBX = 5 \<and> regs m2 REG_RSP = 0x100000"
proof -
  have sw: "switchable flat 0x1000 0x2000" by (simp add: switchable_def flat_def slots_cells aligned_unat)
  have "has_context (mem flat) 0x2000 (replicate 14 0)" using has_context_flat by (simp add: flat_def)
  from call_swap_exec [OF sw this] obtain m1 where m1: "call_swap 0x1000 0x2000 7 flat = Some m1"
    and "regs m1 REG_RSP = 0" "\<And>c. mem m1 c \<noteq> None"
    by (simp add: restored_def put_context_total flat_def)
  then have "switchable m1 0x3000 0x1000"
    by (auto simp: switchable_def slots_cells aligned_unat dom_def)
  from swap_context_roundtrip [OF sw m1 this, of 9] m1 show ?thesis by (auto simp: flat_def)
qed

text \<open>
  C12. A resume and the yield that follows it, and that yield and the next resume, pair up:
  after \<open>co_resume_value(co, w)\<close>, the coroutine's \<open>co_yield(co, v)\<close> returns to the resumer,
  with the resumer's registers and stack, and the resume returns \<open>v\<close>; and the next
  \<open>co_resume_value(co, w')\<close> returns to the coroutine right after the yield, with its
  registers and stack, and \<open>w'\<close> in \<open>yielded\<close>. In between, the code only has to leave the
  saved contexts and \<open>padding\<close> alone.
\<close>

theorem yield_returns_to_resume:
  assumes "co_ready co m" and "co_resume_value co w ret m = Some (Switched m1)"
    and "co_ready co t" and "\<forall>c\<in>slots (co + off_caller). mem t c = mem m1 c"
  shows "\<exists>m2. co_yield co v ret' t = Some (Switched m2) \<and> rip m2 = ret
     \<and> (\<forall>r\<in>set callee_saved. regs m2 r = regs m r) \<and> resume_result co m2 = Some v
     \<and> (\<forall>u w' ret''. co_ready co u \<and> (\<forall>c\<in>slots (co + off_context). mem u c = mem m2 c) \<longrightarrow>
          (\<exists>m3. co_resume_value co w' ret'' u = Some (Switched m3) \<and> rip m3 = ret'
             \<and> (\<forall>r\<in>set callee_saved. regs m3 r = regs t r) \<and> load m3 (co + off_yielded) = Some w'))"
proof -
  let ?m = "m\<lparr>mem := (mem m)(co + off_yielded \<mapsto> w)\<rparr>" and ?t = "t\<lparr>mem := (mem t)(co + off_yielded \<mapsto> v)\<rparr>"
  have sw: "switchable ?m (co + off_caller) (co + off_context)" "switchable ?t (co + off_context) (co + off_caller)"
    using co_ready_switchable co_ready_yielded(2) assms(1,3) by blast+
  have "call_swap (co + off_caller) (co + off_context) ret ?m = Some m1"
    using assms(2) by (simp add: co_resume_value_exec [OF assms(1)])
  from swap_back_value [OF sw(1) this assms(3) _ assms(4), of "co + off_context" ret' v] obtain m2
    where m2: "call_swap (co + off_context) (co + off_caller) ret' ?t = Some m2" "rip m2 = ret"
      "\<forall>r\<in>set callee_saved. regs m2 r = regs ?m r" "load m2 (co + off_yielded) = Some v" by auto
  have "\<exists>m3. co_resume_value co w' ret'' u = Some (Switched m3) \<and> rip m3 = ret'
       \<and> (\<forall>r\<in>set callee_saved. regs m3 r = regs t r) \<and> load m3 (co + off_yielded) = Some w'"
    if "co_ready co u" "\<forall>c\<in>slots (co + off_context). mem u c = mem m2 c" for u w' ret''
    using swap_back_value [OF sw(2) m2(1) that(1) _ that(2), of "co + off_caller" ret'' w']
    by (auto simp: co_resume_value_exec [OF that(1)])
  with m2 show ?thesis by (auto simp: co_yield_exec [OF assms(3)] resume_result_def)
qed

theorem yield_returns_to_resume_witness:
  "\<exists>m1 m2. co_resume_value 0x1000 3 7 flat = Some (Switched m1) \<and> co_yield 0x1000 42 8 m1 = Some (Switched m2)
     \<and> rip m2 = 7 \<and> regs m2 REG_RBX = 5 \<and> resume_result 0x1000 m2 = Some 42"
proof -
  obtain m1 where m1: "co_resume_value 0x1000 3 7 flat = Some (Switched m1)" "co_ready 0x1000 m1"
    by (rule flat_resumed)
  from yield_returns_to_resume [OF flat_ready m1, of 42 8] m1(1) show ?thesis
    by (auto simp: callee_saved_def flat_def)
qed

text \<open>
  C22. \<open>co_new\<close> on an object at a multiple of 64 is defined, changes nothing outside it, and
  prepares it so that the first \<open>co_resume\<close> enters \<open>entry_point\<close> with the arguments \<open>co\<close>,
  \<open>func\<close> and \<open>data\<close>, a stack pointer inside \<open>co->stack\<close> with room for the first push, and
  that pointer at 8 modulo 16 as at the entry of a called function.
\<close>

theorem co_new_enters:
  assumes "take_bit 6 co = 0"
  shows "\<exists>m1. co_new (Some co) entry func data m = Some (co, m1) \<and> get_status co m1 = Some 0
     \<and> (\<forall>a. \<not> in_coroutine co a \<longrightarrow> mem m1 a = mem m a)
     \<and> (\<forall>t ret. co_ready co t \<and> (\<forall>a\<in>slots (co + off_context). mem t a = mem m1 a) \<longrightarrow>
          (\<exists>m2. co_resume co ret t = Some (Switched m2) \<and> rip m2 = entry
             \<and> regs m2 REG_RDI = co \<and> regs m2 REG_RSI = func \<and> regs m2 REG_RDX = data
             \<and> take_bit 4 (regs m2 REG_RSP + 8) = 0
             \<and> 8 \<le> unat (regs m2 REG_RSP - (co + off_stack))
             \<and> unat (regs m2 REG_RSP - (co + off_stack)) + 8 \<le> unat STACK_SZ))"
proof -
  obtain m1 where m1: "co_new (Some co) entry func data m = Some (co, m1)" "get_status co m1 = Some 0"
      "\<forall>a. \<not> in_coroutine co a \<longrightarrow> mem m1 a = mem m a"
    and ctx: "has_context (mem m1) (co + off_context) [0, 0, 0, 0, 0, 0, co, func, data, 0, 0, 0, entry, co + 33000]"
    using co_new_context [OF assms] by blast
  have "co_resume co ret t = Some (Switched (restored [0, 0, 0, 0, 0, 0, co, func, data, 0, 0, 0, entry, co + 33000]
      (t\<lparr>mem := put_context (co + off_caller) (call_frame t (co + off_caller) (co + off_context) ret)
         ((mem t)(regs t REG_RSP - 8 \<mapsto> ret))\<rparr>)))"
    if "co_ready co t" "\<forall>a\<in>slots (co + off_context). mem t a = mem m1 a" for t ret
  proof -
    have "has_context (mem t) (co + off_context) [0, 0, 0, 0, 0, 0, co, func, data, 0, 0, 0, entry, co + 33000]"
      using ctx that(2) by (subst has_context_same) simp_all
    from call_swap_exec [OF co_ready_switchable(2) [OF that(1)] this] show ?thesis
      by (simp add: co_resume_def co_ready_padding [OF that(1)])
  qed
  moreover have "co + 33000 + 8 = co + 33008" "unat (co + 33000 - (co + off_stack)) = 32752" "unat STACK_SZ = 32768"
    by (simp_all add: offsets)
  ultimately show ?thesis using m1 initial_rsp(2) [OF assms, unfolded add.commute [of co]]
    by (simp add: restored_def)
qed

theorem co_new_enters_witness:
  "\<exists>m1 m2. co_new (Some 0x1000) 0x400 0x500 0x600 flat = Some (0x1000, m1)
     \<and> co_resume 0x1000 7 m1 = Some (Switched m2) \<and> rip m2 = 0x400 \<and> regs m2 REG_RSI = 0x500"
proof -
  have "take_bit 6 (0x1000 :: u64) = 0" by simp
  note ex = co_new_enters [OF this, of "0x400" "0x500" "0x600" flat] and ctx = co_new_context [OF this, of "0x400" "0x500" "0x600" flat]
  from ctx obtain m1 where m1: "co_new (Some 0x1000) 0x400 0x500 0x600 flat = Some (0x1000, m1)"
    "\<forall>a. in_coroutine 0x1000 a \<longrightarrow> mem m1 a \<noteq> None" "mem m1 (0x1000 + off_padding) = Some 0" "regs m1 = regs flat"
    "\<forall>a. \<not> in_coroutine 0x1000 a \<longrightarrow> mem m1 a = mem flat a" by blast
  then have "mem m1 a \<noteq> None" for a by (cases "in_coroutine 0x1000 a") (auto simp: flat_def)
  with m1(3,4) have "co_ready 0x1000 m1" by (simp add: co_ready_def flat_def aligned_unat)
  moreover from ex obtain n1 where "co_new (Some 0x1000) 0x400 0x500 0x600 flat = Some (0x1000, n1)"
    and "\<forall>t ret. co_ready 0x1000 t \<and> (\<forall>a\<in>slots (0x1000 + off_context). mem t a = mem n1 a) \<longrightarrow>
      (\<exists>m2. co_resume 0x1000 ret t = Some (Switched m2) \<and> rip m2 = 0x400 \<and> regs m2 REG_RSI = 0x500)"
    by blast
  ultimately show ?thesis using m1(1) by auto
qed

text \<open>
  When the function of a coroutine returns, \<open>entry_point\<close> marks the coroutine as
  stopped and hands \<open>-1\<close> to the resume it was last continued by.
\<close>

theorem finished_coroutine_reports:
  assumes "co_ready co m" and "co_resume_value co w ret m = Some (Switched m1)"
    and "set_status co CO_STATUS_STARTED s = Some s'" and "func co data s' = Some t"
    and "co_ready co t" and "\<forall>c\<in>slots (co + off_caller). mem t c = mem m1 c"
  shows "\<exists>m2. entry_point func co data ret' s = Some (Switched m2) \<and> rip m2 = ret
     \<and> (\<forall>r\<in>set callee_saved. regs m2 r = regs m r)
     \<and> resume_result co m2 = Some (- 1) \<and> get_status co m2 = Some (status_code CO_STATUS_STOPPED)"
proof -
  let ?m = "m\<lparr>mem := (mem m)(co + off_yielded \<mapsto> w)\<rparr>"
  obtain t' where t': "set_status co CO_STATUS_STOPPED t = Some t'" "co_ready co t'" "regs t' = regs t"
      "\<And>c. c \<in> slots (co + off_context) \<union> slots (co + off_caller) \<Longrightarrow> mem t' c = mem t c"
      "get_status co t' = Some (status_code CO_STATUS_STOPPED)"
    using co_ready_status [OF assms(5)] by blast
  have sw: "switchable ?m (co + off_caller) (co + off_context)"
    using co_ready_switchable(2) co_ready_yielded(2) assms(1) by blast
  have "call_swap (co + off_caller) (co + off_context) ret ?m = Some m1"
    using assms(2) by (simp add: co_resume_value_exec [OF assms(1)])
  moreover have "\<forall>c\<in>slots (co + off_caller). mem t' c = mem m1 c" using t'(4) assms(6) by simp
  ultimately obtain m2 where m2: "call_swap (co + off_context) (co + off_caller) ret'
        (t'\<lparr>mem := (mem t')(co + off_yielded \<mapsto> - 1)\<rparr>) = Some m2" "rip m2 = ret"
      "\<forall>r\<in>set callee_saved. regs m2 r = regs ?m r" "load m2 (co + off_yielded) = Some (- 1)"
      "\<forall>x. x \<notin> slots (co + off_context) \<and> x \<noteq> regs t' REG_RSP - 8 \<and> x \<noteq> co + off_yielded \<longrightarrow> mem m2 x = mem t' x"
    using swap_back_value [OF sw _ t'(2), where c = "co + off_context" and ret' = ret' and w = "- 1"] by blast
  have "regs t' REG_RSP - 8 \<noteq> co + off_status" using t'(2) by (rule co_ready_stack) (simp add: offsets)
  moreover have "co + off_status \<notin> slots (co + off_context)" "co + off_status \<noteq> co + off_yielded"
    using contexts_apart(1) [of "co + off_status" co] by (auto simp: offsets)
  ultimately have "mem m2 (co + off_status) = mem t' (co + off_status)" using m2(5) by metis
  then have "load m2 (co + off_status) = load t' (co + off_status)" by (simp add: load_def)
  then have "get_status co m2 = Some (status_code CO_STATUS_STOPPED)"
    using t'(5) by (simp only: get_status_def)
  with m2 show ?thesis using assms(3,4) t'(1)
    by (simp add: entry_point_def co_yield_exec [OF t'(2)] resume_result_def)
qed

theorem finished_coroutine_reports_witness:
  "\<exists>m1 m2. co_resume_value 0x1000 3 7 flat = Some (Switched m1)
     \<and> entry_point (\<lambda>co data m. Some m1) 0x1000 0 8 m1 = Some (Switched m2) \<and> rip m2 = 7
     \<and> resume_result 0x1000 m2 = Some (- 1) \<and> get_status 0x1000 m2 = Some 2"
proof -
  obtain m1 where m1: "co_resume_value 0x1000 3 7 flat = Some (Switched m1)" "co_ready 0x1000 m1"
    by (rule flat_resumed)
  obtain s' where "set_status 0x1000 CO_STATUS_STARTED m1 = Some s'" using co_ready_status [OF m1(2)] by blast
  from finished_coroutine_reports [OF flat_ready m1(1) this, of "\<lambda>co data m. Some m1" 0 m1 8] m1 show ?thesis
    by auto
qed

text \<open>
  A call made with the stack of a coroutine exhausted pushes its return address into
  \<open>padding\<close>; as long as \<open>padding\<close> keeps that nonzero value, every later yield or resume of
  the coroutine ends the process with status \<open>-1\<close> before it touches the contexts.
\<close>

theorem stack_overflow_exits:
  assumes "aligned co" and "regs m REG_RSP = co + off_stack" and "ra \<noteq> 0"
    and "store (regs m REG_RSP - 8) ra m = Some m1" and "mem t (co + off_padding) = mem m1 (co + off_padding)"
  shows "co_yield co v ret t = Some (Process_exit (- 1)) \<and> co_resume co ret t = Some (Process_exit (- 1))
     \<and> co_resume_value co v ret t = Some (Process_exit (- 1))"
proof -
  have "co + off_stack - 8 = co + off_padding" by (simp add: offsets)
  moreover have "aligned (co + off_padding)" using assms(1) by (intro aligned_add) (simp_all add: offsets)
  ultimately have "load t (co + off_padding) = Some ra"
    using assms by (auto simp: store_def load_def split: if_splits)
  with assms(3) show ?thesis
    by (simp add: co_yield_def co_resume_def co_resume_value_def check_padding_def)
qed

theorem stack_overflow_exits_witness:
  "\<exists>m1. store 0x10F0 9 (set_reg REG_RSP 0x10F8 flat) = Some m1 \<and> co_yield 0x1000 4 8 m1 = Some (Process_exit (- 1))"
proof -
  let ?m = "set_reg REG_RSP 0x10F8 flat"
  obtain m1 where m1: "store (regs ?m REG_RSP - 8) 9 ?m = Some m1"
    by (simp add: store_def set_reg_def flat_def aligned_unat)
  from stack_overflow_exits [OF _ _ _ m1, of "0x1000" m1 4 8] m1 show ?thesis
    by (simp add: set_reg_def offsets aligned_unat)
qed

end
