(* ===== verification/Spec2Isabelle.thy ===== *)
theory Spec2Isabelle
  imports Progress Boot Hashtable Coro Threads
begin

text \<open>
  A verification library for the io\_uring HTTP server of this repository.

  \<^bold>\<open>The program.\<close> \<open>create_server\<close> (\<open>lib/server.c\<close>) raises the limit on descriptors, allocates one
  \<open>struct server_connection\<close> per descriptor and opens the listening socket
  (\<open>lib/socket.c\<close>). \<open>io_uring_listen_loop\<close> (\<open>lib/io_loop.c\<close>) keeps one accept outstanding and
  hands every other completion to the coroutine of its connection (\<open>lib/coro.c\<close>), which runs
  \<open>io_uring_co_http_handler\<close>: it parses the received bytes in place
  (\<open>lib/http_parser.c\<close>, with the tables of \<open>lib/kv.c\<close>), looks the route up
  (\<open>lib/router.c\<close>), calls the handler, composes the response in a growing string
  (\<open>lib/strbuf.c\<close>), queues it (\<open>lib/iouring_utils.c\<close>) and yields. System calls are made by the
  macros of \<open>include/arch/x86/syscall.h\<close>. A hash table (\<open>lib/hashtable.c\<close>) with
  MurmurHash3 (\<open>lib/murmurhash3.c\<close>) belongs to the library as well. There are two builds:
  with \<open>WATCH_STATIC_FILES\<close> files are sent by splice, without it they are mapped; a Boolean
  \<open>watch\<close> or a field of the environment selects between them.

  \<^bold>\<open>Conventions.\<close> Words have their C width, \<open>int\<close> values are integers with the conversions
  written out (\<open>C_Prelude\<close>). Undefined behaviour, an access outside an object above all, is
  the value \<^term>\<open>None\<close>; a theorem that a function is \<^term>\<open>Some\<close> includes that it is defined
  and returns. The kernel, libmagic, liburing, \<open>mmap\<close>, the allocator, \<open>inet_aton\<close> and the
  application's handlers are parameters, with what is needed of them as named hypotheses
  (\<open>abi_kernel\<close>, \<open>fd_kernel\<close>, \<open>boot_kernel\<close>, \<open>fresh\<close>; \<open>room_for_two\<close> for a submission queue in which
  \<open>io_uring_get_sqe\<close> finds the entries it is asked for, which with \<open>QD\<close> entries holds up to
  \<open>QD - 2\<close> queued ones). Logging is left out.

  \<^bold>\<open>Theories.\<close>
  \<^item> \<open>C_Prelude\<close>, \<open>C_Strings\<close>: C integers, and strings in bounded blocks.
  \<^item> \<open>Strbuf\<close>: the growing string (\<open>string_init\<close>, \<open>string_append\<close>, \<open>string_reset\<close>,
    \<open>string_free\<close>); an append is exact while the total is below \<open>2 ^ 16\<close> and writes outside
    its block beyond.
  \<^item> \<open>Kv\<close>: key-value tables, owned or on a provided array; insertion and lookup on every
    branch.
  \<^item> \<open>Http_Request\<close>: the parser, its loops as terminating functions.
    \<open>Http_Request_Safety\<close>: on any bytes it stays inside the buffer and leaves a well-typed
    request. \<open>Http_Request_Roundtrip\<close>: parsing a printed request gives the request
    back; the inputs that are refused or cut.
  \<^item> \<open>Router\<close>: the lookup in the list of routes, and its equivalence with the walk through the
    linker section by addresses.
  \<^item> \<open>Syscalls\<close>: the macros and wrappers as register assignments for a kernel parameter.
  \<^item> \<open>Http_Response\<close>: the static file handler, whose jump to \<open>STORE_BUF\<close> finds its locals
    uninitialised, and \<open>http_compose_response\<close>, whose output is
    shown to be the text of the response.
  \<^item> \<open>Iouring\<close>, \<open>Conn_Handler\<close>: the submission helpers, and the coroutine function from one
    yield to the next with its locals as a record.
  \<^item> \<open>Transitions\<close>, \<open>Event_Loop\<close>: transition systems with the locales \<open>inductive_invariant\<close>,
    \<open>stable_property\<close> and \<open>simulation\<close>; the event loop as a step relation in which the kernel
    completes operations in any order, interpreted on the first two. Invariants of every reachable state: one
    accept outstanding, the steps of a connection count its outstanding operations, a closed
    connection is clean, a received buffer can be parsed; a failed recv loses its connection.
  \<^item> \<open>Lifecycle\<close>: the life of a descriptor as an abstract machine of five kinds of states, and
    the interpretation of \<open>simulation\<close> that makes the event loop refine it. \<open>Progress\<close>: a second
    invariant on what the coroutines keep, and that processing a completion is defined in
    every reachable state, with three exceptions: a submission queue without room, a received
    request (whose processing \<open>Serving\<close> and \<open>Session\<close> treat), and a connection that could not be
    prepared before.
  \<^item> \<open>Serving\<close>: parser, router, handler and response composed: one round answers a request
    with exactly the response text. \<open>Session\<close>: the three completions of a client's session
    composed, and any number of sessions on one descriptor. \<open>Sample_App\<close>: the handlers of
    \<open>tests/socket.c\<close> run through all of it. \<open>Boot\<close>: from \<open>main\<close> of that program through
    \<open>create_server\<close> to an initial state of the event loop, when no further thread is asked for.
  \<^item> \<open>Coro\<close>: \<open>swap_context\<close> instruction by instruction, \<open>co_new\<close>, \<open>co_yield\<close>, \<open>co_resume\<close>,
    \<open>co_resume_value\<close>, \<open>entry_point\<close>; a switch and the switch back keep the calling
    convention, which is what \<open>Conn_Handler\<close> relies on when it keeps the locals of a suspended
    coroutine.
  \<^item> \<open>Murmur3_Spec\<close>: MurmurHash3 x64\_128 as published, on natural numbers and apart from the
    model, with two published values. \<open>Murmur3\<close>: the three hash functions equal folds over the
    words of the key, and the third computes the published function; the locale \<open>mixer\<close> for steps that can be undone gives that a change of one block changes the hash.
  \<^item> \<open>Store_Spec\<close>, \<open>Hashtable\<close>: the locale \<open>first_insert_store\<close>, the contract of a table whose
    first insertion wins, interpreted on the chained hash table in a heap of nodes with \<open>next\<close>
    and \<open>pprev\<close>; a program of lookups and insertions refines a finite map and deletion restores
    the heap.
  \<^item> \<open>Socket\<close>, \<open>Server\<close>: \<open>create_listening_socket\<close> and \<open>create_server\<close> on every error path, with
    a logging kernel that shows which descriptors stay open, that of the \<open>fopen\<close> in
    \<open>get_somaxconn\<close> among them.
  \<^item> \<open>Threads\<close>: \<open>start_listening\<close> and the set-up of the event loop in several threads as a step
    relation, one step for each access to \<open>svr->ring\<close> and to the queue it leads to, with the
    invariant of every interleaving (no pointer to a ring dangles) and the races.

  \<^bold>\<open>Loops.\<close> There is no fuel. Loops over a buffer or an array are functions with a measure;
  the two loops along \<open>next\<close> pointers and the walk through the section of routes are partial
  functions with value \<^term>\<open>None\<close> when they do not end, and are shown to end on every
  well-formed table and section. The event loop is a relation.

  \<^bold>\<open>Not modelled.\<close> The event loop proper with more than one thread, whose threads would submit
  and take completions through one ring; \<open>magic_init\<close>
  and \<open>magic_uninit\<close>, which only call libmagic and print; \<open>syscall_6\<close>, which is not valid C and
  not used; the epoll and inotify headers beyond their wrappers; the lifetime of the local
  arrays that are handed to an asynchronous send; branch hints, logging and the macros of
  \<open>common.h\<close> that no code uses; the program \<open>tests/coro.c\<close>.
\<close>

end
